(* ===== verification/Prelude.thy ===== *)
theory Prelude
  imports Main "HOL-Library.Word" "HOL-Library.Monad_Syntax" "HOL-Library.While_Combinator"
begin

section \<open>Prelude\<close>

text \<open>
  Shared vocabulary of the development: names for the machine types of the C sources,
  the fact collections that the component proofs draw on, the reading of the C idioms
  that every component uses (masks, big-endian and little-endian fields, \<open>strcmp\<close>),
  and the generic facts on lists, options and words that go with them.

  Conventions used everywhere. A C function becomes a function that takes the state it
  reads and returns the state it leaves. A result of type \<open>'a option\<close> is \<open>None\<close> where
  the process stops instead of returning: a failed \<open>assert\<close>, or a read or write
  through a pointer that the model says is not allocated. Error returns of the C code
  (\<open>-1\<close>, \<open>NULL\<close>) stay ordinary results. A C \<open>int\<close> is an \<open>int\<close>, or a
  \<open>nat\<close> when it is an index or a count that the code keeps non-negative; the unsigned
  types keep their width.
\<close>

unbundle bit_operations_syntax

type_synonym byte = "8 word"
type_synonym u16 = "16 word"
type_synonym u32 = "32 word"
type_synonym u64 = "64 word"

text \<open>\<open>state_simps\<close> holds the equations that evaluate the operations of a component on a
  state, \<open>inv_intros\<close> the preservation lemmas of the component invariants, and
  \<open>abs_simps\<close> the equations between an operation and its abstract counterpart.\<close>

named_theorems state_simps
named_theorems inv_intros
named_theorems abs_simps

subsection \<open>Options as results of code that may stop\<close>

lemma bind_Some_iff: "(Option.bind m f = Some y) \<longleftrightarrow> (\<exists>x. m = Some x \<and> f x = Some y)"
  by (cases m) auto

lemma if_None_eq_Some [simp]: "((if b then None else m) = Some y) \<longleftrightarrow> (\<not> b \<and> m = Some y)"
  by simp

lemma if_eq_None_Some [simp]: "((if b then m else None) = Some y) \<longleftrightarrow> (b \<and> m = Some y)"
  by simp

subsection \<open>Lists addressed by index\<close>

lemma map_nth_upt_append:
  "n \<le> length xs \<Longrightarrow> map ((!) (xs @ ys)) [0..<n] = take n xs"
  by (rule nth_equalityI) (auto simp: nth_append)

lemma map_nth_upt_take: "n \<le> length xs \<Longrightarrow> map ((!) xs) [0..<n] = take n xs"
  by (rule nth_equalityI) auto

lemma map_nth_upt_id [simp]: "map ((!) xs) [0..<length xs] = xs"
  by (rule nth_equalityI) auto

lemma nth_update_None [simp]:
  "j < length xs \<Longrightarrow> xs[i := None] ! j = Some c \<longleftrightarrow> j \<noteq> i \<and> xs ! j = Some c"
  by (cases "i < length xs") (auto simp: nth_list_update)

lemma upt_conv_Cons0: "0 < n \<Longrightarrow> [0..<n] = 0 # map Suc [0..<n - 1]"
  by (cases n) (simp_all add: upt_conv_Cons map_Suc_upt del: upt_Suc)

lemma filter_empty_iff_Ball: "filter P xs = [] \<longleftrightarrow> (\<forall>x\<in>set xs. \<not> P x)"
  by (simp add: filter_empty_conv)

subsection \<open>Masks and shifts\<close>

text \<open>The code compares two numbers above a bit position by filling the low bits of both
  (\<open>(a | (m-1)) == (b | (m-1))\<close>), which is equality of the high parts.\<close>

lemma or_mask_eq_iff_drop_bit:
  fixes a b :: "'a::len word"
  shows "(a OR mask n) = (b OR mask n) \<longleftrightarrow> drop_bit n a = drop_bit n b"
proof
  assume eq: "a OR mask n = b OR mask n"
  show "drop_bit n a = drop_bit n b"
  proof (rule bit_word_eqI)
    fix k
    assume "k < LENGTH('a)"
    from eq have "bit (a OR mask n) (n + k) = bit (b OR mask n) (n + k)" by simp
    then show "bit (drop_bit n a) k = bit (drop_bit n b) k"
      by (auto simp: bit_simps)
  qed
next
  assume eq: "drop_bit n a = drop_bit n b"
  show "a OR mask n = b OR mask n"
  proof (rule bit_word_eqI)
    fix k
    assume "k < LENGTH('a)"
    from eq have "bit (drop_bit n a) (k - n) = bit (drop_bit n b) (k - n)" by simp
    with \<open>k < LENGTH('a)\<close> show "bit (a OR mask n) k = bit (b OR mask n) k"
      by (auto simp: bit_simps)
  qed
qed

lemma unat_drop_bit: "unat (drop_bit n (w :: 'a::len word)) = unat w div 2 ^ n"
  using unat_drop_bit_eq [of n w] by (simp only: drop_bit_eq_div)

lemma uint_drop_bit: "uint (drop_bit n (w :: 'a::len word)) = uint w div 2 ^ n"
  using arg_cong [OF unat_drop_bit [of n w], of int] by (simp only: of_nat_div of_nat_power of_nat_numeral of_nat_unat)

lemma unat_and_mask: "unat ((w :: 'a::len word) AND mask n) = unat w mod 2 ^ n"
proof -
  have "unat (take_bit n w) = take_bit n (unat w)" by (rule unsigned_take_bit_eq)
  then show ?thesis by (simp only: take_bit_eq_mask [symmetric] take_bit_eq_mod [of n "unat w"])
qed

lemma word_eq_iff_unat_eq: "(a :: 'a::len word) = b \<longleftrightarrow> unat a = unat b"
  by (rule word_unat_eq_iff)

subsection \<open>C strings\<close>

text \<open>\<open>strcmp\<close> on strings without their terminator. Only the sign of its result is
  specified, and only the sign is used.\<close>

fun strcmp :: "string \<Rightarrow> string \<Rightarrow> int" where
  "strcmp [] [] = 0"
| "strcmp [] (y # ys) = - 1"
| "strcmp (x # xs) [] = 1"
| "strcmp (x # xs) (y # ys) = (if x = y then strcmp xs ys else int (of_char x) - int (of_char y))"

lemma of_char_diff_zero [simp]: "int (of_char x) - int (of_char y) = 0 \<longleftrightarrow> x = y"
  by simp

lemma strcmp_eq_0_iff [simp]: "strcmp a b = 0 \<longleftrightarrow> a = b"
  by (induction a b rule: strcmp.induct) auto

lemma strcmp_refl [simp]: "strcmp a a = 0"
  by simp

lemma strcmp_less_asym: "strcmp a b < 0 \<longleftrightarrow> strcmp b a > 0"
  by (induction a b rule: strcmp.induct) auto

lemma strcmp_less_trans: "strcmp a b < 0 \<Longrightarrow> strcmp b c < 0 \<Longrightarrow> strcmp a c < 0"
proof (induction a b arbitrary: c rule: strcmp.induct)
  case (2 y ys)
  then show ?case by (cases c) auto
next
  case (4 x xs y ys)
  then show ?case by (cases c) (auto split: if_splits)
qed auto

lemma strcmp_total: "strcmp a b < 0 \<or> a = b \<or> strcmp b a < 0"
  using strcmp_less_asym [of a b] strcmp_less_asym [of b a] strcmp_eq_0_iff [of a b] by linarith

subsection \<open>Integers in memory\<close>

text \<open>The bytes of an integer in the order in which a little-endian machine keeps them, as
  \<open>memcpy\<close> writes and reads them.\<close>

primrec le_bytes :: "nat \<Rightarrow> int \<Rightarrow> byte list" where
  "le_bytes 0 v = []"
| "le_bytes (Suc n) v = word_of_int v # le_bytes n (v div 2 ^ 8)"

primrec le_value :: "byte list \<Rightarrow> int" where
  "le_value [] = 0"
| "le_value (b # bs) = uint b + 2 ^ 8 * le_value bs"

lemma length_le_bytes [simp]: "length (le_bytes n v) = n"
  by (induction n arbitrary: v) simp_all

lemma le_value_bounds: "0 \<le> le_value bs \<and> le_value bs < 2 ^ (8 * length bs)"
proof (induction bs)
  case (Cons b bs)
  have "uint b \<le> 2 ^ 8 - 1" using unsigned_less [of b, where 'a = int] by simp
  moreover have "2 ^ 8 * le_value bs \<le> 2 ^ 8 * (2 ^ (8 * length bs) - 1)" using Cons.IH by simp
  ultimately have "uint b + 2 ^ 8 * le_value bs \<le> 2 ^ 8 * 2 ^ (8 * length bs) - 1" by simp
  then show ?case using Cons.IH by (simp add: power_add)
qed simp

lemma le_value_le_bytes: "le_value (le_bytes n v) = v mod 2 ^ (8 * n)"
proof (induction n arbitrary: v)
  case (Suc n)
  have "v mod (2 ^ 8 * 2 ^ (8 * n)) = 2 ^ 8 * (v div 2 ^ 8 mod 2 ^ (8 * n)) + v mod 2 ^ 8"
    by (rule zmod_zmult2_eq) simp
  moreover have "uint (word_of_int v :: byte) = v mod 2 ^ 8" by (simp add: uint_word_of_int)
  ultimately show ?case using Suc.IH by (simp add: power_add)
qed simp

lemma le_bytes_le_value: "length bs = n \<Longrightarrow> le_bytes n (le_value bs) = bs"
proof (induction bs arbitrary: n)
  case (Cons b bs)
  then obtain m where m: "n = Suc m" "length bs = m" by (cases n) auto
  have "(uint b + 2 ^ 8 * le_value bs) div 2 ^ 8 = le_value bs"
    using unsigned_less [of b, where 'a = int] by simp
  moreover have "word_of_int (uint b + 2 ^ 8 * le_value bs) = b"
  proof -
    have "uint (word_of_int (uint b + 2 ^ 8 * le_value bs) :: byte) = (uint b + 2 ^ 8 * le_value bs) mod 2 ^ 8"
      by (simp only: uint_word_of_int) simp
    also have "\<dots> = uint b" using unsigned_less [of b, where 'a = int] by simp
    finally show ?thesis by (simp only: word_uint_eq_iff)
  qed
  ultimately show ?case using Cons.IH [OF m(2)] m by simp
qed simp

text \<open>A read of \<open>n\<close> bytes as a signed integer.\<close>

definition le_signed :: "nat \<Rightarrow> byte list \<Rightarrow> int" where
  "le_signed n bs = signed_take_bit (8 * n - 1) (le_value bs)"

lemma le_signed_le_bytes:
  assumes "0 < n" "- (2 ^ (8 * n - 1)) \<le> v" "v < 2 ^ (8 * n - 1)"
  shows "le_signed n (le_bytes n v) = v"
proof -
  have "le_signed n (le_bytes n v) = signed_take_bit (8 * n - 1) (take_bit (8 * n) v)"
    by (simp add: le_signed_def le_value_le_bytes take_bit_eq_mod)
  also have "\<dots> = signed_take_bit (8 * n - 1) v"
  proof -
    have "\<not> 8 * n \<le> 8 * n - 1" using assms(1) by linarith
    then show ?thesis by (simp only: signed_take_bit_take_bit if_False)
  qed
  also have "\<dots> = v" using assms by (simp add: signed_take_bit_int_eq_self)
  finally show ?thesis .
qed

end
