(* ===== verification/Ring.thy ===== *)
theory Ring
  imports Prelude
begin

section \<open>Ring buffers and the FIFO contract\<close>

text \<open>
  Two components of the program keep their messages in a growing circular array: the
  service message queue (\<open>skynet_mq.c\<close>) and the packet queue of the network filter
  (\<open>lua-netpack.c\<close>). This theory holds what they share: the list of entries a ring
  stands for, the effect on that list of writing at the tail, of reading at the head and
  of moving to a larger array, and the contract of a FIFO as a locale, which both
  components interpret on their own operations.
\<close>

subsection \<open>The entries of a ring\<close>

text \<open>\<open>ring_len\<close> is the number of entries between two positions of an array of
  \<open>cap\<close> cells, as \<open>skynet_mq_length\<close> computes it; \<open>ring_entries\<close> reads
  \<open>n\<close> cells from position \<open>h\<close>, wrapping at the end of the array.\<close>

definition ring_len :: "nat \<Rightarrow> nat \<Rightarrow> nat \<Rightarrow> nat" where
  "ring_len cap h t = (if h \<le> t then t - h else t + cap - h)"

definition ring_entries :: "'a list \<Rightarrow> nat \<Rightarrow> nat \<Rightarrow> 'a list" where
  "ring_entries xs h n = map (\<lambda>i. xs ! ((h + i) mod length xs)) [0..<n]"

definition ring_contents :: "'a list \<Rightarrow> nat \<Rightarrow> nat \<Rightarrow> 'a list" where
  "ring_contents xs h t = ring_entries xs h (ring_len (length xs) h t)"

text \<open>The position after \<open>i\<close>.\<close>

definition ring_next :: "nat \<Rightarrow> nat \<Rightarrow> nat" where
  "ring_next cap i = (if i + 1 \<ge> cap then 0 else i + 1)"

lemma length_ring_entries [simp]: "length (ring_entries xs h n) = n"
  by (simp add: ring_entries_def)

lemma length_ring_contents [simp]:
  "length (ring_contents xs h t) = ring_len (length xs) h t"
  by (simp add: ring_contents_def)

lemma ring_len_less: "h < cap \<Longrightarrow> t < cap \<Longrightarrow> ring_len cap h t < cap"
  by (auto simp: ring_len_def)

lemma ring_len_eq_0_iff: "h < cap \<Longrightarrow> t < cap \<Longrightarrow> ring_len cap h t = 0 \<longleftrightarrow> h = t"
  by (auto simp: ring_len_def)

lemma ring_next_less: "0 < cap \<Longrightarrow> ring_next cap i < cap"
  by (simp add: ring_next_def)

lemma ring_next_mod: "i < cap \<Longrightarrow> ring_next cap i = Suc i mod cap"
  by (cases "Suc i = cap") (auto simp: ring_next_def)

lemma ring_tail_pos: "h < cap \<Longrightarrow> t < cap \<Longrightarrow> (h + ring_len cap h t) mod cap = t"
  by (auto simp: ring_len_def)

lemma ring_pos_inj:
  assumes "i < cap" "j < cap" "(h + i) mod cap = (h + j) mod (cap :: nat)"
  shows "i = j"
proof -
  have "(int h + int i) mod int cap = (int h + int j) mod int cap"
    using assms(3) by (metis of_nat_add of_nat_mod)
  then have "int i mod int cap = int j mod int cap"
    by (metis add_diff_cancel_left' mod_diff_left_eq)
  with assms(1,2) show ?thesis by simp
qed

lemma ring_entries_update_out:
  assumes "n \<le> m" "m < length xs"
  shows "ring_entries (xs[(h + m) mod length xs := x]) h n = ring_entries xs h n"
proof (rule nth_equalityI)
  fix i assume "i < length (ring_entries (xs[(h + m) mod length xs := x]) h n)"
  then have i: "i < n" by simp
  have "(h + i) mod length xs \<noteq> (h + m) mod length xs"
    using ring_pos_inj [of i "length xs" m h] assms i by auto
  then show "ring_entries (xs[(h + m) mod length xs := x]) h n ! i = ring_entries xs h n ! i"
    using i by (simp add: ring_entries_def nth_list_update_neq)
qed simp

lemma ring_entries_snoc:
  assumes "n < length xs"
  shows "ring_entries (xs[(h + n) mod length xs := x]) h (Suc n) = ring_entries xs h n @ [x]"
proof -
  have "0 < length xs" using assms by linarith
  then have "(h + n) mod length xs < length xs" by (rule mod_less_divisor)
  then have "ring_entries (xs[(h + n) mod length xs := x]) h (Suc n)
      = ring_entries (xs[(h + n) mod length xs := x]) h n @ [x]"
    by (simp add: ring_entries_def)
  then show ?thesis using ring_entries_update_out [of n n xs h x] assms by simp
qed

lemma ring_entries_Cons:
  "0 < n \<Longrightarrow> ring_entries xs h n = xs ! (h mod length xs) # ring_entries xs (Suc h) (n - 1)"
  by (simp add: ring_entries_def upt_conv_Cons0 comp_def)

lemma ring_entries_mod: "ring_entries xs (h mod length xs) n = ring_entries xs h n"
  by (simp add: ring_entries_def mod_add_left_eq)

subsection \<open>Writing at the tail, reading at the head, growing\<close>

lemma ring_contents_push:
  assumes "h < length xs" "t < length xs" "h \<noteq> ring_next (length xs) t"
  shows "ring_contents (xs[t := x]) h (ring_next (length xs) t) = ring_contents xs h t @ [x]"
proof -
  let ?n = "ring_len (length xs) h t"
  have n: "?n < length xs" using assms by (simp add: ring_len_less)
  have t: "t = (h + ?n) mod length xs" using assms by (simp add: ring_tail_pos)
  have "ring_len (length xs) h (ring_next (length xs) t) = Suc ?n"
    using assms by (auto simp: ring_len_def ring_next_def split: if_splits)
  then show ?thesis
    using ring_entries_snoc [OF n, of h x] t by (simp add: ring_contents_def)
qed

text \<open>When the tail catches up with the head the array is full: its cells, read from the
  head, are the entries of the old ring and the one just written.\<close>

lemma ring_entries_full:
  assumes "h < length xs" "t < length xs" "h = ring_next (length xs) t"
  shows "ring_entries (xs[t := x]) h (length xs) = ring_contents xs h t @ [x]"
proof -
  let ?n = "ring_len (length xs) h t"
  have n: "?n < length xs" using assms by (simp add: ring_len_less)
  have t: "t = (h + ?n) mod length xs" using assms by (simp add: ring_tail_pos)
  have "length xs = Suc ?n"
    using assms by (auto simp: ring_len_def ring_next_def split: if_splits)
  then show ?thesis
    using ring_entries_snoc [OF n, of h x] t by (simp add: ring_contents_def)
qed

lemma ring_contents_grown:
  assumes "0 < length ys"
  shows "ring_contents (es @ ys) 0 (length es) = es"
  using assms
  by (intro nth_equalityI) (auto simp: ring_contents_def ring_entries_def ring_len_def nth_append)

lemma ring_contents_pop:
  assumes "h < length xs" "t < length xs" "h \<noteq> t"
  shows "ring_contents xs h t = xs ! h # ring_contents xs (ring_next (length xs) h) t"
proof -
  let ?n = "ring_len (length xs) h t"
  have pos: "0 < ?n" using ring_len_eq_0_iff [OF assms(1,2)] assms(3) by simp
  have "ring_len (length xs) (ring_next (length xs) h) t = ?n - 1"
    using assms by (auto simp: ring_len_def ring_next_def split: if_splits)
  moreover have "ring_entries xs (ring_next (length xs) h) (?n - 1) = ring_entries xs (Suc h) (?n - 1)"
    using ring_entries_mod [of xs "Suc h"] assms(1) by (simp only: ring_next_mod)
  moreover have "xs ! (h mod length xs) = xs ! h" using assms(1) by simp
  ultimately show ?thesis
    unfolding ring_contents_def using ring_entries_Cons [OF pos, of xs h] by simp
qed

lemma ring_contents_empty [simp]: "ring_contents xs h h = []"
  by (simp add: ring_contents_def ring_len_def ring_entries_def)

subsection \<open>The FIFO contract\<close>

text \<open>A client sees a queue through two operations. A script of operations run against an
  implementation yields the values of its pops and the queue it leaves; \<open>list_push\<close> and
  \<open>list_pop\<close> are the abstract queue, a list.\<close>

datatype 'a fifo_op = Push 'a | Pop

fun run_fifo :: "('a \<Rightarrow> 'q \<Rightarrow> 'q) \<Rightarrow> ('q \<Rightarrow> 'a option \<times> 'q) \<Rightarrow> 'a fifo_op list \<Rightarrow> 'q
    \<Rightarrow> 'a option list \<times> 'q" where
  "run_fifo push pop [] q = ([], q)"
| "run_fifo push pop (Push x # ops) q = run_fifo push pop ops (push x q)"
| "run_fifo push pop (Pop # ops) q =
     (let (r, q') = pop q; (rs, q'') = run_fifo push pop ops q' in (r # rs, q''))"

definition list_push :: "'a \<Rightarrow> 'a list \<Rightarrow> 'a list" where
  "list_push x xs = xs @ [x]"

definition list_pop :: "'a list \<Rightarrow> 'a option \<times> 'a list" where
  "list_pop xs = (case xs of [] \<Rightarrow> (None, []) | x # ys \<Rightarrow> (Some x, ys))"

locale fifo =
  fixes push :: "'a \<Rightarrow> 'q \<Rightarrow> 'q"
    and pop :: "'q \<Rightarrow> 'a option \<times> 'q"
    and contents :: "'q \<Rightarrow> 'a list"
    and inv :: "'q \<Rightarrow> bool"
  assumes push_inv: "inv q \<Longrightarrow> inv (push x q)"
    and push_contents: "inv q \<Longrightarrow> contents (push x q) = contents q @ [x]"
    and pop_inv: "inv q \<Longrightarrow> inv (snd (pop q))"
    and pop_spec: "inv q \<Longrightarrow> (fst (pop q), contents (snd (pop q))) = list_pop (contents q)"
begin

lemma run_refines:
  assumes "inv q"
  shows "inv (snd (run_fifo push pop ops q))
    \<and> fst (run_fifo push pop ops q) = fst (run_fifo list_push list_pop ops (contents q))
    \<and> contents (snd (run_fifo push pop ops q)) = snd (run_fifo list_push list_pop ops (contents q))"
  using assms
proof (induction ops arbitrary: q)
  case Nil
  then show ?case by simp
next
  case (Cons a ops)
  show ?case
  proof (cases a)
    case (Push x)
    with Cons push_inv [of q x] push_contents [of q x] show ?thesis
      by (simp add: list_push_def)
  next
    case Pop
    obtain r q' where pop: "pop q = (r, q')" by (cases "pop q")
    with pop_spec [OF Cons.prems] pop_inv [OF Cons.prems]
    have spec: "list_pop (contents q) = (r, contents q')" and inv: "inv q'" by simp_all
    from Cons.IH [OF inv] Pop pop spec show ?thesis
      by (auto simp: Let_def split: prod.splits)
  qed
qed

lemma push_all_contents: "inv q \<Longrightarrow> contents (fold push xs q) = contents q @ xs \<and> inv (fold push xs q)"
  by (induction xs arbitrary: q) (simp_all add: push_inv push_contents)

end

end
