(* ===== verification/Netpack.thy ===== *)
theory Netpack
  imports Ring
begin

section \<open>Packets out of a byte stream (\<open>lua-netpack.c\<close>)\<close>

text \<open>
  A package on the wire is a 16-bit big-endian length followed by that many bytes. The
  filter receives the data of a socket in arbitrary pieces, keeps what does not complete a
  package in a hash table of unfinished packages (one for each socket), returns a package
  that a piece completes exactly, and puts several packages into a growing circular queue.

  The queue lives in a Lua userdata at stack index 1; \<open>None\<close> is the \<open>nil\<close> that is
  there at first. Buffers are passed by value, so \<open>clone\<close> has no counterpart, and the
  buffer of an unfinished package holds the bytes received so far (the rest of its memory is
  not initialised). Reading past the end of a piece is \<open>None\<close>.
\<close>

subsection \<open>The queue and the unfinished packages\<close>

definition QUEUESIZE :: nat where
  "QUEUESIZE = 1024"

definition HASHSIZE :: nat where
  "HASHSIZE = 4096"

record netpack =
  np_id :: int
  np_size :: int
  np_buffer :: "byte list"

record uncomplete =
  uc_pack :: netpack
  uc_read :: int
  uc_header :: int

record np_queue =
  nq_cap :: nat
  nq_head :: nat
  nq_tail :: nat
  nq_hash :: "nat \<Rightarrow> uncomplete list"
  nq_queue :: "netpack list"

fun clear_list :: "uncomplete list \<Rightarrow> byte list list" where
  "clear_list [] = []"
| "clear_list (uc # ucs) = np_buffer (uc_pack uc) # clear_list ucs"

text \<open>\<open>lclear\<close> returns the buffers that it frees, in order.\<close>

definition lclear :: "np_queue option \<Rightarrow> byte list list \<times> np_queue option" where
  "lclear q0 = (case q0 of None \<Rightarrow> ([], None)
     | Some q \<Rightarrow>
         (let tl' = (if nq_head q > nq_tail q then nq_tail q + nq_cap q else nq_tail q)
          in (concat (map (\<lambda>i. clear_list (nq_hash q i)) [0..<HASHSIZE])
                @ map (\<lambda>i. np_buffer (nq_queue q ! (i mod nq_cap q))) [nq_head q..<tl'],
              Some (q\<lparr>nq_hash := (\<lambda>i. if i < HASHSIZE then [] else nq_hash q i),
                      nq_head := 0, nq_tail := 0\<rparr>))))"

definition hash_fd :: "int \<Rightarrow> nat" where
  "hash_fd fd =
     (let a = fd div 2 ^ 24; b = fd div 2 ^ 12; c = fd
      in unat (word_of_int (a + b + c) :: u32) mod HASHSIZE)"

text \<open>The walk along a chain of \<open>find_uncomplete\<close>, which takes the entry off.\<close>

fun take_uncomplete :: "int \<Rightarrow> uncomplete list \<Rightarrow> uncomplete option \<times> uncomplete list" where
  "take_uncomplete fd [] = (None, [])"
| "take_uncomplete fd (uc # ucs) =
     (if np_id (uc_pack uc) = fd then (Some uc, ucs)
      else let (r, ucs') = take_uncomplete fd ucs in (r, uc # ucs'))"

definition find_uncomplete :: "np_queue option \<Rightarrow> int \<Rightarrow> uncomplete option \<times> np_queue option" where
  "find_uncomplete q0 fd = (case q0 of None \<Rightarrow> (None, None)
     | Some q \<Rightarrow>
         (let h = hash_fd fd; (r, ucs) = take_uncomplete fd (nq_hash q h)
          in (r, Some (q\<lparr>nq_hash := (nq_hash q)(h := ucs)\<rparr>))))"

definition blank_netpack :: netpack where
  "blank_netpack = \<lparr>np_id = 0, np_size = 0, np_buffer = []\<rparr>"

definition new_np_queue :: np_queue where
  "new_np_queue = \<lparr>nq_cap = QUEUESIZE, nq_head = 0, nq_tail = 0, nq_hash = (\<lambda>h. []),
     nq_queue = replicate QUEUESIZE blank_netpack\<rparr>"

definition get_queue :: "np_queue option \<Rightarrow> np_queue" where
  "get_queue q0 = (case q0 of None \<Rightarrow> new_np_queue | Some q \<Rightarrow> q)"

definition np_expand_queue :: "np_queue \<Rightarrow> np_queue" where
  "np_expand_queue q = \<lparr>nq_cap = nq_cap q + QUEUESIZE, nq_head = 0, nq_tail = nq_cap q,
     nq_hash = nq_hash q,
     nq_queue = map (\<lambda>i. nq_queue q ! ((nq_head q + i) mod nq_cap q)) [0..<nq_cap q]
       @ replicate QUEUESIZE blank_netpack\<rparr>"

definition np_enqueue :: "netpack \<Rightarrow> np_queue \<Rightarrow> np_queue" where
  "np_enqueue np q =
     (let t = nq_tail q;
          q1 = q\<lparr>nq_queue := (nq_queue q)[t := np],
                 nq_tail := (if t + 1 \<ge> nq_cap q then t + 1 - nq_cap q else t + 1)\<rparr>
      in if nq_head q1 = nq_tail q1 then np_expand_queue q1 else q1)"

definition push_data :: "np_queue option \<Rightarrow> int \<Rightarrow> byte list \<Rightarrow> int \<Rightarrow> np_queue" where
  "push_data q0 fd buffer n = np_enqueue \<lparr>np_id = fd, np_size = n, np_buffer = buffer\<rparr> (get_queue q0)"

definition add_uncomplete :: "uncomplete \<Rightarrow> np_queue \<Rightarrow> np_queue" where
  "add_uncomplete uc q =
     (let h = hash_fd (np_id (uc_pack uc))
      in q\<lparr>nq_hash := (nq_hash q)(h := uc # nq_hash q h)\<rparr>)"

text \<open>\<open>save_uncomplete\<close> links a zeroed entry, which its caller fills in.\<close>

definition save_uncomplete :: "np_queue option \<Rightarrow> int \<Rightarrow> (uncomplete \<Rightarrow> uncomplete) \<Rightarrow> np_queue" where
  "save_uncomplete q0 fd fill =
     add_uncomplete (fill \<lparr>uc_pack = \<lparr>np_id = fd, np_size = 0, np_buffer = []\<rparr>, uc_read = 0, uc_header = 0\<rparr>)
       (get_queue q0)"

definition read_size :: "byte \<Rightarrow> byte \<Rightarrow> int" where
  "read_size b0 b1 = (uint b0 * 2 ^ 8) OR uint b1"

definition fill_header :: "byte \<Rightarrow> uncomplete \<Rightarrow> uncomplete" where
  "fill_header b uc = uc\<lparr>uc_read := - 1, uc_header := uint b\<rparr>"

definition fill_part :: "int \<Rightarrow> byte list \<Rightarrow> uncomplete \<Rightarrow> uncomplete" where
  "fill_part pack_size buffer uc = uc\<lparr>uc_read := int (length buffer),
     uc_pack := (uc_pack uc)\<lparr>np_size := pack_size, np_buffer := buffer\<rparr>\<rparr>"

function push_more :: "np_queue option \<Rightarrow> int \<Rightarrow> byte list \<Rightarrow> np_queue option" where
  "push_more q0 fd [] = None"
| "push_more q0 fd [b] = Some (save_uncomplete q0 fd (fill_header b))"
| "push_more q0 fd (b0 # b1 # buffer) =
     (let pack_size = read_size b0 b1
      in if int (length buffer) < pack_size then
           Some (save_uncomplete q0 fd (fill_part pack_size buffer))
         else
           let q1 = push_data q0 fd (take (nat pack_size) buffer) pack_size;
               rest = drop (nat pack_size) buffer
           in if rest \<noteq> [] then push_more (Some q1) fd rest else Some q1)"
  by pat_completeness auto
termination
  by (relation "measure (\<lambda>(q0, fd, bs). length bs)") auto

declare push_more.simps(3) [simp del]

definition close_uncomplete :: "np_queue option \<Rightarrow> int \<Rightarrow> np_queue option" where
  "close_uncomplete q0 fd = snd (find_uncomplete q0 fd)"

subsection \<open>The filter\<close>

text \<open>What the filter pushes after the queue: nothing, or one of its six kinds of
  results.\<close>

datatype filter_result =
    Only_queue
  | Type_data int "byte list" int
  | Type_more
  | Type_error int "byte list"
  | Type_open int "byte list"
  | Type_close int
  | Type_warning int int

text \<open>The part of \<open>filter_data_\<close> that fills an unfinished package \<open>uc\<close> which
  has been taken out of the table: first its length, if that is not complete, then its
  data.\<close>

definition fill_data ::
  "np_queue option \<Rightarrow> int \<Rightarrow> uncomplete \<Rightarrow> byte list \<Rightarrow> (filter_result \<times> np_queue option) option" where
  "fill_data q0 fd uc buffer =
     (let need = np_size (uc_pack uc) - uc_read uc
      in if int (length buffer) < need then
           let uc1 = uc\<lparr>uc_pack := (uc_pack uc)\<lparr>np_buffer := np_buffer (uc_pack uc) @ buffer\<rparr>,
                        uc_read := uc_read uc + int (length buffer)\<rparr>
           in do { q \<leftarrow> q0;
                   let h = hash_fd fd;
                   Some (Only_queue, Some (q\<lparr>nq_hash := (nq_hash q)(h := uc1 # nq_hash q h)\<rparr>)) }
         else
           let pack = np_buffer (uc_pack uc) @ take (nat need) buffer;
               rest = drop (nat need) buffer
           in if rest = [] then Some (Type_data fd pack (np_size (uc_pack uc)), q0)
              else do { q \<leftarrow> push_more (Some (push_data q0 fd pack (np_size (uc_pack uc)))) fd rest;
                        Some (Type_more, Some q) })"

definition fill_uncomplete ::
  "np_queue option \<Rightarrow> int \<Rightarrow> uncomplete \<Rightarrow> byte list \<Rightarrow> (filter_result \<times> np_queue option) option" where
  "fill_uncomplete q0 fd uc buffer =
     (if uc_read uc < 0 then
        (if uc_read uc \<noteq> - 1 then None
         else case buffer of [] \<Rightarrow> None
           | b # bs \<Rightarrow>
               let pack_size = uint b OR (uc_header uc * 2 ^ 8)
               in fill_data q0 fd (uc\<lparr>uc_pack := (uc_pack uc)\<lparr>np_size := pack_size, np_buffer := []\<rparr>,
                                      uc_read := 0\<rparr>) bs)
      else fill_data q0 fd uc buffer)"

definition filter_data :: "np_queue option \<Rightarrow> int \<Rightarrow> byte list \<Rightarrow> (filter_result \<times> np_queue option) option" where
  "filter_data q0 fd buffer =
     (case find_uncomplete q0 fd of
        (Some uc, q1) \<Rightarrow> fill_uncomplete q1 fd uc buffer
      | (None, q1) \<Rightarrow>
          (case buffer of
             [] \<Rightarrow> None
           | [b] \<Rightarrow> Some (Only_queue, Some (save_uncomplete q1 fd (fill_header b)))
           | b0 # b1 # bs \<Rightarrow>
               let pack_size = read_size b0 b1
               in if int (length bs) < pack_size then
                    Some (Only_queue, Some (save_uncomplete q1 fd (fill_part pack_size bs)))
                  else if int (length bs) = pack_size then Some (Type_data fd bs (int (length bs)), q1)
                  else do { q \<leftarrow> push_more (Some (push_data q1 fd (take (nat pack_size) bs) pack_size)) fd
                                  (drop (nat pack_size) bs);
                            Some (Type_more, Some q) }))"

text \<open>A socket message (\<open>skynet_socket.h\<close>). When its buffer is \<open>NULL\<close> a string
  follows the structure, the argument \<open>padding\<close> of the filter.\<close>

record skynet_socket_message =
  sm_type :: int
  sm_id :: int
  sm_ud :: int
  sm_buffer :: "byte list option"

definition SKYNET_SOCKET_TYPE_DATA :: int where "SKYNET_SOCKET_TYPE_DATA = 1"
definition SKYNET_SOCKET_TYPE_CONNECT :: int where "SKYNET_SOCKET_TYPE_CONNECT = 2"
definition SKYNET_SOCKET_TYPE_CLOSE :: int where "SKYNET_SOCKET_TYPE_CLOSE = 3"
definition SKYNET_SOCKET_TYPE_ACCEPT :: int where "SKYNET_SOCKET_TYPE_ACCEPT = 4"
definition SKYNET_SOCKET_TYPE_ERROR :: int where "SKYNET_SOCKET_TYPE_ERROR = 5"
definition SKYNET_SOCKET_TYPE_UDP :: int where "SKYNET_SOCKET_TYPE_UDP = 6"
definition SKYNET_SOCKET_TYPE_WARNING :: int where "SKYNET_SOCKET_TYPE_WARNING = 7"

lemmas socket_types = SKYNET_SOCKET_TYPE_DATA_def SKYNET_SOCKET_TYPE_CONNECT_def
  SKYNET_SOCKET_TYPE_CLOSE_def SKYNET_SOCKET_TYPE_ACCEPT_def SKYNET_SOCKET_TYPE_ERROR_def
  SKYNET_SOCKET_TYPE_UDP_def SKYNET_SOCKET_TYPE_WARNING_def

text \<open>\<open>pushstring\<close> with the string that follows the message; with a separate buffer
  the size is -1, which is no length of a Lua string.\<close>

definition pushstring :: "skynet_socket_message \<Rightarrow> byte list \<Rightarrow> byte list option" where
  "pushstring m padding = (case sm_buffer m of None \<Rightarrow> Some padding | Some b \<Rightarrow> None)"

definition lfilter ::
  "np_queue option \<Rightarrow> skynet_socket_message \<Rightarrow> byte list \<Rightarrow> (filter_result \<times> np_queue option) option" where
  "lfilter q0 m padding =
     (if sm_type m = SKYNET_SOCKET_TYPE_DATA then
        (case sm_buffer m of None \<Rightarrow> None
         | Some b \<Rightarrow> if sm_ud m < 0 \<or> int (length b) < sm_ud m then None
                     else filter_data q0 (sm_id m) (take (nat (sm_ud m)) b))
      else if sm_type m = SKYNET_SOCKET_TYPE_CONNECT then Some (Only_queue, q0)
      else if sm_type m = SKYNET_SOCKET_TYPE_CLOSE then
        Some (Type_close (sm_id m), close_uncomplete q0 (sm_id m))
      else if sm_type m = SKYNET_SOCKET_TYPE_ACCEPT then do {
        str \<leftarrow> pushstring m padding;
        Some (Type_open (sm_ud m) str, q0) }
      else if sm_type m = SKYNET_SOCKET_TYPE_ERROR then do {
        str \<leftarrow> pushstring m padding;
        Some (Type_error (sm_id m) str, close_uncomplete q0 (sm_id m)) }
      else if sm_type m = SKYNET_SOCKET_TYPE_WARNING then
        Some (Type_warning (sm_id m) (sm_ud m), q0)
      else Some (Only_queue, q0))"

definition np_dequeue :: "np_queue \<Rightarrow> netpack option \<times> np_queue" where
  "np_dequeue q =
     (if nq_head q = nq_tail q then (None, q)
      else (Some (nq_queue q ! nq_head q),
            q\<lparr>nq_head := (if nq_head q + 1 \<ge> nq_cap q then 0 else nq_head q + 1)\<rparr>))"

definition lpop :: "np_queue option \<Rightarrow> netpack option \<times> np_queue option" where
  "lpop q0 = (case q0 of None \<Rightarrow> (None, None)
     | Some q \<Rightarrow> let (r, q') = np_dequeue q in (r, Some q'))"

definition write_size :: "int \<Rightarrow> byte list" where
  "write_size len = [word_of_int ((len div 2 ^ 8) AND 0xff), word_of_int (len AND 0xff)]"

text \<open>\<open>lpack\<close>: a Lua error or the buffer to send.\<close>

definition lpack :: "byte list \<Rightarrow> string + byte list" where
  "lpack msg =
     (if length msg \<ge> 0x10000 then Inl ''Invalid size (too long) of data''
      else Inr (write_size (int (length msg)) @ msg))"

definition ltostring :: "byte list option \<Rightarrow> nat \<Rightarrow> byte list option" where
  "ltostring ptr n = (case ptr of None \<Rightarrow> Some [] | Some b \<Rightarrow> if length b < n then None else Some (take n b))"

subsection \<open>The queue is a FIFO\<close>

definition np_inv :: "np_queue \<Rightarrow> bool" where
  "np_inv q \<longleftrightarrow> nq_head q < nq_cap q \<and> nq_tail q < nq_cap q \<and> length (nq_queue q) = nq_cap q"

definition np_contents :: "np_queue \<Rightarrow> netpack list" where
  "np_contents q = ring_contents (nq_queue q) (nq_head q) (nq_tail q)"

lemma np_enqueue_ring:
  "np_inv q \<Longrightarrow> np_enqueue x q =
     (let q1 = q\<lparr>nq_queue := (nq_queue q)[nq_tail q := x], nq_tail := ring_next (nq_cap q) (nq_tail q)\<rparr>
      in if nq_head q1 = nq_tail q1 then np_expand_queue q1 else q1)"
  by (simp add: np_enqueue_def ring_next_def Let_def np_inv_def)

lemma np_enqueue_spec:
  assumes inv: "np_inv q"
  shows "np_inv (np_enqueue x q) \<and> np_contents (np_enqueue x q) = np_contents q @ [x]
    \<and> nq_hash (np_enqueue x q) = nq_hash q"
proof (cases "nq_head q = ring_next (nq_cap q) (nq_tail q)")
  case False
  then have "np_enqueue x q = q\<lparr>nq_queue := (nq_queue q)[nq_tail q := x],
      nq_tail := ring_next (nq_cap q) (nq_tail q)\<rparr>"
    by (simp add: np_enqueue_ring [OF inv])
  with False inv ring_contents_push [of "nq_head q" "nq_queue q" "nq_tail q" x] show ?thesis
    by (auto simp: np_contents_def np_inv_def ring_next_less)
next
  case True
  let ?es = "np_contents q @ [x]"
  have len: "length (nq_queue q) = nq_cap q" using inv by (simp add: np_inv_def)
  have "ring_entries ((nq_queue q)[nq_tail q := x]) (nq_head q) (length (nq_queue q)) = ?es"
    unfolding np_contents_def by (rule ring_entries_full) (use inv True in \<open>simp_all add: np_inv_def\<close>)
  then have es: "map (\<lambda>i. (nq_queue q)[nq_tail q := x] ! ((nq_head q + i) mod nq_cap q)) [0..<nq_cap q] = ?es"
    by (simp only: ring_entries_def len length_list_update)
  from arg_cong [OF this, of length] have cap: "nq_cap q = length ?es" by simp
  have "np_enqueue x q = \<lparr>nq_cap = nq_cap q + QUEUESIZE, nq_head = 0, nq_tail = nq_cap q,
      nq_hash = nq_hash q, nq_queue = ?es @ replicate QUEUESIZE blank_netpack\<rparr>"
    using True es by (simp add: np_enqueue_ring [OF inv] np_expand_queue_def)
  moreover have "ring_contents (?es @ replicate QUEUESIZE blank_netpack) 0 (length ?es) = ?es"
    by (rule ring_contents_grown) (simp add: QUEUESIZE_def)
  ultimately show ?thesis
    using cap inv by (simp add: np_inv_def np_contents_def QUEUESIZE_def)
qed

lemma np_dequeue_spec:
  assumes inv: "np_inv q"
  shows "np_inv (snd (np_dequeue q)) \<and> nq_hash (snd (np_dequeue q)) = nq_hash q
    \<and> (fst (np_dequeue q), np_contents (snd (np_dequeue q))) = list_pop (np_contents q)"
proof (cases "nq_head q = nq_tail q")
  case True
  with inv show ?thesis by (simp add: np_dequeue_def np_contents_def list_pop_def)
next
  case False
  have "np_dequeue q = (Some (nq_queue q ! nq_head q), q\<lparr>nq_head := ring_next (nq_cap q) (nq_head q)\<rparr>)"
    using False by (simp add: np_dequeue_def ring_next_def)
  moreover have "np_contents q = nq_queue q ! nq_head q
      # ring_contents (nq_queue q) (ring_next (nq_cap q) (nq_head q)) (nq_tail q)"
    using ring_contents_pop [of "nq_head q" "nq_queue q" "nq_tail q"] False inv
    by (simp add: np_contents_def np_inv_def)
  ultimately show ?thesis
    using inv by (simp add: list_pop_def np_inv_def np_contents_def ring_next_less)
qed

interpretation packets: fifo np_enqueue np_dequeue np_contents np_inv
  by unfold_locales (simp_all add: np_enqueue_spec np_dequeue_spec)

lemma new_np_queue_ok [simp]:
  "np_inv new_np_queue" "np_contents new_np_queue = []" "nq_hash new_np_queue = (\<lambda>h. [])"
  by (simp_all add: np_inv_def np_contents_def new_np_queue_def QUEUESIZE_def)

subsection \<open>The packages of a byte stream\<close>

text \<open>The specification of the format: the complete packages at the front of a stream, and
  the bytes after them.\<close>

definition pkt_size :: "byte \<Rightarrow> byte \<Rightarrow> nat" where
  "pkt_size b0 b1 = unat b0 * 256 + unat b1"

function frames :: "byte list \<Rightarrow> byte list list \<times> byte list" where
  "frames [] = ([], [])"
| "frames [b] = ([], [b])"
| "frames (b0 # b1 # bs) =
     (if length bs < pkt_size b0 b1 then ([], b0 # b1 # bs)
      else let (ps, r) = frames (drop (pkt_size b0 b1) bs)
           in (take (pkt_size b0 b1) bs # ps, r))"
  by pat_completeness auto
termination
  by (relation "measure length") auto

declare frames.simps(3) [simp del]

text \<open>A stream may be cut anywhere.\<close>

lemma frames_append:
  "frames (xs @ ys) = (let (ps, r) = frames xs; (ps', r') = frames (r @ ys) in (ps @ ps', r'))"
proof (induction xs rule: frames.induct)
  case (3 b0 b1 bs)
  let ?n = "pkt_size b0 b1"
  show ?case
  proof (cases "length bs < ?n")
    case True
    then show ?thesis by (simp add: frames.simps(3) [of b0 b1 bs])
  next
    case False
    then show ?thesis
      using "3.IH" [OF False]
      by (simp add: frames.simps(3) [of b0 b1 bs] frames.simps(3) [of b0 b1 "bs @ ys"] split: prod.splits)
  qed
qed (simp_all split: prod.splits)

lemma frames_rest: "frames (snd (frames xs)) = ([], snd (frames xs))"
  by (induction xs rule: frames.induct) (auto simp: frames.simps(3) split: prod.splits)

lemma int_or_bytes:
  fixes a b :: int
  assumes "0 \<le> b" "b < 2 ^ 8"
  shows "(a * 2 ^ 8) OR b = a * 2 ^ 8 + b" "b OR (a * 2 ^ 8) = a * 2 ^ 8 + b"
proof -
  have "b = take_bit 8 b" using assms by (simp add: take_bit_int_eq_self)
  then have "\<not> bit b n" if "8 \<le> n" for n using that by (metis bit_take_bit_iff not_less)
  moreover have push: "a * 2 ^ 8 = push_bit 8 a" by (simp add: push_bit_eq_mult)
  ultimately have "push_bit 8 a + b = push_bit 8 a OR b"
    by (intro disjunctive_add) (auto simp: bit_push_bit_iff_int)
  then show "(a * 2 ^ 8) OR b = a * 2 ^ 8 + b" "b OR (a * 2 ^ 8) = a * 2 ^ 8 + b"
    by (simp_all only: push or.commute)
qed

lemma read_size_unat: "read_size b0 b1 = int (pkt_size b0 b1)"
  using int_or_bytes(1) [of "uint b1" "uint b0"] unsigned_less [of b1, where 'a = int]
  by (simp add: read_size_def pkt_size_def)

lemma read_size_bounds: "0 \<le> read_size b0 b1" "read_size b0 b1 < 2 ^ 16"
  using unsigned_less [of b0, where 'a = int] unsigned_less [of b1, where 'a = int]
  by (simp_all add: read_size_unat pkt_size_def)

lemma write_size_unat:
  assumes "0 \<le> n" "n < 2 ^ 16"
  shows "\<exists>b0 b1. write_size n = [b0, b1] \<and> read_size b0 b1 = n"
proof -
  let ?b0 = "word_of_int ((n div 2 ^ 8) AND 0xff) :: byte" and ?b1 = "word_of_int (n AND 0xff) :: byte"
  have mask: "0xff = (mask 8 :: int)" by (simp add: mask_eq_exp_minus_1)
  have u: "uint ?b0 = n div 2 ^ 8" "uint ?b1 = n mod 2 ^ 8"
    unfolding mask take_bit_eq_mask [symmetric] using assms
    by (simp_all add: uint_word_of_int take_bit_eq_mod)
  have "read_size ?b0 ?b1 = (n div 2 ^ 8 * 2 ^ 8) OR (n mod 2 ^ 8)" by (simp only: read_size_def u)
  also have "\<dots> = n div 2 ^ 8 * 2 ^ 8 + n mod 2 ^ 8" by (rule int_or_bytes(1)) simp_all
  finally have "read_size ?b0 ?b1 = n" by simp
  then show ?thesis unfolding write_size_def by blast
qed

subsection \<open>What the table of unfinished packages holds\<close>

definition uc_ok :: "uncomplete \<Rightarrow> bool" where
  "uc_ok uc \<longleftrightarrow> uc_read uc = - 1 \<and> 0 \<le> uc_header uc \<and> uc_header uc < 2 ^ 8
     \<or> uc_read uc = int (length (np_buffer (uc_pack uc))) \<and> uc_read uc < np_size (uc_pack uc)
       \<and> np_size (uc_pack uc) < 2 ^ 16"

text \<open>The bytes of the stream that an unfinished package stands for.\<close>

definition uc_bytes :: "uncomplete \<Rightarrow> byte list" where
  "uc_bytes uc = (if uc_read uc = - 1 then [word_of_int (uc_header uc)]
     else write_size (np_size (uc_pack uc)) @ np_buffer (uc_pack uc))"

abbreviation uc_id :: "uncomplete \<Rightarrow> int" where
  "uc_id uc \<equiv> np_id (uc_pack uc)"

definition table_ok :: "np_queue \<Rightarrow> bool" where
  "table_ok q \<longleftrightarrow> (\<forall>h. distinct (map uc_id (nq_hash q h))
     \<and> (\<forall>uc \<in> set (nq_hash q h). hash_fd (uc_id uc) = h \<and> uc_ok uc))"

definition uc_table :: "np_queue \<Rightarrow> int \<rightharpoonup> uncomplete" where
  "uc_table q fd = find (\<lambda>uc. uc_id uc = fd) (nq_hash q (hash_fd fd))"

definition unread :: "np_queue \<Rightarrow> int \<Rightarrow> byte list" where
  "unread q fd = (case uc_table q fd of None \<Rightarrow> [] | Some uc \<Rightarrow> uc_bytes uc)"

definition np_ok :: "np_queue \<Rightarrow> bool" where
  "np_ok q \<longleftrightarrow> np_inv q \<and> table_ok q"

lemma new_np_queue_table [simp]: "np_ok new_np_queue" "uc_table new_np_queue fd = None" "unread new_np_queue fd = []"
  by (simp_all add: np_ok_def table_ok_def uc_table_def unread_def)

lemma find_uc_None: "find (\<lambda>uc. uc_id uc = fd) ucs = None \<longleftrightarrow> fd \<notin> uc_id ` set ucs"
  by (auto simp: find_None_iff)

lemma take_uncomplete_spec:
  "distinct (map uc_id ucs) \<Longrightarrow> take_uncomplete fd ucs
     = (find (\<lambda>uc. uc_id uc = fd) ucs, filter (\<lambda>uc. uc_id uc \<noteq> fd) ucs)"
proof (induction ucs)
  case (Cons uc ucs)
  have "filter (\<lambda>u. uc_id u \<noteq> fd) ucs = ucs" if "uc_id uc = fd"
    using Cons.prems that by (force simp: filter_id_conv image_iff)
  with Cons show ?case by (auto split: prod.splits)
qed simp

lemma find_filter_other:
  "fd' \<noteq> fd \<Longrightarrow> find (\<lambda>uc. uc_id uc = fd') (filter (\<lambda>uc. uc_id uc \<noteq> fd) ucs) = find (\<lambda>uc. uc_id uc = fd') ucs"
  by (induction ucs) auto

lemma find_filter_self: "find (\<lambda>uc. uc_id uc = fd) (filter (\<lambda>uc. uc_id uc \<noteq> fd) ucs) = None"
  by (auto simp: find_uc_None)

lemma find_uncomplete_spec:
  assumes "np_ok (get_queue q0)"
  shows "\<exists>q1. find_uncomplete q0 fd = (uc_table (get_queue q0) fd, q1) \<and> np_ok (get_queue q1)
    \<and> np_contents (get_queue q1) = np_contents (get_queue q0)
    \<and> uc_table (get_queue q1) = (uc_table (get_queue q0))(fd := None)
    \<and> (uc_table (get_queue q0) fd \<noteq> None \<longrightarrow> q1 \<noteq> None)"
proof (cases q0)
  case None
  then show ?thesis by (auto simp: find_uncomplete_def get_queue_def)
next
  case (Some q)
  let ?h = "hash_fd fd"
  let ?q1 = "q\<lparr>nq_hash := (nq_hash q)(?h := filter (\<lambda>uc. uc_id uc \<noteq> fd) (nq_hash q ?h))\<rparr>"
  have ok: "table_ok q" "np_inv q" using assms Some by (simp_all add: np_ok_def get_queue_def)
  then have take: "take_uncomplete fd (nq_hash q ?h)
      = (uc_table q fd, filter (\<lambda>uc. uc_id uc \<noteq> fd) (nq_hash q ?h))"
    by (simp add: take_uncomplete_spec table_ok_def uc_table_def)
  have "uc_table ?q1 fd' = ((uc_table q)(fd := None)) fd'" for fd'
    by (auto simp: uc_table_def find_filter_other find_filter_self)
  moreover have "np_ok ?q1"
    using ok by (auto simp: np_ok_def table_ok_def np_inv_def distinct_map_filter)
  ultimately show ?thesis
    using Some take by (simp add: find_uncomplete_def get_queue_def np_contents_def fun_eq_iff Let_def)
qed

lemma add_uncomplete_spec:
  assumes "np_ok q" "uc_ok uc" "uc_table q (uc_id uc) = None"
  shows "np_ok (add_uncomplete uc q) \<and> np_contents (add_uncomplete uc q) = np_contents q
    \<and> uc_table (add_uncomplete uc q) = (uc_table q)(uc_id uc \<mapsto> uc)"
proof -
  have "uc_id uc \<notin> uc_id ` set (nq_hash q (hash_fd (uc_id uc)))"
    using assms(3) by (simp add: uc_table_def find_uc_None)
  with assms(1,2) have "np_ok (add_uncomplete uc q)"
    by (auto simp: np_ok_def table_ok_def np_inv_def add_uncomplete_def Let_def)
  moreover have "uc_table (add_uncomplete uc q) fd = ((uc_table q)(uc_id uc \<mapsto> uc)) fd" for fd
    by (auto simp: uc_table_def add_uncomplete_def Let_def)
  ultimately show ?thesis by (auto simp: np_contents_def add_uncomplete_def Let_def fun_eq_iff)
qed

lemma unread_upd:
  "uc_table q' = (uc_table q)(fd := v) \<Longrightarrow>
     unread q' fd' = (if fd' = fd then (case v of None \<Rightarrow> [] | Some uc \<Rightarrow> uc_bytes uc) else unread q fd')"
  by (simp add: unread_def)

subsection \<open>The filter delivers the packages of the stream\<close>

definition packet :: "int \<Rightarrow> byte list \<Rightarrow> netpack" where
  "packet fd p = \<lparr>np_id = fd, np_size = int (length p), np_buffer = p\<rparr>"

text \<open>\<open>q'\<close> is \<open>q\<close> after the packages \<open>ps\<close> of socket \<open>fd\<close> were put
  into the queue and \<open>r\<close> became the unread bytes of \<open>fd\<close>.\<close>

definition received :: "int \<Rightarrow> byte list list \<Rightarrow> byte list \<Rightarrow> np_queue \<Rightarrow> np_queue \<Rightarrow> bool" where
  "received fd ps r q q' \<longleftrightarrow> np_ok q' \<and> np_contents q' = np_contents q @ map (packet fd) ps
     \<and> (\<forall>fd'. unread q' fd' = (if fd' = fd then r else unread q fd'))"

lemma get_queue_simps [simp]: "get_queue (Some q) = q" "get_queue None = new_np_queue"
  by (simp_all add: get_queue_def)

lemma received_trans:
  "received fd ps r q q1 \<Longrightarrow> received fd ps' r' q1 q2 \<Longrightarrow> received fd (ps @ ps') r' q q2"
  by (simp add: received_def)

lemma push_data_received:
  assumes "np_ok (get_queue q0)" "uc_table (get_queue q0) fd = None" "n = int (length p)"
  shows "received fd [p] [] (get_queue q0) (push_data q0 fd p n) \<and> uc_table (push_data q0 fd p n) fd = None"
  using assms np_enqueue_spec [of "get_queue q0" "packet fd p"]
  by (simp add: received_def push_data_def packet_def np_ok_def table_ok_def unread_def uc_table_def)

lemma save_received:
  assumes "np_ok (get_queue q0)" "uc_table (get_queue q0) fd = None"
    "uc_ok uc" "uc = fill \<lparr>uc_pack = \<lparr>np_id = fd, np_size = 0, np_buffer = []\<rparr>, uc_read = 0, uc_header = 0\<rparr>"
    "uc_id uc = fd" "uc_bytes uc = r"
  shows "received fd [] r (get_queue q0) (save_uncomplete q0 fd fill)"
  using assms add_uncomplete_spec [of "get_queue q0" uc] unread_upd [of _ "get_queue q0" fd "Some uc"]
  by (simp add: received_def save_uncomplete_def)

lemma base256_inj:
  assumes "a * 256 + b = c * 256 + d" "b < 256" "d < (256 :: nat)"
  shows "a = c \<and> b = d"
proof -
  have "a = (a * 256 + b) div 256" using assms(2) by simp
  also have "\<dots> = (c * 256 + d) div 256" using assms(1) by simp
  also have "\<dots> = c" using assms(3) by simp
  finally show ?thesis using assms(1) by simp
qed

lemma write_read_size: "write_size (read_size b0 b1) = [b0, b1]"
proof -
  obtain c0 c1 where c: "write_size (read_size b0 b1) = [c0, c1]" "read_size c0 c1 = read_size b0 b1"
    using write_size_unat [OF read_size_bounds] by blast
  then have "unat c0 * 256 + unat c1 = unat b0 * 256 + unat b1"
    by (simp only: read_size_unat of_nat_eq_iff pkt_size_def)
  moreover have "unat c0 < 256" "unat c1 < 256" "unat b0 < 256" "unat b1 < 256"
    using unsigned_less [of c0, where 'a = nat] unsigned_less [of c1, where 'a = nat]
      unsigned_less [of b0, where 'a = nat] unsigned_less [of b1, where 'a = nat] by simp_all
  ultimately have "unat c0 = unat b0 \<and> unat c1 = unat b1" by (intro base256_inj)
  with c(1) show ?thesis by (simp add: word_eq_iff_unat_eq)
qed

lemma save_header_received:
  assumes "np_ok (get_queue q0)" "uc_table (get_queue q0) fd = None"
  shows "received fd [] [b] (get_queue q0) (save_uncomplete q0 fd (fill_header b))"
  using assms unsigned_less [of b, where 'a = int]
  by (intro save_received [OF assms _ refl]) (auto simp: fill_header_def uc_ok_def uc_bytes_def)

lemma save_part_received:
  assumes "np_ok (get_queue q0)" "uc_table (get_queue q0) fd = None" "int (length bs) < read_size b0 b1"
  shows "received fd [] (b0 # b1 # bs) (get_queue q0)
    (save_uncomplete q0 fd (fill_part (read_size b0 b1) bs))"
  using assms read_size_bounds(2) [of b0 b1]
  by (intro save_received [OF assms(1,2) _ refl])
    (auto simp: fill_part_def uc_ok_def uc_bytes_def write_read_size)

lemma push_more_received:
  assumes "np_ok (get_queue q0)" "uc_table (get_queue q0) fd = None" "bs \<noteq> []"
  shows "\<exists>q. push_more q0 fd bs = Some q
    \<and> received fd (fst (frames bs)) (snd (frames bs)) (get_queue q0) q"
  using assms
proof (induction q0 fd bs rule: push_more.induct)
  case (2 q0 fd b)
  then show ?case using save_header_received by simp
next
  case (3 q0 fd b0 b1 bs)
  let ?n = "pkt_size b0 b1"
  have size: "read_size b0 b1 = int ?n" by (rule read_size_unat)
  show ?case
  proof (cases "length bs < ?n")
    case True
    with 3 save_part_received [of q0 fd bs b0 b1] size show ?thesis
      by (simp add: push_more.simps(3) frames.simps(3))
  next
    case False
    let ?q1 = "push_data q0 fd (take ?n bs) (int ?n)"
    have q1: "received fd [take ?n bs] [] (get_queue q0) ?q1" "uc_table ?q1 fd = None"
      using push_data_received [of q0 fd "int ?n" "take ?n bs"] "3.prems" False by auto
    show ?thesis
    proof (cases "drop ?n bs = []")
      case True
      with False q1 size show ?thesis
        by (simp add: push_more.simps(3) frames.simps(3) Let_def)
    next
      case rest: False
      have "\<not> int (length bs) < read_size b0 b1" using False size by simp
      moreover have "np_ok (get_queue (Some ?q1))" using q1 by (simp add: received_def)
      ultimately obtain q where q: "push_more (Some ?q1) fd (drop ?n bs) = Some q"
        "received fd (fst (frames (drop ?n bs))) (snd (frames (drop ?n bs))) ?q1 q"
        using "3.IH" [OF refl _ refl refl] q1 rest size by auto
      with received_trans [OF q1(1) q(2)] False rest size show ?thesis
        by (auto simp: push_more.simps(3) frames.simps(3) Let_def split: prod.splits)
    qed
  qed
qed simp

text \<open>The result of the filter on a piece that makes \<open>ps\<close> the next complete packages of
  socket \<open>fd\<close> and \<open>r\<close> its unread bytes: one package that is not followed by
  anything is returned, several of them, or one and a rest, go through the queue.\<close>

definition delivered ::
  "int \<Rightarrow> byte list list \<Rightarrow> byte list \<Rightarrow> np_queue option \<Rightarrow> filter_result \<Rightarrow> np_queue option \<Rightarrow> bool" where
  "delivered fd ps r q0 ret q1 \<longleftrightarrow>
     (case ps of [] \<Rightarrow> ret = Only_queue \<and> received fd [] r (get_queue q0) (get_queue q1)
      | p # ps' \<Rightarrow>
          if ps' = [] \<and> r = [] then ret = Type_data fd p (int (length p))
            \<and> received fd [] [] (get_queue q0) (get_queue q1)
          else ret = Type_more \<and> received fd ps r (get_queue q0) (get_queue q1))"

lemma received_from:
  "np_contents q1 = np_contents q \<Longrightarrow> uc_table q1 = (uc_table q)(fd := None) \<Longrightarrow>
     received fd ps r q1 q' = received fd ps r q q'"
  by (auto simp: received_def unread_def)

lemma more_received:
  assumes "np_ok (get_queue q0)" "uc_table (get_queue q0) fd = None" "n = int (length p)" "bs \<noteq> []"
  shows "\<exists>q. push_more (Some (push_data q0 fd p n)) fd bs = Some q
    \<and> received fd (p # fst (frames bs)) (snd (frames bs)) (get_queue q0) q"
proof -
  note q1 = push_data_received [OF assms(1-3)]
  moreover from q1 have "np_ok (push_data q0 fd p n)" by (simp add: received_def)
  ultimately obtain q where "push_more (Some (push_data q0 fd p n)) fd bs = Some q"
    "received fd (fst (frames bs)) (snd (frames bs)) (push_data q0 fd p n) q"
    using push_more_received [of "Some (push_data q0 fd p n)" fd bs] assms(4) by auto
  with q1 received_trans show ?thesis by fastforce
qed

lemma frames_pkt:
  "frames (b0 # b1 # bs) = (if length bs < pkt_size b0 b1 then ([], b0 # b1 # bs)
     else (take (pkt_size b0 b1) bs # fst (frames (drop (pkt_size b0 b1) bs)),
           snd (frames (drop (pkt_size b0 b1) bs))))"
  by (simp add: frames.simps(3) split: prod.splits)

lemma fill_data_delivered:
  assumes ok: "np_ok (get_queue q0)" "uc_table (get_queue q0) fd = None" "q0 \<noteq> None"
    and uc: "uc_id uc = fd" "uc_read uc = int (length (np_buffer (uc_pack uc)))"
      "uc_read uc \<le> np_size (uc_pack uc)" "np_size (uc_pack uc) < 2 ^ 16"
    and fr: "frames (write_size (np_size (uc_pack uc)) @ np_buffer (uc_pack uc) @ bs) = (ps, r)"
  shows "\<exists>ret q1. fill_data q0 fd uc bs = Some (ret, q1) \<and> delivered fd ps r q0 ret q1"
proof -
  let ?buf = "np_buffer (uc_pack uc)"
  obtain q where q: "q0 = Some q" using ok(3) by blast
  obtain b0 b1 where w: "write_size (np_size (uc_pack uc)) = [b0, b1]"
    and rs: "read_size b0 b1 = np_size (uc_pack uc)"
    using write_size_unat [of "np_size (uc_pack uc)"] uc by auto
  have size: "np_size (uc_pack uc) = int (pkt_size b0 b1)" using rs read_size_unat by simp
  let ?n = "pkt_size b0 b1"
  have len: "length ?buf \<le> ?n" using uc size by simp
  show ?thesis
  proof (cases "length bs < ?n - length ?buf")
    case True
    let ?uc1 = "uc\<lparr>uc_pack := (uc_pack uc)\<lparr>np_buffer := ?buf @ bs\<rparr>, uc_read := uc_read uc + int (length bs)\<rparr>"
    have need: "int (length bs) < np_size (uc_pack uc) - uc_read uc" using True size uc(2) by linarith
    have ok1: "uc_ok ?uc1" "uc_id ?uc1 = fd" "uc_bytes ?uc1 = b0 # b1 # ?buf @ bs"
      using need uc w by (auto simp: uc_ok_def uc_bytes_def)
    have r: "ps = []" "r = b0 # b1 # ?buf @ bs" using fr w True by (auto simp: frames_pkt split: if_splits)
    have "fill_data q0 fd uc bs = Some (Only_queue, Some (add_uncomplete ?uc1 q))"
      using need q ok1(2) by (simp add: fill_data_def add_uncomplete_def Let_def)
    moreover have "received fd [] r q (add_uncomplete ?uc1 q)"
      using add_uncomplete_spec [of q ?uc1] ok q ok1 r unread_upd [of _ q fd "Some ?uc1"]
      by (simp add: received_def)
    ultimately show ?thesis using r q by (simp add: delivered_def)
  next
    case False
    let ?k = "?n - length ?buf"
    have need: "np_size (uc_pack uc) - uc_read uc = int ?k" using size uc(2) len by simp
    have p: "ps = (?buf @ take ?k bs) # fst (frames (drop ?k bs))" "r = snd (frames (drop ?k bs))"
      using fr w False len by (auto simp: frames_pkt split: if_splits)
    have plen: "int ?n = int (length (?buf @ take ?k bs))" using False len by simp
    show ?thesis
    proof (cases "drop ?k bs = []")
      case True
      have "received fd [] [] q q" using ok q by (auto simp: received_def unread_def)
      then have "delivered fd [?buf @ take ?k bs] [] q0
          (Type_data fd (?buf @ take ?k bs) (int (length (?buf @ take ?k bs)))) q0"
        using q by (simp add: delivered_def)
      moreover have "fill_data q0 fd uc bs = Some (Type_data fd (?buf @ take ?k bs) (int ?n), q0)"
        unfolding fill_data_def need Let_def using False True size by simp
      moreover have "ps = [?buf @ take ?k bs]" "r = []" using p True by simp_all
      ultimately show ?thesis using plen by metis
    next
      case rest: False
      from more_received [OF ok(1,2) plen rest] obtain q2 where
        q2: "push_more (Some (push_data q0 fd (?buf @ take ?k bs) (int ?n))) fd (drop ?k bs) = Some q2"
        "received fd ps r (get_queue q0) q2" using p by auto
      have "fill_data q0 fd uc bs = Some (Type_more, Some q2)"
        unfolding fill_data_def need Let_def using False rest size q2(1) by simp
      moreover have "\<not> (fst (frames (drop ?k bs)) = [] \<and> snd (frames (drop ?k bs)) = [])"
        using rest frames_append [of "drop ?k bs" "[]"] frames_pkt
        by (cases "drop ?k bs" rule: frames.cases) auto
      ultimately show ?thesis using q2 p by (auto simp: delivered_def)
    qed
  qed
qed

lemma fill_uncomplete_delivered:
  assumes ok: "np_ok (get_queue q0)" "uc_table (get_queue q0) fd = None" "q0 \<noteq> None"
    and uc: "uc_id uc = fd" "uc_ok uc" and bs: "bs \<noteq> []"
    and fr: "frames (uc_bytes uc @ bs) = (ps, r)"
  shows "\<exists>ret q1. fill_uncomplete q0 fd uc bs = Some (ret, q1) \<and> delivered fd ps r q0 ret q1"
proof (cases "uc_read uc = - 1")
  case True
  obtain b bs' where b: "bs = b # bs'" using bs by (cases bs) auto
  let ?h = "word_of_int (uc_header uc) :: byte"
  let ?size = "uint b OR (uc_header uc * 2 ^ 8)"
  let ?uc = "uc\<lparr>uc_pack := (uc_pack uc)\<lparr>np_size := ?size, np_buffer := []\<rparr>, uc_read := 0\<rparr>"
  have "uint ?h = uc_header uc" using uc(2) True by (auto simp: uc_ok_def uint_word_of_int)
  then have size: "?size = read_size ?h b" unfolding read_size_def by (simp add: or.commute)
  have "fill_uncomplete q0 fd uc bs = fill_data q0 fd ?uc bs'"
    using True b by (simp add: fill_uncomplete_def)
  moreover have "\<exists>ret q1. fill_data q0 fd ?uc bs' = Some (ret, q1) \<and> delivered fd ps r q0 ret q1"
    by (rule fill_data_delivered [OF ok])
      (use uc fr b True size read_size_bounds [of ?h b] in \<open>simp_all add: write_read_size uc_bytes_def\<close>)
  ultimately show ?thesis by simp
next
  case False
  with uc(2) have read: "uc_read uc = int (length (np_buffer (uc_pack uc)))" "uc_read uc < np_size (uc_pack uc)"
    "np_size (uc_pack uc) < 2 ^ 16" by (simp_all add: uc_ok_def)
  then have "\<not> uc_read uc < 0" by simp
  then have "fill_uncomplete q0 fd uc bs = fill_data q0 fd uc bs" by (simp only: fill_uncomplete_def if_False)
  moreover have "\<exists>ret q1. fill_data q0 fd uc bs = Some (ret, q1) \<and> delivered fd ps r q0 ret q1"
    by (rule fill_data_delivered [OF ok]) (use uc read fr False in \<open>simp_all add: uc_bytes_def\<close>)
  ultimately show ?thesis by simp
qed

lemma filter_fresh_delivered:
  assumes ok: "np_ok (get_queue q0)" "uc_table (get_queue q0) fd = None" and bs: "bs \<noteq> []"
    and find: "find_uncomplete q0' fd = (None, q0)" and fr: "frames bs = (ps, r)"
  shows "\<exists>ret q1. filter_data q0' fd bs = Some (ret, q1) \<and> delivered fd ps r q0 ret q1"
proof (cases bs rule: frames.cases)
  case 1
  with bs show ?thesis by simp
next
  case (2 b)
  with find fr save_header_received [OF ok] show ?thesis
    by (auto simp: filter_data_def delivered_def)
next
  case (3 b0 b1 bs')
  have size: "read_size b0 b1 = int (pkt_size b0 b1)" by (rule read_size_unat)
  consider "length bs' < pkt_size b0 b1" | "length bs' = pkt_size b0 b1" | "pkt_size b0 b1 < length bs'"
    by linarith
  then show ?thesis
  proof cases
    case 1
    with 3 find fr size save_part_received [OF ok, of bs' b0 b1] show ?thesis
      by (auto simp: filter_data_def delivered_def frames_pkt)
  next
    case 2
    have "received fd [] [] (get_queue q0) (get_queue q0)" using ok by (auto simp: received_def unread_def)
    with 2 3 find fr size show ?thesis
      by (auto simp: filter_data_def delivered_def frames_pkt)
  next
    case more: 3
    let ?n = "pkt_size b0 b1"
    have rest: "drop ?n bs' \<noteq> []" using more by simp
    have "int ?n = int (length (take ?n bs'))" using more by simp
    from more_received [OF ok this rest] obtain q where
      q: "push_more (Some (push_data q0 fd (take ?n bs') (int ?n))) fd (drop ?n bs') = Some q"
      "received fd (take ?n bs' # fst (frames (drop ?n bs'))) (snd (frames (drop ?n bs'))) (get_queue q0) q"
      by blast
    have ps: "ps = take ?n bs' # fst (frames (drop ?n bs'))" "r = snd (frames (drop ?n bs'))"
      using fr 3 more by (auto simp: frames_pkt split: if_splits)
    have "\<not> (fst (frames (drop ?n bs')) = [] \<and> snd (frames (drop ?n bs')) = [])"
      using rest frames_pkt by (cases "drop ?n bs'" rule: frames.cases) auto
    then have "delivered fd ps r q0 Type_more (Some q)" using q(2) ps by (auto simp: delivered_def)
    moreover have "filter_data q0' fd bs = Some (Type_more, Some q)"
      using 3 find size more q(1) by (simp add: filter_data_def)
    ultimately show ?thesis by blast
  qed
qed

lemma filter_data_delivered:
  assumes ok: "np_ok (get_queue q0)" and bs: "bs \<noteq> []"
    and fr: "frames (unread (get_queue q0) fd @ bs) = (ps, r)"
  shows "\<exists>ret q1. filter_data q0 fd bs = Some (ret, q1) \<and> delivered fd ps r q0 ret q1"
proof -
  from find_uncomplete_spec [OF ok, of fd] obtain q1 where
    q1: "find_uncomplete q0 fd = (uc_table (get_queue q0) fd, q1)" "np_ok (get_queue q1)"
    "np_contents (get_queue q1) = np_contents (get_queue q0)"
    "uc_table (get_queue q1) = (uc_table (get_queue q0))(fd := None)"
    "uc_table (get_queue q0) fd \<noteq> None \<longrightarrow> q1 \<noteq> None" by blast
  have same: "delivered fd ps r q1 ret q' = delivered fd ps r q0 ret q'" for ret q'
    using received_from [OF q1(3,4)] by (simp add: delivered_def split: list.splits)
  have none: "uc_table (get_queue q1) fd = None" using q1(4) by simp
  show ?thesis
  proof (cases "uc_table (get_queue q0) fd")
    case None
    with filter_fresh_delivered [OF q1(2) none bs, of q0 ps r] q1(1) fr show ?thesis
      by (simp add: same unread_def)
  next
    case (Some uc)
    then have "uc \<in> set (nq_hash (get_queue q0) (hash_fd fd))" "uc_id uc = fd"
      by (auto simp: uc_table_def find_Some_iff in_set_conv_nth)
    with ok have "uc_ok uc" by (auto simp: np_ok_def table_ok_def)
    have "filter_data q0 fd bs = fill_uncomplete q1 fd uc bs" using q1(1) Some by (simp add: filter_data_def)
    with fill_uncomplete_delivered [OF q1(2) none _ \<open>uc_id uc = fd\<close> \<open>uc_ok uc\<close> bs, of ps r] q1(5) Some fr
    show ?thesis by (simp add: same unread_def)
  qed
qed

subsection \<open>Properties of the filter\<close>

text \<open>C15. What the filter does with a piece of data: if the unread bytes of the socket,
  followed by the piece, contain the complete packages \<open>ps\<close> and then \<open>r\<close>, the
  filter never reads out of bounds, returns the package when it is the only one and nothing
  follows it, appends several packages (or one that is followed by more) to the queue in
  order, keeps \<open>r\<close> for later, and leaves every other socket alone.\<close>

theorem netpack_filter_exact:
  assumes "np_ok (get_queue q0)" "bs \<noteq> []" "frames (unread (get_queue q0) fd @ bs) = (ps, r)"
  shows "\<exists>ret q1. filter_data q0 fd bs = Some (ret, q1) \<and> delivered fd ps r q0 ret q1"
  by (rule filter_data_delivered [OF assms])

theorem netpack_filter_exact_witness:
  "\<exists>ret q1. filter_data None 3 [0, 2, 7, 9] = Some (ret, q1) \<and> delivered 3 [[7, 9]] [] None ret q1"
  by (rule netpack_filter_exact) (simp_all add: get_queue_def frames_pkt pkt_size_def)

text \<open>A run of the filter over the data of many sockets, with the log of the packages it
  hands over: those it returns and those it puts into the queue.\<close>

definition logged :: "filter_result \<Rightarrow> np_queue option \<Rightarrow> np_queue option \<Rightarrow> (int \<times> byte list) list" where
  "logged ret q0 q1 = (case ret of Type_data fd p n \<Rightarrow> [(fd, p)]
     | _ \<Rightarrow> map (\<lambda>np. (np_id np, np_buffer np))
           (drop (length (np_contents (get_queue q0))) (np_contents (get_queue q1))))"

primrec run_filter ::
  "(int \<times> byte list) list \<Rightarrow> np_queue option \<Rightarrow> ((int \<times> byte list) list \<times> np_queue option) option" where
  "run_filter [] q0 = Some ([], q0)"
| "run_filter (e # es) q0 = do {
     (ret, q1) \<leftarrow> filter_data q0 (fst e) (snd e);
     (log, q2) \<leftarrow> run_filter es q1;
     Some (logged ret q0 q1 @ log, q2) }"

definition stream_of :: "int \<Rightarrow> (int \<times> byte list) list \<Rightarrow> byte list" where
  "stream_of fd es = concat (map snd (filter (\<lambda>e. fst e = fd) es))"

definition packages_of :: "int \<Rightarrow> (int \<times> byte list) list \<Rightarrow> byte list list" where
  "packages_of fd log = map snd (filter (\<lambda>e. fst e = fd) log)"

lemma delivered_logged:
  assumes "delivered fd ps r q0 ret q1"
  shows "logged ret q0 q1 = map (Pair fd) ps" "np_ok (get_queue q1)"
    "unread (get_queue q1) fd' = (if fd' = fd then r else unread (get_queue q0) fd')"
  using assms
  by (auto simp: delivered_def received_def logged_def packet_def split: list.splits if_splits)

lemma unread_frames:
  assumes "np_ok q"
  shows "frames (unread q fd) = ([], unread q fd)"
proof (cases "uc_table q fd")
  case None
  then show ?thesis by (simp add: unread_def)
next
  case (Some uc)
  then have "uc \<in> set (nq_hash q (hash_fd fd))" by (auto simp: uc_table_def find_Some_iff in_set_conv_nth)
  with assms have ok: "uc_ok uc" by (auto simp: np_ok_def table_ok_def)
  show ?thesis
  proof (cases "uc_read uc = - 1")
    case True
    with Some show ?thesis by (simp add: unread_def uc_bytes_def)
  next
    case False
    with ok have r: "int (length (np_buffer (uc_pack uc))) < np_size (uc_pack uc)" "np_size (uc_pack uc) < 2 ^ 16"
      by (simp_all add: uc_ok_def)
    then obtain b0 b1 where w: "write_size (np_size (uc_pack uc)) = [b0, b1]"
      "read_size b0 b1 = np_size (uc_pack uc)"
      using write_size_unat [of "np_size (uc_pack uc)"] by auto
    with r(1) have "length (np_buffer (uc_pack uc)) < pkt_size b0 b1" by (simp add: read_size_unat)
    with w(1) False Some show ?thesis by (simp add: unread_def uc_bytes_def frames_pkt)
  qed
qed

lemma run_filter_streams:
  "np_ok (get_queue q0) \<Longrightarrow> \<forall>e \<in> set es. snd e \<noteq> [] \<Longrightarrow>
     \<exists>log q1. run_filter es q0 = Some (log, q1) \<and> np_ok (get_queue q1)
       \<and> (\<forall>fd. frames (unread (get_queue q0) fd @ stream_of fd es)
             = (packages_of fd log, unread (get_queue q1) fd))"
proof (induction es arbitrary: q0)
  case Nil
  then show ?case by (simp add: stream_of_def packages_of_def unread_frames)
next
  case (Cons e es)
  obtain fd bs where e: "e = (fd, bs)" by (cases e)
  obtain ps r where fr: "frames (unread (get_queue q0) fd @ bs) = (ps, r)"
    by (cases "frames (unread (get_queue q0) fd @ bs)")
  from filter_data_delivered [OF Cons.prems(1) _ fr] Cons.prems(2) e obtain ret q1 where
    q1: "filter_data q0 fd bs = Some (ret, q1)" "delivered fd ps r q0 ret q1" by auto
  note d = delivered_logged [OF q1(2)]
  from Cons.IH [OF d(2)] Cons.prems(2) obtain log q2 where
    IH: "run_filter es q1 = Some (log, q2)" "np_ok (get_queue q2)"
    "\<And>f. frames (unread (get_queue q1) f @ stream_of f es) = (packages_of f log, unread (get_queue q2) f)"
    by auto
  have "frames (unread (get_queue q0) f @ stream_of f (e # es))
      = (packages_of f (map (Pair fd) ps @ log), unread (get_queue q2) f)" for f
  proof (cases "f = fd")
    case False
    with e IH(3) [of f] d(3) [of f] show ?thesis by (auto simp: packages_of_def stream_of_def filter_map comp_def)
  next
    case True
    have "packages_of fd (map (Pair fd) ps @ log) = ps @ packages_of fd log"
      "stream_of fd (e # es) = bs @ stream_of fd es"
      using e by (auto simp: packages_of_def stream_of_def filter_map comp_def)
    with True IH(3) [of fd] d(3) [of fd] fr
      frames_append [of "unread (get_queue q0) fd @ bs" "stream_of fd es"]
    show ?thesis by simp
  qed
  moreover have "run_filter (e # es) q0 = Some (map (Pair fd) ps @ log, q2)" using e q1(1) IH(1) d(1) by simp
  ultimately show ?case using IH(2) by blast
qed

text \<open>C13. However the data of any number of sockets is cut into pieces and interleaved, the
  filter hands over, for each socket, exactly the packages of that socket's byte stream, in
  order, and keeps exactly the incomplete rest.\<close>

theorem netpack_streams:
  assumes "\<forall>e \<in> set es. snd e \<noteq> []"
  shows "\<exists>log q. run_filter es None = Some (log, q)
    \<and> (\<forall>fd. frames (stream_of fd es) = (packages_of fd log, unread (get_queue q) fd))"
  using run_filter_streams [of None es] assms by auto

theorem netpack_streams_witness:
  "\<exists>log q. run_filter [(3, [0]), (4, [0, 1, 5]), (3, [2, 7]), (3, [9, 0])] None = Some (log, q)
     \<and> packages_of 3 log = [[7, 9]] \<and> unread (get_queue q) 3 = [0]"
proof -
  let ?es = "[(3, [0]), (4, [0, 1, 5]), (3, [2, 7]), (3, [9, 0])] :: (int \<times> byte list) list"
  obtain log q where run: "run_filter ?es None = Some (log, q)"
    and fr: "\<forall>fd. frames (stream_of fd ?es) = (packages_of fd log, unread (get_queue q) fd)"
    using netpack_streams [of ?es] by auto
  have "stream_of 3 ?es = [0, 2, 7, 9, 0]" by (simp add: stream_of_def)
  moreover have "frames [0, 2, 7, 9, 0] = ([[7, 9]], [0])" by (simp add: frames_pkt pkt_size_def)
  ultimately show ?thesis using run fr [rule_format, of 3] by auto
qed

lemma frames_lpack:
  assumes "length m < 0x10000"
  shows "\<exists>b. lpack m = Inr b \<and> b \<noteq> [] \<and> frames (b @ bs) = (m # fst (frames bs), snd (frames bs))"
proof -
  obtain b0 b1 where w: "write_size (int (length m)) = [b0, b1]" "read_size b0 b1 = int (length m)"
    using write_size_unat [of "int (length m)"] assms by auto
  then have "pkt_size b0 b1 = length m" by (simp add: read_size_unat)
  with w(1) assms show ?thesis by (simp add: lpack_def frames_pkt)
qed

lemma frames_lpack_all:
  assumes "\<forall>m \<in> set ms. length m < 0x10000"
  shows "frames (concat (map (\<lambda>m. projr (lpack m)) ms)) = (ms, [])"
  using assms
proof (induction ms)
  case (Cons m ms)
  then obtain b where "lpack m = Inr b"
    "frames (b @ concat (map (\<lambda>m. projr (lpack m)) ms)) = (m # ms, [])"
    using frames_lpack [of m "concat (map (\<lambda>m. projr (lpack m)) ms)"] by auto
  then show ?case by simp
qed simp

text \<open>C14. Sending and receiving is a round trip: messages below 64 KB, packed one after the
  other and received on a socket in whatever nonempty pieces, come out of the filter exactly
  as they were sent, whatever else arrives on other sockets. A longer message is refused.\<close>

theorem netpack_roundtrip:
  assumes "\<forall>m \<in> set ms. length m < 0x10000" "\<forall>e \<in> set es. snd e \<noteq> []"
    "stream_of fd es = concat (map (\<lambda>m. projr (lpack m)) ms)"
  shows "\<exists>log q. run_filter es None = Some (log, q) \<and> packages_of fd log = ms \<and> unread (get_queue q) fd = []"
proof -
  obtain log q where "run_filter es None = Some (log, q)"
    "\<forall>fd. frames (stream_of fd es) = (packages_of fd log, unread (get_queue q) fd)"
    using run_filter_streams [of None es] assms(2) by auto
  with assms(3) frames_lpack_all [OF assms(1)] show ?thesis by (metis prod.inject)
qed

theorem netpack_roundtrip_witness:
  "\<exists>log q. run_filter [(8, [0, 1]), (8, [65, 0]), (8, [0])] None = Some (log, q)
     \<and> packages_of 8 log = [[65], []] \<and> unread (get_queue q) 8 = []"
  by (rule netpack_roundtrip) (simp_all add: stream_of_def lpack_def write_size_def)

lemma clear_list_map: "clear_list ucs = map (\<lambda>uc. np_buffer (uc_pack uc)) ucs"
  by (induction ucs) simp_all

text \<open>C16. Clearing a queue frees every buffer it owns exactly once: those of the unfinished
  packages of all sockets, chain by chain, and those of the packages that wait in the
  circular array, also when they wrap around its end. What is left is an empty queue.\<close>

theorem netpack_clear_frees_all:
  assumes "np_ok q"
  shows "\<exists>q'. lclear (Some q) = (concat (map (\<lambda>h. map (\<lambda>uc. np_buffer (uc_pack uc)) (nq_hash q h)) [0..<HASHSIZE])
        @ map np_buffer (np_contents q), Some q')
    \<and> np_ok q' \<and> np_contents q' = [] \<and> (\<forall>fd. unread q' fd = [])"
proof -
  have inv: "nq_head q < nq_cap q" "nq_tail q < nq_cap q" "length (nq_queue q) = nq_cap q"
    using assms by (simp_all add: np_ok_def np_inv_def)
  let ?t = "if nq_head q > nq_tail q then nq_tail q + nq_cap q else nq_tail q"
  have "[nq_head q..<?t] = map (\<lambda>i. nq_head q + i) [0..<ring_len (nq_cap q) (nq_head q) (nq_tail q)]"
    using inv by (auto simp: ring_len_def map_add_upt add.commute)
  then have arr: "map (\<lambda>i. np_buffer (nq_queue q ! (i mod nq_cap q))) [nq_head q..<?t] = map np_buffer (np_contents q)"
    unfolding np_contents_def ring_contents_def ring_entries_def by (simp add: inv comp_def)
  let ?q' = "q\<lparr>nq_hash := (\<lambda>i. if i < HASHSIZE then [] else nq_hash q i), nq_head := 0, nq_tail := 0\<rparr>"
  have "hash_fd fd < HASHSIZE" for fd by (simp add: hash_fd_def HASHSIZE_def)
  then have "uc_table ?q' fd = None" for fd by (simp add: uc_table_def)
  then have "unread ?q' fd = []" for fd by (simp add: unread_def)
  moreover have "np_ok ?q'" using assms inv by (auto simp: np_ok_def np_inv_def table_ok_def)
  moreover have "np_contents ?q' = []" by (simp add: np_contents_def)
  moreover have "lclear (Some q) = (concat (map (\<lambda>h. clear_list (nq_hash q h)) [0..<HASHSIZE])
      @ map np_buffer (np_contents q), Some ?q')"
    unfolding arr [symmetric] by (simp add: lclear_def Let_def)
  ultimately show ?thesis by (auto simp: clear_list_map)
qed

theorem netpack_clear_frees_all_witness:
  "\<exists>q'. snd (lclear (Some new_np_queue)) = Some q' \<and> np_contents q' = []"
  using netpack_clear_frees_all [OF new_np_queue_table(1)] by auto

end
