(* ===== verification/Seri.thy ===== *)
theory Seri
  imports Prelude
begin

section \<open>Serialisation of Lua values (\<open>lua-seri.c\<close>)\<close>

text \<open>
  Messages between Lua services are sequences of Lua values packed into bytes. The packer
  writes into a chain of blocks of 128 bytes, the first of them on the C stack, and copies
  the chain into one buffer at the end; the unpacker reads that buffer.

  A Lua value is a datatype: a real is the bit pattern of its double, a table is what the
  packer sees of it through the Lua API (the length that \<open>lua_rawlen\<close> reports, and the
  entries in the order in which \<open>lua_next\<close> visits them), and a table with a
  \<open>__pairs\<close> metamethod is the sequence of pairs that the metamethod yields. Memory and
  stack exhaustion inside Lua are not modelled. A Lua error is a value \<open>Inl\<close>; the
  error \<open>Undefined\<close> stands for a read outside the buffer. This theory holds the code
  and the facts on the packer; what comes back is in \<open>Seri_Trip\<close>.
\<close>

subsection \<open>Values, errors and type tags\<close>

datatype lua_value =
    LNil
  | LBoolean bool
  | LInteger int
  | LReal u64
  | LString "byte list"
  | LPointer u64
  | LTable nat "(lua_value \<times> lua_value) list"
  | LMeta "(lua_value \<times> lua_value) list"
  | LOther string

datatype seri_error =
    Too_deep
  | Unsupported string
  | Invalid_stream
  | Null_pointer
  | Bad_key
  | Block_too_big
  | Undefined
  | Out_of_fuel

type_synonym 'a lua_result = "seri_error + 'a"

definition and_then :: "'a lua_result \<Rightarrow> ('a \<Rightarrow> 'b lua_result) \<Rightarrow> 'b lua_result" where
  "and_then r f = (case r of Inl e \<Rightarrow> Inl e | Inr x \<Rightarrow> f x)"

lemma and_then_simps [simp]: "and_then (Inl e) f = Inl e" "and_then (Inr x) f = f x"
  by (simp_all add: and_then_def)

lemma and_then_Inr_iff: "and_then r f = Inr y \<longleftrightarrow> (\<exists>x. r = Inr x \<and> f x = Inr y)"
  by (cases r) simp_all

lemma and_then_Inl_iff: "and_then r f = Inl e \<longleftrightarrow> r = Inl e \<or> (\<exists>x. r = Inr x \<and> f x = Inl e)"
  by (cases r) simp_all

definition TYPE_NIL :: int where "TYPE_NIL = 0"
definition TYPE_BOOLEAN :: int where "TYPE_BOOLEAN = 1"
definition TYPE_NUMBER :: int where "TYPE_NUMBER = 2"
definition TYPE_NUMBER_ZERO :: int where "TYPE_NUMBER_ZERO = 0"
definition TYPE_NUMBER_BYTE :: int where "TYPE_NUMBER_BYTE = 1"
definition TYPE_NUMBER_WORD :: int where "TYPE_NUMBER_WORD = 2"
definition TYPE_NUMBER_DWORD :: int where "TYPE_NUMBER_DWORD = 4"
definition TYPE_NUMBER_QWORD :: int where "TYPE_NUMBER_QWORD = 6"
definition TYPE_NUMBER_REAL :: int where "TYPE_NUMBER_REAL = 8"
definition TYPE_USERDATA :: int where "TYPE_USERDATA = 3"
definition TYPE_SHORT_STRING :: int where "TYPE_SHORT_STRING = 4"
definition TYPE_LONG_STRING :: int where "TYPE_LONG_STRING = 5"
definition TYPE_TABLE :: int where "TYPE_TABLE = 6"
definition MAX_COOKIE :: int where "MAX_COOKIE = 32"
definition BLOCK_SIZE :: nat where "BLOCK_SIZE = 128"
definition MAX_DEPTH :: nat where "MAX_DEPTH = 32"

definition COMBINE_TYPE :: "int \<Rightarrow> int \<Rightarrow> byte" where
  "COMBINE_TYPE t v = word_of_int (t OR v * 2 ^ 3)"

lemmas seri_types = TYPE_NIL_def TYPE_BOOLEAN_def TYPE_NUMBER_def TYPE_NUMBER_ZERO_def TYPE_NUMBER_BYTE_def
  TYPE_NUMBER_WORD_def TYPE_NUMBER_DWORD_def TYPE_NUMBER_QWORD_def TYPE_NUMBER_REAL_def TYPE_USERDATA_def
  TYPE_SHORT_STRING_def TYPE_LONG_STRING_def TYPE_TABLE_def MAX_COOKIE_def

subsection \<open>The chain of blocks\<close>

text \<open>A block is the list of the bytes written to it; the last block of the chain is the
  current one. The total length is an \<open>int\<close> and wraps around.\<close>

definition i32 :: "int \<Rightarrow> int" where
  "i32 n = signed_take_bit 31 n"

record write_block =
  wb_chain :: "byte list list"
  wb_len :: int
  wb_ptr :: nat

definition wb_alloc :: "write_block \<Rightarrow> write_block" where
  "wb_alloc b = b\<lparr>wb_chain := wb_chain b @ [[]], wb_ptr := 0\<rparr>"

definition wb_copy :: "byte list \<Rightarrow> write_block \<Rightarrow> write_block" where
  "wb_copy buffer b = b\<lparr>wb_chain := butlast (wb_chain b) @ [last (wb_chain b) @ buffer],
     wb_len := i32 (wb_len b + int (length buffer)), wb_ptr := wb_ptr b + length buffer\<rparr>"

function wb_write :: "byte list \<Rightarrow> write_block \<Rightarrow> write_block" where
  "wb_write buffer b =
     (if wb_ptr b + length buffer \<le> BLOCK_SIZE then wb_copy buffer b
      else let copy = BLOCK_SIZE - wb_ptr b
           in wb_write (drop copy buffer) (wb_alloc (wb_copy (take copy buffer) b)))"
  by pat_completeness auto
termination
  by (relation "measure (\<lambda>(buffer, b). 2 * length buffer + (if wb_ptr b = 0 then 0 else 1))")
    (auto simp: wb_alloc_def BLOCK_SIZE_def)

declare wb_write.simps [simp del]

definition wb_push :: "byte list \<Rightarrow> write_block \<Rightarrow> write_block" where
  "wb_push buffer b = wb_write buffer (if wb_ptr b = BLOCK_SIZE then wb_alloc b else b)"

definition wb_init :: write_block where
  "wb_init = \<lparr>wb_chain = [[]], wb_len = 0, wb_ptr = 0\<rparr>"

text \<open>The copy of the first \<open>len\<close> bytes of the chain. A negative length makes the allocation of
  the buffer fail, and reading behind the last block is outside the chain: both stop the
  process.\<close>

function copy_blocks :: "byte list list \<Rightarrow> int \<Rightarrow> byte list option" where
  "copy_blocks blocks len =
     (if len > 0 then
        (case blocks of [] \<Rightarrow> None
         | b # bs \<Rightarrow>
             if len \<ge> int BLOCK_SIZE then
               (case copy_blocks bs (len - int BLOCK_SIZE) of None \<Rightarrow> None
                | Some r \<Rightarrow> if length b < BLOCK_SIZE then None else Some (take BLOCK_SIZE b @ r))
             else if int (length b) < len then None else Some (take (nat len) b))
      else Some [])"
  by pat_completeness auto
termination by (relation "measure (\<lambda>(blocks, len). length blocks)") auto

definition seri :: "byte list list \<Rightarrow> int \<Rightarrow> byte list option" where
  "seri blocks len = (if len < 0 then None else copy_blocks blocks len)"

declare copy_blocks.simps [simp del]

text \<open>The bytes written so far, and the invariant of a chain: every block but the last is
  full.\<close>

definition wb_bytes :: "write_block \<Rightarrow> byte list" where
  "wb_bytes b = concat (wb_chain b)"

definition wb_ok :: "write_block \<Rightarrow> bool" where
  "wb_ok b \<longleftrightarrow> wb_chain b \<noteq> [] \<and> (\<forall>blk \<in> set (butlast (wb_chain b)). length blk = BLOCK_SIZE)
     \<and> length (last (wb_chain b)) = wb_ptr b \<and> wb_ptr b \<le> BLOCK_SIZE \<and> wb_len b = i32 (int (length (wb_bytes b)))"

lemma i32_add: "i32 (i32 a + b) = i32 (a + b)"
proof -
  have "i32 (i32 a + b) = signed_take_bit 31 (signed_take_bit 31 (signed_take_bit 31 a) + signed_take_bit 31 b)"
    unfolding i32_def by (rule signed_take_bit_add [symmetric])
  also have "\<dots> = i32 (a + b)" by (simp add: i32_def signed_take_bit_add)
  finally show ?thesis .
qed

lemma i32_small [simp]: "- (2 ^ 31) \<le> a \<Longrightarrow> a < 2 ^ 31 \<Longrightarrow> i32 a = a"
  by (simp add: i32_def signed_take_bit_int_eq_self)

lemma wb_init_ok [simp]: "wb_ok wb_init" "wb_bytes wb_init = []"
  by (simp_all add: wb_ok_def wb_bytes_def wb_init_def)

lemma wb_copy_ok:
  assumes "wb_ok b" "wb_ptr b + length bs \<le> BLOCK_SIZE"
  shows "wb_ok (wb_copy bs b)" "wb_bytes (wb_copy bs b) = wb_bytes b @ bs" "wb_ptr (wb_copy bs b) = wb_ptr b + length bs"
proof -
  obtain ini lst where ch: "wb_chain b = ini @ [lst]" using assms(1) by (metis append_butlast_last_id wb_ok_def)
  with assms show "wb_ok (wb_copy bs b)" "wb_bytes (wb_copy bs b) = wb_bytes b @ bs"
    "wb_ptr (wb_copy bs b) = wb_ptr b + length bs"
    by (auto simp: wb_ok_def wb_copy_def wb_bytes_def i32_add add.assoc)
qed

lemma wb_alloc_ok:
  assumes "wb_ok b" "wb_ptr b = BLOCK_SIZE"
  shows "wb_ok (wb_alloc b)" "wb_bytes (wb_alloc b) = wb_bytes b" "wb_ptr (wb_alloc b) = 0"
proof -
  obtain ini lst where ch: "wb_chain b = ini @ [lst]" using assms(1) by (metis append_butlast_last_id wb_ok_def)
  with assms show "wb_ok (wb_alloc b)" "wb_bytes (wb_alloc b) = wb_bytes b" "wb_ptr (wb_alloc b) = 0"
    by (auto simp: wb_ok_def wb_alloc_def wb_bytes_def butlast_append)
qed

lemma wb_write_ok: "wb_ok b \<Longrightarrow> wb_ok (wb_write bs b) \<and> wb_bytes (wb_write bs b) = wb_bytes b @ bs"
proof (induction bs b rule: wb_write.induct)
  case (1 bs b)
  show ?case
  proof (cases "wb_ptr b + length bs \<le> BLOCK_SIZE")
    case True
    with wb_copy_ok [OF 1(2) True] show ?thesis by (simp add: wb_write.simps)
  next
    case False
    let ?k = "BLOCK_SIZE - wb_ptr b"
    have ptr: "wb_ptr b \<le> BLOCK_SIZE" using 1(2) by (simp add: wb_ok_def)
    with False have k: "wb_ptr b + length (take ?k bs) = BLOCK_SIZE" by simp
    note c = wb_copy_ok [OF 1(2), of "take ?k bs"] k
    then have "wb_ok (wb_alloc (wb_copy (take ?k bs) b))"
      "wb_bytes (wb_alloc (wb_copy (take ?k bs) b)) = wb_bytes b @ take ?k bs"
      using wb_alloc_ok [of "wb_copy (take ?k bs) b"] by simp_all
    with 1(1) [OF False refl] False show ?thesis by (simp add: wb_write.simps [of bs b] Let_def)
  qed
qed

lemma wb_push_ok [simp]:
  assumes "wb_ok b"
  shows "wb_ok (wb_push bs b)" "wb_bytes (wb_push bs b) = wb_bytes b @ bs"
  using assms wb_write_ok [of b bs] wb_write_ok [of "wb_alloc b" bs] wb_alloc_ok [of b]
  by (simp_all add: wb_push_def)

lemma copy_chain:
  "\<forall>blk \<in> set ini. length blk = BLOCK_SIZE \<Longrightarrow> length lst \<le> BLOCK_SIZE \<Longrightarrow>
     len = int (length (concat (ini @ [lst]))) \<Longrightarrow> copy_blocks (ini @ [lst]) len = Some (concat (ini @ [lst]))"
proof (induction ini arbitrary: len)
  case Nil
  then show ?case
    by (cases "length lst = BLOCK_SIZE") (auto simp: copy_blocks.simps [of "[lst]"] copy_blocks.simps [of "[]"])
next
  case (Cons blk ini)
  then have "copy_blocks (ini @ [lst]) (len - int BLOCK_SIZE) = Some (concat (ini @ [lst]))" by simp
  with Cons.prems show ?case by (simp add: copy_blocks.simps [of "blk # ini @ [lst]"] BLOCK_SIZE_def)
qed

lemma seri_wb:
  assumes "wb_ok b" and "length (wb_bytes b) < 2 ^ 31"
  shows "seri (wb_chain b) (wb_len b) = Some (wb_bytes b)"
proof -
  have "wb_len b = int (length (wb_bytes b))" using assms by (simp add: wb_ok_def)
  with assms(1) copy_chain [of "butlast (wb_chain b)" "last (wb_chain b)" "wb_len b"] show ?thesis
    by (simp add: seri_def wb_ok_def wb_bytes_def)
qed

subsection \<open>Packing\<close>

definition wb_nil :: "write_block \<Rightarrow> write_block" where
  "wb_nil wb = wb_push [word_of_int TYPE_NIL] wb"

definition wb_boolean :: "bool \<Rightarrow> write_block \<Rightarrow> write_block" where
  "wb_boolean b wb = wb_push [COMBINE_TYPE TYPE_BOOLEAN (if b then 1 else 0)] wb"

definition wb_integer :: "int \<Rightarrow> write_block \<Rightarrow> write_block" where
  "wb_integer v wb =
     (if v = 0 then wb_push [COMBINE_TYPE TYPE_NUMBER TYPE_NUMBER_ZERO] wb
      else if v \<noteq> signed_take_bit 31 v then
        wb_push (le_bytes 8 v) (wb_push [COMBINE_TYPE TYPE_NUMBER TYPE_NUMBER_QWORD] wb)
      else if v < 0 then
        wb_push (le_bytes 4 v) (wb_push [COMBINE_TYPE TYPE_NUMBER TYPE_NUMBER_DWORD] wb)
      else if v < 0x100 then
        wb_push (le_bytes 1 v) (wb_push [COMBINE_TYPE TYPE_NUMBER TYPE_NUMBER_BYTE] wb)
      else if v < 0x10000 then
        wb_push (le_bytes 2 v) (wb_push [COMBINE_TYPE TYPE_NUMBER TYPE_NUMBER_WORD] wb)
      else
        wb_push (le_bytes 4 v) (wb_push [COMBINE_TYPE TYPE_NUMBER TYPE_NUMBER_DWORD] wb))"

definition wb_real :: "u64 \<Rightarrow> write_block \<Rightarrow> write_block" where
  "wb_real v wb = wb_push (le_bytes 8 (uint v)) (wb_push [COMBINE_TYPE TYPE_NUMBER TYPE_NUMBER_REAL] wb)"

definition wb_pointer :: "u64 \<Rightarrow> write_block \<Rightarrow> write_block" where
  "wb_pointer v wb = wb_push (le_bytes 8 (uint v)) (wb_push [word_of_int TYPE_USERDATA] wb)"

text \<open>The size of a Lua string is a \<open>size_t\<close>, converted to an \<open>int\<close> for \<open>wb_string\<close>.\<close>

definition wb_string :: "byte list \<Rightarrow> write_block \<Rightarrow> write_block" where
  "wb_string str wb =
     (let len = i32 (int (length str))
      in if len < MAX_COOKIE then
           let wb1 = wb_push [COMBINE_TYPE TYPE_SHORT_STRING len] wb
           in if len > 0 then wb_push (take (nat len) str) wb1 else wb1
         else if len < 0x10000 then
           wb_push (take (nat len) str) (wb_push (le_bytes 2 len) (wb_push [COMBINE_TYPE TYPE_LONG_STRING 2] wb))
         else
           wb_push (take (nat len) str) (wb_push (le_bytes 4 len) (wb_push [COMBINE_TYPE TYPE_LONG_STRING 4] wb)))"

definition lua_rawgeti :: "(lua_value \<times> lua_value) list \<Rightarrow> int \<Rightarrow> lua_value" where
  "lua_rawgeti es i = (case map_of es (LInteger i) of None \<Rightarrow> LNil | Some v \<Rightarrow> v)"

text \<open>The head of a table, the values of its array part in order, and the keys and values of
  the entries that \<open>wb_table_hash\<close> does not skip. The length that \<open>lua_rawlen\<close> reports is
  converted to an \<open>int\<close>; a negative one makes both loops treat the array part as empty.\<close>

definition wb_table_head :: "int \<Rightarrow> write_block \<Rightarrow> write_block" where
  "wb_table_head array_size wb =
     (if array_size \<ge> MAX_COOKIE - 1 then
        wb_integer array_size (wb_push [COMBINE_TYPE TYPE_TABLE (MAX_COOKIE - 1)] wb)
      else wb_push [COMBINE_TYPE TYPE_TABLE array_size] wb)"

definition array_values :: "nat \<Rightarrow> (lua_value \<times> lua_value) list \<Rightarrow> lua_value list" where
  "array_values n es = map (\<lambda>i. lua_rawgeti es (int i)) [1..<n + 1]"

fun in_array :: "nat \<Rightarrow> lua_value \<Rightarrow> bool" where
  "in_array n (LInteger x) \<longleftrightarrow> 0 < x \<and> x \<le> int n"
| "in_array n k \<longleftrightarrow> False"

definition hash_pairs :: "nat \<Rightarrow> (lua_value \<times> lua_value) list \<Rightarrow> (lua_value \<times> lua_value) list" where
  "hash_pairs n es = filter (\<lambda>e. \<not> in_array n (fst e)) es"

definition meta_pairs :: "(lua_value \<times> lua_value) list \<Rightarrow> (lua_value \<times> lua_value) list" where
  "meta_pairs ps = takeWhile (\<lambda>e. fst e \<noteq> LNil) ps"

definition flat_pairs :: "('a \<times> 'a) list \<Rightarrow> 'a list" where
  "flat_pairs ps = concat (map (\<lambda>e. [fst e, snd e]) ps)"

text \<open>The nesting depth bounds the recursion.\<close>

primrec height :: "lua_value \<Rightarrow> nat" where
  "height LNil = 0"
| "height (LBoolean b) = 0"
| "height (LInteger i) = 0"
| "height (LReal r) = 0"
| "height (LString s) = 0"
| "height (LPointer p) = 0"
| "height (LTable n es) = Suc (Max (insert 0 (set (map (\<lambda>e. max (fst e) (snd e)) (map (map_prod height height) es)))))"
| "height (LMeta ps) = Suc (Max (insert 0 (set (map (\<lambda>e. max (fst e) (snd e)) (map (map_prod height height) ps)))))"
| "height (LOther s) = 0"

lemma Max_height_pair:
  "(k, v) \<in> set es \<Longrightarrow>
     height k \<le> Max (insert 0 (set (map (\<lambda>e. max (fst e) (snd e)) (map (map_prod height height) es))))
   \<and> height v \<le> Max (insert 0 (set (map (\<lambda>e. max (fst e) (snd e)) (map (map_prod height height) es))))"
proof -
  assume "(k, v) \<in> set es"
  then have "max (height k) (height v) \<in> set (map (\<lambda>e. max (fst e) (snd e)) (map (map_prod height height) es))"
    by force
  then have "max (height k) (height v)
      \<le> Max (insert 0 (set (map (\<lambda>e. max (fst e) (snd e)) (map (map_prod height height) es))))"
    by (intro Max_ge) auto
  then show ?thesis by simp
qed

lemma height_pair:
  "(k, v) \<in> set es \<Longrightarrow> height k < height (LTable n es) \<and> height v < height (LTable n es)"
  "(k, v) \<in> set es \<Longrightarrow> height k < height (LMeta es) \<and> height v < height (LMeta es)"
  using Max_height_pair [of k v es] by (simp_all only: height.simps less_Suc_eq_le)

definition max_height :: "lua_value list \<Rightarrow> nat" where
  "max_height vs = Max (insert 0 (height ` set vs))"

lemma max_height_lessI: "0 < h \<Longrightarrow> (\<And>v. v \<in> set vs \<Longrightarrow> height v < h) \<Longrightarrow> max_height vs < h"
  by (auto simp: max_height_def)

lemma max_height_Cons: "height v \<le> max_height (v # vs)" "max_height vs \<le> max_height (v # vs)"
  by (auto simp: max_height_def intro!: Max_mono)

lemma max_height_table:
  "max_height (array_values n es @ flat_pairs (hash_pairs n es)) < height (LTable m es)"
proof -
  have "height x < height (LTable m es)" if "x \<in> set (array_values n es @ flat_pairs (hash_pairs n es))" for x
    using that height_pair(1) [of _ _ es m]
    by (fastforce simp: array_values_def lua_rawgeti_def flat_pairs_def hash_pairs_def
        dest: map_of_SomeD split: option.splits)
  then show ?thesis by (intro max_height_lessI) simp_all
qed

lemma max_height_meta: "max_height (flat_pairs (meta_pairs ps)) < height (LMeta ps)"
proof -
  have "height x < height (LMeta ps)" if "x \<in> set (flat_pairs (meta_pairs ps))" for x
    using that height_pair(2) [of _ _ ps]
    by (fastforce simp: flat_pairs_def meta_pairs_def dest: set_takeWhileD)
  then show ?thesis by (intro max_height_lessI) simp_all
qed

function pack_one :: "lua_value \<Rightarrow> nat \<Rightarrow> write_block \<Rightarrow> write_block lua_result"
  and pack_list :: "lua_value list \<Rightarrow> nat \<Rightarrow> write_block \<Rightarrow> write_block lua_result" where
  "pack_one v depth b =
     (if depth > MAX_DEPTH then Inl Too_deep
      else case v of
        LNil \<Rightarrow> Inr (wb_nil b)
      | LInteger x \<Rightarrow> Inr (wb_integer x b)
      | LReal n \<Rightarrow> Inr (wb_real n b)
      | LBoolean x \<Rightarrow> Inr (wb_boolean x b)
      | LString str \<Rightarrow> Inr (wb_string str b)
      | LPointer p \<Rightarrow> Inr (wb_pointer p b)
      | LTable rawlen es \<Rightarrow>
          and_then (pack_list (array_values (nat (i32 (int rawlen))) es) (depth + 1) (wb_table_head (i32 (int rawlen)) b)) (\<lambda>b1.
          and_then (pack_list (flat_pairs (hash_pairs (nat (i32 (int rawlen))) es)) (depth + 1) b1) (\<lambda>b2.
          Inr (wb_nil b2)))
      | LMeta ps \<Rightarrow>
          and_then (pack_list (flat_pairs (meta_pairs ps)) (depth + 1) (wb_push [COMBINE_TYPE TYPE_TABLE 0] b)) (\<lambda>b1.
          Inr (wb_nil b1))
      | LOther typename \<Rightarrow> Inl (Unsupported typename))"
| "pack_list [] depth b = Inr b"
| "pack_list (v # vs) depth b = and_then (pack_one v depth b) (\<lambda>b1. pack_list vs depth b1)"
  by pat_completeness auto
termination
proof (relation "measures [case_sum (\<lambda>(v, d, b). height v) (\<lambda>(vs, d, b). max_height vs),
    case_sum (\<lambda>(v, d, b). 0) (\<lambda>(vs, d, b). Suc (length vs))]", goal_cases)
  case (2 v depth b m es)
  let ?n = "nat (i32 (int m))"
  have "max_height (array_values ?n es) \<le> max_height (array_values ?n es @ flat_pairs (hash_pairs ?n es))"
    by (auto simp: max_height_def intro!: Max_mono)
  with 2 max_height_table [of ?n es m] show ?case by (simp del: height.simps)
next
  case (3 v depth b m es b1)
  let ?n = "nat (i32 (int m))"
  have "max_height (flat_pairs (hash_pairs ?n es)) \<le> max_height (array_values ?n es @ flat_pairs (hash_pairs ?n es))"
    by (auto simp: max_height_def intro!: Max_mono)
  with 3 max_height_table [of ?n es m] show ?case by (simp del: height.simps)
next
  case (4 v depth b ps)
  with max_height_meta [of ps] show ?case by (simp del: height.simps)
next
  case (5 v vs depth b)
  show ?case using max_height_Cons(1) [of v vs] by auto
next
  case (6 v vs depth b b1)
  show ?case using max_height_Cons(2) [of vs v] by auto
qed simp

declare pack_one.simps [simp del]

definition pack_from :: "lua_value list \<Rightarrow> write_block \<Rightarrow> write_block lua_result" where
  "pack_from vs b = pack_list vs 0 b"

definition luaseri_pack :: "lua_value list \<Rightarrow> byte list option lua_result" where
  "luaseri_pack vs =
     and_then (pack_from vs wb_init) (\<lambda>wb. Inr (seri (wb_chain wb) (wb_len wb)))"


subsection \<open>Unpacking\<close>

text \<open>\<open>rb_read\<close> returns a position in the buffer, \<open>None\<close> for \<open>NULL\<close>. A negative size passes its
  test and moves the position backwards.\<close>

record read_block =
  rb_buffer :: "byte list"
  rb_len :: int
  rb_ptr :: int

definition rball_init :: "byte list \<Rightarrow> int \<Rightarrow> read_block" where
  "rball_init buffer len = \<lparr>rb_buffer = buffer, rb_len = len, rb_ptr = 0\<rparr>"

definition rb_read :: "read_block \<Rightarrow> int \<Rightarrow> int option \<times> read_block" where
  "rb_read rb n =
     (if rb_len rb < n then (None, rb)
      else (Some (rb_ptr rb), rb\<lparr>rb_ptr := rb_ptr rb + n, rb_len := rb_len rb - n\<rparr>))"

text \<open>The \<open>n\<close> bytes at a position, and the pattern of the readers: \<open>rb_read\<close>, an error when the
  stream is too short, and a copy of the bytes.\<close>

definition bytes_at :: "read_block \<Rightarrow> int \<Rightarrow> int \<Rightarrow> byte list lua_result" where
  "bytes_at rb p n =
     (if 0 \<le> p \<and> p + n \<le> int (length (rb_buffer rb)) then Inr (take (nat n) (drop (nat p) (rb_buffer rb)))
      else Inl Undefined)"

definition rb_fetch :: "read_block \<Rightarrow> int \<Rightarrow> (byte list \<times> read_block) lua_result" where
  "rb_fetch rb n =
     (case rb_read rb n of
        (None, _) \<Rightarrow> Inl Invalid_stream
      | (Some p, rb1) \<Rightarrow> and_then (bytes_at rb1 p n) (\<lambda>bs. Inr (bs, rb1)))"

definition get_integer :: "read_block \<Rightarrow> int \<Rightarrow> (int \<times> read_block) lua_result" where
  "get_integer rb cookie =
     (if cookie = TYPE_NUMBER_ZERO then Inr (0, rb)
      else if cookie = TYPE_NUMBER_BYTE then and_then (rb_fetch rb 1) (\<lambda>(pn, rb'). Inr (le_value pn, rb'))
      else if cookie = TYPE_NUMBER_WORD then and_then (rb_fetch rb 2) (\<lambda>(pn, rb'). Inr (le_value pn, rb'))
      else if cookie = TYPE_NUMBER_DWORD then and_then (rb_fetch rb 4) (\<lambda>(pn, rb'). Inr (le_signed 4 pn, rb'))
      else if cookie = TYPE_NUMBER_QWORD then and_then (rb_fetch rb 8) (\<lambda>(pn, rb'). Inr (le_signed 8 pn, rb'))
      else Inl Invalid_stream)"

definition get_real :: "read_block \<Rightarrow> (u64 \<times> read_block) lua_result" where
  "get_real rb = and_then (rb_fetch rb 8) (\<lambda>(pn, rb'). Inr (word_of_int (le_value pn), rb'))"

definition get_pointer :: "read_block \<Rightarrow> (u64 \<times> read_block) lua_result" where
  "get_pointer rb = and_then (rb_fetch rb 8) (\<lambda>(v, rb'). Inr (word_of_int (le_value v), rb'))"

text \<open>\<open>lua_pushlstring\<close> takes the length as a \<open>size_t\<close> and refuses a string that is too long
  for an allocation before it reads any of it (\<open>luaS_newlstr\<close>).\<close>

definition MAX_SIZE :: u64 where
  "MAX_SIZE = 2 ^ 63 - 1"

definition luaS_newlstr :: "read_block \<Rightarrow> int \<Rightarrow> u64 \<Rightarrow> lua_value lua_result" where
  "luaS_newlstr rb str l =
     (if l > 40 \<and> l \<ge> MAX_SIZE - 24 then Inl Block_too_big
      else and_then (bytes_at rb str (uint l)) (\<lambda>s. Inr (LString s)))"

definition get_buffer :: "read_block \<Rightarrow> int \<Rightarrow> (lua_value \<times> read_block) lua_result" where
  "get_buffer rb len =
     (case rb_read rb len of
        (None, _) \<Rightarrow> Inl Invalid_stream
      | (Some p, rb1) \<Rightarrow> and_then (luaS_newlstr rb1 p (word_of_int len)) (\<lambda>s. Inr (s, rb1)))"

text \<open>\<open>lua_rawset\<close> raises an error when the key is nil or not a number.\<close>

definition is_nan :: "u64 \<Rightarrow> bool" where
  "is_nan r \<longleftrightarrow> drop_bit 52 r AND 0x7ff = 0x7ff \<and> r AND mask 52 \<noteq> 0"

fun bad_key :: "lua_value \<Rightarrow> bool" where
  "bad_key LNil \<longleftrightarrow> True"
| "bad_key (LReal r) \<longleftrightarrow> is_nan r"
| "bad_key k \<longleftrightarrow> False"

text \<open>The two loops of \<open>unpack_table\<close>; \<open>unpack\<close> is the recursive call. The second
  loop reads a byte for each key, so it makes at most as many rounds as there are bytes.\<close>

primrec unpack_array ::
  "(read_block \<Rightarrow> (lua_value \<times> read_block) lua_result) \<Rightarrow> nat \<Rightarrow> read_block \<Rightarrow> (lua_value list \<times> read_block) lua_result" where
  "unpack_array unpack 0 rb = Inr ([], rb)"
| "unpack_array unpack (Suc n) rb =
     and_then (unpack rb) (\<lambda>(v, rb1).
     and_then (unpack_array unpack n rb1) (\<lambda>(vs, rb2). Inr (v # vs, rb2)))"

primrec unpack_pairs ::
  "(read_block \<Rightarrow> (lua_value \<times> read_block) lua_result) \<Rightarrow> nat \<Rightarrow> read_block
     \<Rightarrow> ((lua_value \<times> lua_value) list \<times> read_block) lua_result" where
  "unpack_pairs unpack 0 rb = Inl Out_of_fuel"
| "unpack_pairs unpack (Suc n) rb =
     and_then (unpack rb) (\<lambda>(k, rb1).
       if k = LNil then Inr ([], rb1)
       else and_then (unpack rb1) (\<lambda>(v, rb2).
         if bad_key k then Inl Bad_key
         else and_then (unpack_pairs unpack n rb2) (\<lambda>(ps, rb3). Inr ((k, v) # ps, rb3))))"

definition table_size :: "read_block \<Rightarrow> int \<Rightarrow> (int \<times> read_block) lua_result" where
  "table_size rb array_size =
     (if array_size = MAX_COOKIE - 1 then
        and_then (rb_fetch rb 1) (\<lambda>(t, rb1).
          let type = hd t; cookie = uint (drop_bit 3 type)
          in if uint (type AND 7) \<noteq> TYPE_NUMBER \<or> cookie = TYPE_NUMBER_REAL then Inl Invalid_stream
             else and_then (get_integer rb1 cookie) (\<lambda>(n, rb2). Inr (signed_take_bit 31 n, rb2)))
      else Inr (array_size, rb))"

definition unpack_body ::
  "(read_block \<Rightarrow> (lua_value \<times> read_block) lua_result) \<Rightarrow> nat \<Rightarrow> read_block \<Rightarrow> (lua_value \<times> read_block) lua_result" where
  "unpack_body unpack n rb =
     and_then (unpack_array unpack n rb) (\<lambda>(vs, rb2).
     and_then (unpack_pairs unpack (Suc (nat (rb_len rb2))) rb2) (\<lambda>(ps, rb3).
     Inr (LTable n (zip (map (\<lambda>i. LInteger (int i)) [1..<n + 1]) vs @ ps), rb3)))"

definition unpack_table ::
  "(read_block \<Rightarrow> (lua_value \<times> read_block) lua_result) \<Rightarrow> read_block \<Rightarrow> int \<Rightarrow> (lua_value \<times> read_block) lua_result" where
  "unpack_table unpack rb cookie =
     and_then (table_size rb cookie) (\<lambda>(array_size, rb1). unpack_body unpack (nat array_size) rb1)"

definition push_value ::
  "(read_block \<Rightarrow> (lua_value \<times> read_block) lua_result) \<Rightarrow> read_block \<Rightarrow> int \<Rightarrow> int \<Rightarrow> (lua_value \<times> read_block) lua_result" where
  "push_value unpack rb type cookie =
     (if type = TYPE_NIL then Inr (LNil, rb)
      else if type = TYPE_BOOLEAN then Inr (LBoolean (cookie \<noteq> 0), rb)
      else if type = TYPE_NUMBER then
        (if cookie = TYPE_NUMBER_REAL then and_then (get_real rb) (\<lambda>(r, rb'). Inr (LReal r, rb'))
         else and_then (get_integer rb cookie) (\<lambda>(n, rb'). Inr (LInteger n, rb')))
      else if type = TYPE_USERDATA then and_then (get_pointer rb) (\<lambda>(p, rb'). Inr (LPointer p, rb'))
      else if type = TYPE_SHORT_STRING then get_buffer rb cookie
      else if type = TYPE_LONG_STRING then
        (if cookie = 2 then and_then (rb_fetch rb 2) (\<lambda>(plen, rb'). get_buffer rb' (le_value plen))
         else if cookie \<noteq> 4 then Inl Invalid_stream
         else and_then (rb_fetch rb 4) (\<lambda>(plen, rb'). get_buffer rb' (signed_take_bit 31 (le_value plen))))
      else if type = TYPE_TABLE then unpack_table unpack rb cookie
      else Inl Invalid_stream)"

text \<open>The recursion of \<open>unpack_one\<close> is as deep as the nesting of tables in the stream,
  and so is bounded by its length.\<close>

primrec unpack_one :: "nat \<Rightarrow> read_block \<Rightarrow> (lua_value \<times> read_block) lua_result" where
  "unpack_one 0 rb = Inl Out_of_fuel"
| "unpack_one (Suc fuel) rb =
     and_then (rb_fetch rb 1) (\<lambda>(t, rb').
       push_value (unpack_one fuel) rb' (uint (hd t AND 7)) (uint (drop_bit 3 (hd t))))"

text \<open>The loop of \<open>luaseri_unpack\<close>, which reads at least one byte in each round.\<close>

primrec unpack_loop :: "nat \<Rightarrow> read_block \<Rightarrow> lua_value list lua_result" where
  "unpack_loop 0 rb = Inl Out_of_fuel"
| "unpack_loop (Suc fuel) rb =
     (case rb_read rb 1 of
        (None, _) \<Rightarrow> Inr []
      | (Some p, rb1) \<Rightarrow>
          and_then (bytes_at rb1 p 1) (\<lambda>t.
          and_then (push_value (unpack_one (nat (rb_len rb))) rb1 (uint (hd t AND 7)) (uint (drop_bit 3 (hd t)))) (\<lambda>(v, rb2).
          and_then (unpack_loop fuel rb2) (\<lambda>vs. Inr (v # vs)))))"

text \<open>The argument is nil, or a pointer (that may be \<open>NULL\<close>) and a length, or a
  string.\<close>

definition luaseri_unpack :: "byte list option \<Rightarrow> int \<Rightarrow> lua_value list lua_result" where
  "luaseri_unpack buffer len =
     (if len = 0 then Inr []
      else case buffer of None \<Rightarrow> Inl Null_pointer
        | Some b \<Rightarrow> unpack_loop (Suc (nat len)) (rball_init b len))"

end
