(* ===== verification/Seri_Trip.thy ===== *)
theory Seri_Trip
  imports Seri
begin

section \<open>What comes back from the serialiser\<close>

text \<open>
  The unpacker of \<open>lua-seri.c\<close> refines a decoder on lists of bytes, and that decoder inverts the
  packer. The consequences: a round trip returns the values, a table keeps its content, the
  unpacker ends on every input with values or a Lua error, and exactly the values that are
  nested too deeply are refused.
\<close>

subsection \<open>A decoder on lists\<close>

text \<open>The specification of the unpacker: the same functions on the list of the bytes that are
  left. Only the length of a long string can be negative, and is refused.\<close>

definition s_read :: "byte list \<Rightarrow> int \<Rightarrow> (byte list \<times> byte list) lua_result" where
  "s_read rb n =
     (if int (length rb) < n then Inl Invalid_stream
      else if n < 0 then Inl Block_too_big
      else Inr (take (nat n) rb, drop (nat n) rb))"

definition s_integer :: "byte list \<Rightarrow> int \<Rightarrow> (int \<times> byte list) lua_result" where
  "s_integer rb cookie =
     (if cookie = TYPE_NUMBER_ZERO then Inr (0, rb)
      else if cookie = TYPE_NUMBER_BYTE then and_then (s_read rb 1) (\<lambda>(pn, rb'). Inr (le_value pn, rb'))
      else if cookie = TYPE_NUMBER_WORD then and_then (s_read rb 2) (\<lambda>(pn, rb'). Inr (le_value pn, rb'))
      else if cookie = TYPE_NUMBER_DWORD then and_then (s_read rb 4) (\<lambda>(pn, rb'). Inr (le_signed 4 pn, rb'))
      else if cookie = TYPE_NUMBER_QWORD then and_then (s_read rb 8) (\<lambda>(pn, rb'). Inr (le_signed 8 pn, rb'))
      else Inl Invalid_stream)"

definition s_real :: "byte list \<Rightarrow> (u64 \<times> byte list) lua_result" where
  "s_real rb = and_then (s_read rb 8) (\<lambda>(pn, rb'). Inr (word_of_int (le_value pn), rb'))"

definition s_pointer :: "byte list \<Rightarrow> (u64 \<times> byte list) lua_result" where
  "s_pointer rb = and_then (s_read rb 8) (\<lambda>(v, rb'). Inr (word_of_int (le_value v), rb'))"

definition s_buffer :: "byte list \<Rightarrow> int \<Rightarrow> (lua_value \<times> byte list) lua_result" where
  "s_buffer rb len = and_then (s_read rb len) (\<lambda>(p, rb'). Inr (LString p, rb'))"

text \<open>The two loops of \<open>s_table\<close>; \<open>unpack\<close> is the recursive call. The second
  loop reads a byte for each key, so it makes at most as many rounds as there are bytes.\<close>

primrec s_array ::
  "(byte list \<Rightarrow> (lua_value \<times> byte list) lua_result) \<Rightarrow> nat \<Rightarrow> byte list \<Rightarrow> (lua_value list \<times> byte list) lua_result" where
  "s_array unpack 0 rb = Inr ([], rb)"
| "s_array unpack (Suc n) rb =
     and_then (unpack rb) (\<lambda>(v, rb1).
     and_then (s_array unpack n rb1) (\<lambda>(vs, rb2). Inr (v # vs, rb2)))"

primrec s_pairs ::
  "(byte list \<Rightarrow> (lua_value \<times> byte list) lua_result) \<Rightarrow> nat \<Rightarrow> byte list
     \<Rightarrow> ((lua_value \<times> lua_value) list \<times> byte list) lua_result" where
  "s_pairs unpack 0 rb = Inl Out_of_fuel"
| "s_pairs unpack (Suc n) rb =
     and_then (unpack rb) (\<lambda>(k, rb1).
       if k = LNil then Inr ([], rb1)
       else and_then (unpack rb1) (\<lambda>(v, rb2).
         if bad_key k then Inl Bad_key
         else and_then (s_pairs unpack n rb2) (\<lambda>(ps, rb3). Inr ((k, v) # ps, rb3))))"

definition s_size :: "byte list \<Rightarrow> int \<Rightarrow> (int \<times> byte list) lua_result" where
  "s_size rb array_size =
     (if array_size = MAX_COOKIE - 1 then
        and_then (s_read rb 1) (\<lambda>(t, rb1).
          let type = hd t; cookie = uint (drop_bit 3 type)
          in if uint (type AND 7) \<noteq> TYPE_NUMBER \<or> cookie = TYPE_NUMBER_REAL then Inl Invalid_stream
             else and_then (s_integer rb1 cookie) (\<lambda>(n, rb2). Inr (signed_take_bit 31 n, rb2)))
      else Inr (array_size, rb))"

definition s_body ::
  "(byte list \<Rightarrow> (lua_value \<times> byte list) lua_result) \<Rightarrow> nat \<Rightarrow> byte list \<Rightarrow> (lua_value \<times> byte list) lua_result" where
  "s_body unpack n rb =
     and_then (s_array unpack n rb) (\<lambda>(vs, rb2).
     and_then (s_pairs unpack (Suc (length rb2)) rb2) (\<lambda>(ps, rb3).
     Inr (LTable n (zip (map (\<lambda>i. LInteger (int i)) [1..<n + 1]) vs @ ps), rb3)))"

definition s_table ::
  "(byte list \<Rightarrow> (lua_value \<times> byte list) lua_result) \<Rightarrow> byte list \<Rightarrow> int \<Rightarrow> (lua_value \<times> byte list) lua_result" where
  "s_table unpack rb cookie =
     and_then (s_size rb cookie) (\<lambda>(array_size, rb1). s_body unpack (nat array_size) rb1)"

definition s_value ::
  "(byte list \<Rightarrow> (lua_value \<times> byte list) lua_result) \<Rightarrow> byte list \<Rightarrow> int \<Rightarrow> int \<Rightarrow> (lua_value \<times> byte list) lua_result" where
  "s_value unpack rb type cookie =
     (if type = TYPE_NIL then Inr (LNil, rb)
      else if type = TYPE_BOOLEAN then Inr (LBoolean (cookie \<noteq> 0), rb)
      else if type = TYPE_NUMBER then
        (if cookie = TYPE_NUMBER_REAL then and_then (s_real rb) (\<lambda>(r, rb'). Inr (LReal r, rb'))
         else and_then (s_integer rb cookie) (\<lambda>(n, rb'). Inr (LInteger n, rb')))
      else if type = TYPE_USERDATA then and_then (s_pointer rb) (\<lambda>(p, rb'). Inr (LPointer p, rb'))
      else if type = TYPE_SHORT_STRING then s_buffer rb cookie
      else if type = TYPE_LONG_STRING then
        (if cookie = 2 then and_then (s_read rb 2) (\<lambda>(plen, rb'). s_buffer rb' (le_value plen))
         else if cookie \<noteq> 4 then Inl Invalid_stream
         else and_then (s_read rb 4) (\<lambda>(plen, rb'). s_buffer rb' (signed_take_bit 31 (le_value plen))))
      else if type = TYPE_TABLE then s_table unpack rb cookie
      else Inl Invalid_stream)"

text \<open>The recursion of \<open>s_one\<close> is as deep as the nesting of tables in the stream,
  and so is bounded by its length.\<close>

primrec s_one :: "nat \<Rightarrow> byte list \<Rightarrow> (lua_value \<times> byte list) lua_result" where
  "s_one 0 rb = Inl Out_of_fuel"
| "s_one (Suc fuel) rb =
     and_then (s_read rb 1) (\<lambda>(t, rb').
       s_value (s_one fuel) rb' (uint (hd t AND 7)) (uint (drop_bit 3 (hd t))))"

primrec s_loop :: "nat \<Rightarrow> byte list \<Rightarrow> lua_value list lua_result" where
  "s_loop 0 rb = Inl Out_of_fuel"
| "s_loop (Suc fuel) rb =
     (if rb = [] then Inr []
      else and_then (s_value (s_one (length rb)) (tl rb) (uint (hd rb AND 7)) (uint (drop_bit 3 (hd rb))))
        (\<lambda>(v, rb'). and_then (s_loop fuel rb') (\<lambda>vs. Inr (v # vs))))"

subsection \<open>What comes back\<close>

text \<open>A value after a round trip: in a table the array part comes first, and a table with a
  \<open>__pairs\<close> metamethod becomes a plain one.\<close>

primrec norm :: "lua_value \<Rightarrow> lua_value" where
  "norm LNil = LNil"
| "norm (LBoolean b) = LBoolean b"
| "norm (LInteger i) = LInteger i"
| "norm (LReal r) = LReal r"
| "norm (LString s) = LString s"
| "norm (LPointer p) = LPointer p"
| "norm (LTable n es) = (let es' = map (map_prod norm norm) es
     in LTable n (zip (map (\<lambda>i. LInteger (int i)) [1..<n + 1]) (array_values n es') @ hash_pairs n es'))"
| "norm (LMeta ps) = LTable 0 (meta_pairs (map (map_prod norm norm) ps))"
| "norm (LOther s) = LOther s"

text \<open>Values that the C code can hold: 64-bit integers, strings and arrays whose length fits
  an \<open>int\<close>, and keys that a table can have.\<close>

primrec lua_ok :: "lua_value \<Rightarrow> bool" where
  "lua_ok LNil \<longleftrightarrow> True"
| "lua_ok (LBoolean b) \<longleftrightarrow> True"
| "lua_ok (LInteger i) \<longleftrightarrow> - (2 ^ 63) \<le> i \<and> i < 2 ^ 63"
| "lua_ok (LReal r) \<longleftrightarrow> True"
| "lua_ok (LString s) \<longleftrightarrow> length s < 2 ^ 31"
| "lua_ok (LPointer p) \<longleftrightarrow> True"
| "lua_ok (LTable n es) \<longleftrightarrow> n < 2 ^ 31 \<and> list_all (\<lambda>(k, v). k \<and> v) (map (map_prod lua_ok lua_ok) es)
     \<and> list_all (\<lambda>e. \<not> bad_key (fst e)) es"
| "lua_ok (LMeta ps) \<longleftrightarrow> list_all (\<lambda>(k, v). k \<and> v) (map (map_prod lua_ok lua_ok) ps)
     \<and> list_all (\<lambda>e. bad_key (fst e) \<longrightarrow> fst e = LNil) ps"
| "lua_ok (LOther s) \<longleftrightarrow> True"

lemma lua_ok_pairs:
  "lua_ok (LTable n es) \<longleftrightarrow> n < 2 ^ 31 \<and> (\<forall>(k, v) \<in> set es. lua_ok k \<and> lua_ok v \<and> \<not> bad_key k)"
  "lua_ok (LMeta ps) \<longleftrightarrow> (\<forall>(k, v) \<in> set ps. lua_ok k \<and> lua_ok v \<and> (bad_key k \<longrightarrow> k = LNil))"
  by (auto simp: list_all_iff)

lemma norm_eq_simps [simp]:
  "norm k = LNil \<longleftrightarrow> k = LNil" "norm k = LInteger i \<longleftrightarrow> k = LInteger i" "bad_key (norm k) = bad_key k"
  "in_array n (norm k) = in_array n k"
  by (cases k; simp add: Let_def)+

lemma norm_eq_sym_simps [simp]: "LNil = norm k \<longleftrightarrow> k = LNil" "LInteger i = norm k \<longleftrightarrow> k = LInteger i"
  by (metis norm_eq_simps(1), metis norm_eq_simps(2))

lemma rawgeti_norm: "lua_rawgeti (map (map_prod norm norm) es) i = norm (lua_rawgeti es i)"
  by (induction es) (auto simp: lua_rawgeti_def split: option.splits)

lemma array_values_norm: "array_values n (map (map_prod norm norm) es) = map norm (array_values n es)"
  by (simp add: array_values_def rawgeti_norm)

lemma hash_pairs_norm: "hash_pairs n (map (map_prod norm norm) es) = map (map_prod norm norm) (hash_pairs n es)"
  by (simp add: hash_pairs_def filter_map comp_def)

lemma meta_pairs_norm: "meta_pairs (map (map_prod norm norm) ps) = map (map_prod norm norm) (meta_pairs ps)"
  by (induction ps) (auto simp: meta_pairs_def)

subsection \<open>Tags\<close>

lemma combine_type_parts:
  assumes "0 \<le> t" "t < 8" "0 \<le> c" "c < 32"
  shows "uint (COMBINE_TYPE t c AND 7) = t" "uint (drop_bit 3 (COMBINE_TYPE t c)) = c"
proof -
  have "\<not> bit t n" if "3 \<le> n" for n
  proof -
    have "t = take_bit 3 t" using assms by (simp add: take_bit_int_eq_self)
    then show ?thesis using that by (metis bit_take_bit_iff not_less)
  qed
  moreover have push: "c * 2 ^ 3 = push_bit 3 c" by (simp add: push_bit_eq_mult)
  ultimately have or: "t OR c * 2 ^ 3 = t + c * 2 ^ 3"
    unfolding push by (intro disjunctive_add [symmetric]) (auto simp: bit_push_bit_iff_int)
  have u: "uint (COMBINE_TYPE t c) = t + c * 2 ^ 3"
    unfolding COMBINE_TYPE_def or uint_word_of_int
    by (rule mod_pos_pos_trivial) (use assms in simp_all)
  have "(7 :: byte) = mask 3" by (simp add: mask_eq_exp_minus_1)
  then have "uint (COMBINE_TYPE t c AND 7) = take_bit 3 (uint (COMBINE_TYPE t c))"
    by (simp only: take_bit_eq_mask [symmetric] unsigned_take_bit_eq)
  also have "\<dots> = t" unfolding u using assms by (simp add: take_bit_eq_mod)
  finally show "uint (COMBINE_TYPE t c AND 7) = t" .
  have "uint (drop_bit 3 (COMBINE_TYPE t c)) = uint (COMBINE_TYPE t c) div 2 ^ 3" by (rule uint_drop_bit)
  also have "\<dots> = c" unfolding u using assms by simp
  finally show "uint (drop_bit 3 (COMBINE_TYPE t c)) = c" .
qed

lemma s_read_one [simp]: "s_read (b # bs) 1 = Inr ([b], bs)" "s_read [] 1 = Inl Invalid_stream"
  by (simp_all add: s_read_def)

lemma s_read_append [simp]: "n = int (length xs) \<Longrightarrow> s_read (xs @ ys) n = Inr (xs, ys)"
  by (simp add: s_read_def)

lemma unpack_tag:
  "0 \<le> t \<Longrightarrow> t < 8 \<Longrightarrow> 0 \<le> c \<Longrightarrow> c < 32 \<Longrightarrow>
     s_one (Suc f) (COMBINE_TYPE t c # rest) = s_value (s_one f) rest t c"
  by (simp add: combine_type_parts)

text \<open>\<open>decodes bs v\<close>: with enough fuel, the unpacker reads \<open>bs\<close> as \<open>v\<close>,
  whatever follows.\<close>

definition decodes :: "byte list \<Rightarrow> lua_value \<Rightarrow> bool" where
  "decodes bs v \<longleftrightarrow> (\<forall>f rest. height v < f \<longrightarrow> s_one f (bs @ rest) = Inr (norm v, rest))"

definition appends :: "(write_block \<Rightarrow> write_block) \<Rightarrow> byte list \<Rightarrow> bool" where
  "appends g bs \<longleftrightarrow> (\<forall>wb. wb_ok wb \<longrightarrow> wb_ok (g wb) \<and> wb_bytes (g wb) = wb_bytes wb @ bs)"

lemma decodesI:
  "0 \<le> t \<Longrightarrow> t < 8 \<Longrightarrow> 0 \<le> c \<Longrightarrow> c < 32 \<Longrightarrow>
     (\<And>f rest. height v \<le> f \<Longrightarrow> s_value (s_one f) (bs @ rest) t c = Inr (norm v, rest)) \<Longrightarrow>
     decodes (COMBINE_TYPE t c # bs) v"
proof -
  assume tc: "0 \<le> t" "t < 8" "0 \<le> c" "c < 32"
    and push: "\<And>f rest. height v \<le> f \<Longrightarrow> s_value (s_one f) (bs @ rest) t c = Inr (norm v, rest)"
  have "s_one f ((COMBINE_TYPE t c # bs) @ rest) = Inr (norm v, rest)" if "height v < f" for f rest
  proof -
    from that obtain g where "f = Suc g" "height v \<le> g" by (cases f) auto
    with push tc show ?thesis by (simp add: unpack_tag del: s_one.simps)
  qed
  then show ?thesis by (simp add: decodes_def)
qed

lemma decodes_nonempty: "decodes bs v \<Longrightarrow> bs \<noteq> []"
proof
  assume "decodes bs v" "bs = []"
  then have "s_one (Suc (height v)) [] = Inr (norm v, [])"
    unfolding decodes_def by (metis append_Nil lessI)
  then show False by simp
qed

subsection \<open>The round trip\<close>

lemma appends_push [intro]: "appends (wb_push bs) bs"
  by (simp add: appends_def)

lemma appends_comp [intro]: "appends g bs \<Longrightarrow> appends (\<lambda>wb. wb_push cs (g wb)) (bs @ cs)"
  by (simp add: appends_def)

lemma s_integer_bytes:
  "0 \<le> v \<Longrightarrow> v < 2 ^ 8 \<Longrightarrow> s_integer (le_bytes 1 v @ rest) TYPE_NUMBER_BYTE = Inr (v, rest)"
  "0 \<le> v \<Longrightarrow> v < 2 ^ 16 \<Longrightarrow> s_integer (le_bytes 2 v @ rest) TYPE_NUMBER_WORD = Inr (v, rest)"
  "- (2 ^ 31) \<le> v \<Longrightarrow> v < 2 ^ 31 \<Longrightarrow> s_integer (le_bytes 4 v @ rest) TYPE_NUMBER_DWORD = Inr (v, rest)"
  "- (2 ^ 63) \<le> v \<Longrightarrow> v < 2 ^ 63 \<Longrightarrow> s_integer (le_bytes 8 v @ rest) TYPE_NUMBER_QWORD = Inr (v, rest)"
  using le_value_le_bytes [of 1 v] le_value_le_bytes [of 2 v] le_signed_le_bytes [of 4 v] le_signed_le_bytes [of 8 v]
    s_read_append [of 1 "le_bytes 1 v" rest] s_read_append [of 2 "le_bytes 2 v" rest]
    s_read_append [of 4 "le_bytes 4 v" rest] s_read_append [of 8 "le_bytes 8 v" rest]
  by (simp_all add: s_integer_def seri_types del: le_bytes.simps One_nat_def)

lemma wb_integer_bytes:
  assumes "- (2 ^ 63) \<le> v" "v < 2 ^ 63"
  shows "\<exists>c bs. 0 \<le> c \<and> c < 8 \<and> appends (wb_integer v) (COMBINE_TYPE TYPE_NUMBER c # bs)
    \<and> (\<forall>rest. s_integer (bs @ rest) c = Inr (v, rest))"
proof -
  have app: "appends (\<lambda>wb. wb_push bs (wb_push [COMBINE_TYPE TYPE_NUMBER c] wb)) (COMBINE_TYPE TYPE_NUMBER c # bs)"
    for bs c by (simp add: appends_def)
  show ?thesis
  proof (cases "v = 0")
    case True
    then show ?thesis
      by (intro exI [of _ TYPE_NUMBER_ZERO] exI [of _ "[]"])
        (simp add: wb_integer_def appends_def s_integer_def seri_types)
  next
    case nz: False
    show ?thesis
    proof (cases "v = signed_take_bit 31 v")
      case False
      with nz have "wb_integer v = (\<lambda>wb. wb_push (le_bytes 8 v) (wb_push [COMBINE_TYPE TYPE_NUMBER TYPE_NUMBER_QWORD] wb))"
        by (simp add: wb_integer_def fun_eq_iff)
      with app s_integer_bytes(4) [OF assms] show ?thesis
        by (intro exI [of _ TYPE_NUMBER_QWORD] exI [of _ "le_bytes 8 v"])
          (simp add: seri_types del: le_bytes.simps)
    next
      case True
      then have r: "- (2 ^ 31) \<le> v" "v < 2 ^ 31"
        using signed_take_bit_int_greater_eq_minus_exp [of 31 v] signed_take_bit_int_less_exp [of 31 v] by simp_all
      consider "v < 0 \<or> 0x10000 \<le> v" | "0 \<le> v" "v < 0x100" | "0x100 \<le> v" "v < 0x10000" by linarith
      then show ?thesis
      proof cases
        case 1
        with nz True have "wb_integer v
            = (\<lambda>wb. wb_push (le_bytes 4 v) (wb_push [COMBINE_TYPE TYPE_NUMBER TYPE_NUMBER_DWORD] wb))"
          by (auto simp: wb_integer_def fun_eq_iff)
        with app s_integer_bytes(3) [OF r] show ?thesis
          by (intro exI [of _ TYPE_NUMBER_DWORD] exI [of _ "le_bytes 4 v"])
            (simp add: seri_types del: le_bytes.simps)
      next
        case 2
        with nz True have "wb_integer v
            = (\<lambda>wb. wb_push (le_bytes 1 v) (wb_push [COMBINE_TYPE TYPE_NUMBER TYPE_NUMBER_BYTE] wb))"
          by (simp add: wb_integer_def fun_eq_iff del: le_bytes.simps One_nat_def)
        with app s_integer_bytes(1) [of v] 2 show ?thesis
          by (intro exI [of _ TYPE_NUMBER_BYTE] exI [of _ "le_bytes 1 v"])
            (simp add: seri_types del: le_bytes.simps One_nat_def)
      next
        case 3
        with nz True have "wb_integer v
            = (\<lambda>wb. wb_push (le_bytes 2 v) (wb_push [COMBINE_TYPE TYPE_NUMBER TYPE_NUMBER_WORD] wb))"
          by (simp add: wb_integer_def fun_eq_iff del: le_bytes.simps One_nat_def)
        with app s_integer_bytes(2) [of v] 3 show ?thesis
          by (intro exI [of _ TYPE_NUMBER_WORD] exI [of _ "le_bytes 2 v"])
            (simp add: seri_types del: le_bytes.simps One_nat_def)
      qed
    qed
  qed
qed

lemma pack_integer:
  assumes "lua_ok (LInteger v)"
  shows "\<exists>bs. appends (wb_integer v) bs \<and> decodes bs (LInteger v)"
proof -
  obtain c bs where c: "0 \<le> c" "c < 8" "appends (wb_integer v) (COMBINE_TYPE TYPE_NUMBER c # bs)"
    "\<forall>rest. s_integer (bs @ rest) c = Inr (v, rest)"
    using wb_integer_bytes [of v] assms by auto
  have "decodes (COMBINE_TYPE TYPE_NUMBER c # bs) (LInteger v)"
    by (rule decodesI) (use c in \<open>auto simp: s_value_def seri_types\<close>)
  with c(3) show ?thesis by blast
qed

lemma word_le_value: "(word_of_int (le_value (le_bytes 8 (uint (w :: u64)))) :: u64) = w"
proof -
  have "uint w mod 2 ^ 64 = uint w" using unsigned_less [of w, where 'a = int] by simp
  then show ?thesis by (simp add: le_value_le_bytes)
qed

lemma pack_real: "\<exists>bs. appends (wb_real r) bs \<and> decodes bs (LReal r)"
proof (intro exI conjI)
  show "appends (wb_real r) (COMBINE_TYPE TYPE_NUMBER TYPE_NUMBER_REAL # le_bytes 8 (uint r))"
    by (simp add: appends_def wb_real_def del: le_bytes.simps)
  show "decodes (COMBINE_TYPE TYPE_NUMBER TYPE_NUMBER_REAL # le_bytes 8 (uint r)) (LReal r)"
    by (rule decodesI) (simp_all add: s_value_def seri_types s_real_def word_le_value del: le_bytes.simps)
qed

lemma pack_pointer: "\<exists>bs. appends (wb_pointer p) bs \<and> decodes bs (LPointer p)"
proof (intro exI conjI)
  show "appends (wb_pointer p) (COMBINE_TYPE TYPE_USERDATA 0 # le_bytes 8 (uint p))"
    by (simp add: appends_def wb_pointer_def COMBINE_TYPE_def del: le_bytes.simps)
  show "decodes (COMBINE_TYPE TYPE_USERDATA 0 # le_bytes 8 (uint p)) (LPointer p)"
    by (rule decodesI) (simp_all add: s_value_def seri_types s_pointer_def word_le_value del: le_bytes.simps)
qed

lemma pack_nil: "appends wb_nil [COMBINE_TYPE TYPE_NIL 0]" "decodes [COMBINE_TYPE TYPE_NIL 0] LNil"
  by (simp add: appends_def wb_nil_def COMBINE_TYPE_def)
    (rule decodesI, simp_all add: s_value_def seri_types)

lemma pack_boolean: "\<exists>bs. appends (wb_boolean b) bs \<and> decodes bs (LBoolean b)"
proof (intro exI conjI)
  show "appends (wb_boolean b) [COMBINE_TYPE TYPE_BOOLEAN (if b then 1 else 0)]"
    by (simp add: appends_def wb_boolean_def)
  show "decodes [COMBINE_TYPE TYPE_BOOLEAN (if b then 1 else 0)] (LBoolean b)"
    by (rule decodesI) (simp_all add: s_value_def seri_types)
qed

lemma s_buffer_append: "n = int (length s) \<Longrightarrow> s_buffer (s @ rest) n = Inr (LString s, rest)"
  by (simp add: s_buffer_def)

lemma pack_string:
  assumes "lua_ok (LString s)"
  shows "\<exists>bs. appends (wb_string s) bs \<and> decodes bs (LString s)"
proof -
  consider "int (length s) < 32" | "32 \<le> int (length s)" "int (length s) < 0x10000"
    | "0x10000 \<le> int (length s)" by linarith
  then show ?thesis
  proof cases
    case 1
    have "appends (wb_string s) (COMBINE_TYPE TYPE_SHORT_STRING (int (length s)) # s)"
      using 1 by (auto simp: appends_def wb_string_def Let_def MAX_COOKIE_def)
    moreover have "decodes (COMBINE_TYPE TYPE_SHORT_STRING (int (length s)) # s) (LString s)"
      by (rule decodesI) (use 1 in \<open>simp_all add: s_value_def seri_types s_buffer_append\<close>)
    ultimately show ?thesis by blast
  next
    case 2
    have "appends (wb_string s) (COMBINE_TYPE TYPE_LONG_STRING 2 # le_bytes 2 (int (length s)) @ s)"
      using 2 by (simp add: appends_def wb_string_def Let_def MAX_COOKIE_def del: le_bytes.simps)
    moreover have "decodes (COMBINE_TYPE TYPE_LONG_STRING 2 # le_bytes 2 (int (length s)) @ s) (LString s)"
      by (rule decodesI) (use 2 le_value_le_bytes [of 2 "int (length s)"]
        in \<open>simp_all add: s_value_def seri_types s_buffer_append del: le_bytes.simps\<close>)
    ultimately show ?thesis by blast
  next
    case 3
    have "signed_take_bit 31 (int (length s)) = int (length s)"
      using assms by (simp add: signed_take_bit_int_eq_self)
    moreover have "le_value (le_bytes 4 (int (length s))) = int (length s)"
      using le_value_le_bytes [of 4 "int (length s)"] assms by simp
    ultimately have "decodes (COMBINE_TYPE TYPE_LONG_STRING 4 # le_bytes 4 (int (length s)) @ s) (LString s)"
      by (intro decodesI) (simp_all add: s_value_def seri_types s_buffer_append del: le_bytes.simps)
    moreover have "appends (wb_string s) (COMBINE_TYPE TYPE_LONG_STRING 4 # le_bytes 4 (int (length s)) @ s)"
      using 3 assms by (simp add: appends_def wb_string_def Let_def MAX_COOKIE_def del: le_bytes.simps)
    ultimately show ?thesis by blast
  qed
qed

lemma unpack_small_table:
  "0 \<le> c \<Longrightarrow> c < 31 \<Longrightarrow> s_table U rb c = s_body U (nat c) rb"
  by (simp add: s_table_def s_size_def MAX_COOKIE_def)

lemma table_head:
  assumes "n < 2 ^ 31"
  shows "\<exists>c bs. 0 \<le> c \<and> c < 32 \<and> appends (wb_table_head (int n)) (COMBINE_TYPE TYPE_TABLE c # bs)
    \<and> (\<forall>U rest. s_table U (bs @ rest) c = s_body U n rest)"
proof (cases "int n < 31")
  case True
  then show ?thesis
    by (intro exI [of _ "int n"] exI [of _ "[]"])
      (simp add: appends_def wb_table_head_def MAX_COOKIE_def unpack_small_table)
next
  case False
  obtain k bs where k: "0 \<le> k" "k < 8" "appends (wb_integer (int n)) (COMBINE_TYPE TYPE_NUMBER k # bs)"
    "\<forall>rest. s_integer (bs @ rest) k = Inr (int n, rest)"
    using wb_integer_bytes [of "int n"] assms by auto
  have "appends (wb_table_head (int n)) (COMBINE_TYPE TYPE_TABLE 31 # COMBINE_TYPE TYPE_NUMBER k # bs)"
    using False k(3) by (simp add: appends_def wb_table_head_def MAX_COOKIE_def)
  moreover have "signed_take_bit 31 (int n) = int n" using assms by (simp add: signed_take_bit_int_eq_self)
  then have "s_table U ((COMBINE_TYPE TYPE_NUMBER k # bs) @ rest) 31 = s_body U n rest" for U rest
    using k by (simp add: s_table_def s_size_def combine_type_parts seri_types)
  ultimately show ?thesis by (intro exI [of _ 31] exI) auto
qed

lemma s_array_decodes:
  "list_all2 decodes bss vs \<Longrightarrow> \<forall>v \<in> set vs. height v < f \<Longrightarrow>
     s_array (s_one f) (length vs) (concat bss @ rest) = Inr (map norm vs, rest)"
proof (induction bss vs rule: list_all2_induct)
  case (Cons bs bss v vs)
  then have "s_one f (bs @ concat bss @ rest) = Inr (norm v, concat bss @ rest)"
    by (simp add: decodes_def)
  with Cons show ?case by simp
qed simp

lemma s_pairs_decodes:
  "list_all2 decodes bss (flat_pairs ps) \<Longrightarrow> \<forall>v \<in> set (flat_pairs ps). height v < f \<Longrightarrow> 0 < f \<Longrightarrow>
     \<forall>e \<in> set ps. \<not> bad_key (fst e) \<Longrightarrow> length ps < m \<Longrightarrow>
     s_pairs (s_one f) m (concat bss @ COMBINE_TYPE TYPE_NIL 0 # rest) = Inr (map (map_prod norm norm) ps, rest)"
proof (induction ps arbitrary: bss m)
  case Nil
  then have "bss = []" by (simp add: flat_pairs_def)
  moreover have "s_one f (COMBINE_TYPE TYPE_NIL 0 # rest) = Inr (LNil, rest)"
    using pack_nil(2) Nil.prems(3) by (auto simp: decodes_def)
  ultimately show ?case using Nil.prems by (cases m) simp_all
next
  case (Cons e ps)
  obtain k v where e: "e = (k, v)" by (cases e)
  obtain b1 b2 bss' where bss: "bss = b1 # b2 # bss'" "decodes b1 k" "decodes b2 v"
    "list_all2 decodes bss' (flat_pairs ps)"
    using Cons.prems(1) e by (auto simp: flat_pairs_def list_all2_Cons2)
  let ?rest = "concat bss' @ COMBINE_TYPE TYPE_NIL 0 # rest"
  have "s_one f (b1 @ b2 @ ?rest) = Inr (norm k, b2 @ ?rest)" "s_one f (b2 @ ?rest) = Inr (norm v, ?rest)"
    using bss(2,3) Cons.prems(2) e by (auto simp: decodes_def flat_pairs_def)
  moreover have "k \<noteq> LNil" "\<not> bad_key k" using Cons.prems(4) e by auto
  moreover obtain m' where "m = Suc m'" "length ps < m'" using Cons.prems(5) by (cases m) auto
  moreover have "s_pairs (s_one f) m' ?rest = Inr (map (map_prod norm norm) ps, rest)"
    using Cons.IH [OF bss(4)] Cons.prems \<open>length ps < m'\<close> by (auto simp: flat_pairs_def)
  ultimately show ?case using e bss(1) by simp
qed

lemma length_flat_pairs: "length (flat_pairs ps) = 2 * length ps"
  by (induction ps) (simp_all add: flat_pairs_def)

lemma length_concat_decodes: "list_all2 decodes bss vs \<Longrightarrow> length vs \<le> length (concat bss)"
proof (induction bss vs rule: list_all2_induct)
  case (Cons bs bss v vs)
  moreover from Cons obtain x xs where "bs = x # xs" using decodes_nonempty by (cases bs) auto
  ultimately show ?case by simp
qed simp

lemma table_decodes:
  assumes "list_all2 decodes bss1 vs" "list_all2 decodes bss2 (flat_pairs ps)" "n = length vs"
    and "\<forall>v \<in> set vs \<union> set (flat_pairs ps). height v < f" "0 < f" "\<forall>e \<in> set ps. \<not> bad_key (fst e)"
  shows "s_body (s_one f) n (concat bss1 @ concat bss2 @ COMBINE_TYPE TYPE_NIL 0 # rest)
    = Inr (LTable n (zip (map (\<lambda>i. LInteger (int i)) [1..<n + 1]) (map norm vs) @ map (map_prod norm norm) ps), rest)"
proof -
  let ?rb = "concat bss2 @ COMBINE_TYPE TYPE_NIL 0 # rest"
  have a: "s_array (s_one f) n (concat bss1 @ ?rb) = Inr (map norm vs, ?rb)"
    unfolding assms(3) by (rule s_array_decodes [OF assms(1)]) (use assms(4) in blast)
  have p: "s_pairs (s_one f) (Suc (length ?rb)) ?rb = Inr (map (map_prod norm norm) ps, rest)"
    by (rule s_pairs_decodes [OF assms(2)])
      (use assms length_concat_decodes [OF assms(2)] in \<open>auto simp: length_flat_pairs\<close>)
  show ?thesis by (simp only: s_body_def a p and_then_simps prod.case)
qed

lemma lua_ok_array_values: "lua_ok (LTable n es) \<Longrightarrow> v \<in> set (array_values n es) \<Longrightarrow> lua_ok v"
  unfolding lua_ok_pairs
  by (fastforce simp: array_values_def lua_rawgeti_def dest: map_of_SomeD split: option.splits)

lemma lua_ok_flat_pairs:
  "lua_ok (LTable n es) \<Longrightarrow> v \<in> set (flat_pairs (hash_pairs n es)) \<Longrightarrow> lua_ok v"
  "lua_ok (LMeta ps) \<Longrightarrow> v \<in> set (flat_pairs (meta_pairs ps)) \<Longrightarrow> lua_ok v"
  unfolding lua_ok_pairs
  by (fastforce simp: flat_pairs_def hash_pairs_def meta_pairs_def dest: set_takeWhileD)+

lemma key_ok_pairs:
  "lua_ok (LTable n es) \<Longrightarrow> e \<in> set (hash_pairs n es) \<Longrightarrow> \<not> bad_key (fst e)"
  "lua_ok (LMeta ps) \<Longrightarrow> e \<in> set (meta_pairs ps) \<Longrightarrow> \<not> bad_key (fst e)"
  unfolding lua_ok_pairs
  by (fastforce simp: hash_pairs_def meta_pairs_def dest: set_takeWhileD)+

lemma height_less_max: "v \<in> set vs \<Longrightarrow> height v \<le> max_height vs"
  by (simp add: max_height_def)

lemma s_value_table: "s_value U rb TYPE_TABLE c = s_table U rb c"
  by (simp add: s_value_def seri_types)

lemma norm_table:
  "norm (LTable n es) = LTable n (zip (map (\<lambda>i. LInteger (int i)) [1..<n + 1]) (map norm (array_values n es))
     @ map (map_prod norm norm) (hash_pairs n es))"
  "norm (LMeta ps) = LTable 0 (map (map_prod norm norm) (meta_pairs ps))"
  by (simp_all only: norm.simps Let_def array_values_norm hash_pairs_norm meta_pairs_norm)

lemma table_bytes_decode:
  assumes ok: "lua_ok (LTable n es)"
    and c: "0 \<le> c" "c < 32" "\<forall>U rest. s_table U (hb @ rest) c = s_body U n rest"
    and bss: "list_all2 decodes bss1 (array_values n es)" "list_all2 decodes bss2 (flat_pairs (hash_pairs n es))"
  shows "decodes (COMBINE_TYPE TYPE_TABLE c # hb @ concat bss1 @ concat bss2 @ [COMBINE_TYPE TYPE_NIL 0]) (LTable n es)"
proof (rule decodesI)
  have low: "height x < height (LTable n es)"
    if "x \<in> set (array_values n es) \<union> set (flat_pairs (hash_pairs n es))" for x
    using max_height_table [of n es] height_less_max [of x "array_values n es @ flat_pairs (hash_pairs n es)"] that
    by (metis Un_iff le_less_trans set_append)
  fix f rest assume f: "height (LTable n es) \<le> f"
  have "s_body (s_one f) n (concat bss1 @ concat bss2 @ COMBINE_TYPE TYPE_NIL 0 # rest)
      = Inr (norm (LTable n es), rest)"
    unfolding norm_table
    by (rule table_decodes [OF bss]) (use low f key_ok_pairs(1) [OF ok] in \<open>force simp: array_values_def\<close>)+
  then show "s_value (s_one f) ((hb @ concat bss1 @ concat bss2 @ [COMBINE_TYPE TYPE_NIL 0]) @ rest) TYPE_TABLE c
      = Inr (norm (LTable n es), rest)" using c(3) by (simp add: s_value_table)
qed (use c in \<open>simp_all add: TYPE_TABLE_def\<close>)

lemma meta_bytes_decode:
  assumes ok: "lua_ok (LMeta ps)" and bss: "list_all2 decodes bss (flat_pairs (meta_pairs ps))"
  shows "decodes (COMBINE_TYPE TYPE_TABLE 0 # concat bss @ [COMBINE_TYPE TYPE_NIL 0]) (LMeta ps)"
proof (rule decodesI)
  have low: "height x < height (LMeta ps)" if "x \<in> set (flat_pairs (meta_pairs ps))" for x
    using max_height_meta [of ps] height_less_max [OF that] by (metis le_less_trans)
  fix f rest assume f: "height (LMeta ps) \<le> f"
  have "s_body (s_one f) 0 (concat [] @ concat bss @ COMBINE_TYPE TYPE_NIL 0 # rest)
      = Inr (LTable 0 (zip (map (\<lambda>i. LInteger (int i)) [1..<0 + 1]) (map norm [])
          @ map (map_prod norm norm) (meta_pairs ps)), rest)"
    by (rule table_decodes [OF _ bss]) (use low f key_ok_pairs(2) [OF ok] in force)+
  then show "s_value (s_one f) ((concat bss @ [COMBINE_TYPE TYPE_NIL 0]) @ rest) TYPE_TABLE 0
      = Inr (norm (LMeta ps), rest)"
    by (simp add: s_value_table unpack_small_table norm_table del: norm.simps)
qed (simp_all add: TYPE_TABLE_def)

lemma appends_encode:
  "appends g bs \<Longrightarrow> decodes bs v \<Longrightarrow> wb_ok b \<Longrightarrow>
     \<exists>bs. wb_ok (g b) \<and> wb_bytes (g b) = wb_bytes b @ bs \<and> decodes bs v"
  by (auto simp: appends_def)

lemma pack_decodes:
  "wb_ok b \<Longrightarrow> lua_ok v \<Longrightarrow> pack_one v d b = Inr b' \<Longrightarrow>
     \<exists>bs. wb_ok b' \<and> wb_bytes b' = wb_bytes b @ bs \<and> decodes bs v"
  "wb_ok b \<Longrightarrow> \<forall>v \<in> set vs. lua_ok v \<Longrightarrow> pack_list vs d b = Inr b' \<Longrightarrow>
     \<exists>bss. wb_ok b' \<and> wb_bytes b' = wb_bytes b @ concat bss \<and> list_all2 decodes bss vs"
proof (induction v d b and vs d b arbitrary: b' and b' rule: pack_one_pack_list.induct)
  case (1 v d b)
  have d: "\<not> d > MAX_DEPTH" using "1.prems"(3) by (auto simp: pack_one.simps)
  show ?case
  proof (cases v)
    case (LTable n es)
    have ok: "lua_ok (LTable n es)" using "1.prems"(2) LTable by simp
    then have n: "i32 (int n) = int n" by simp
    from "1.prems"(3) d LTable obtain b1 b2 where
      b1: "pack_list (array_values n es) (d + 1) (wb_table_head (int n) b) = Inr b1"
      and b2: "pack_list (flat_pairs (hash_pairs n es)) (d + 1) b1 = Inr b2" and b': "b' = wb_nil b2"
      by (auto simp: pack_one.simps and_then_Inr_iff n)
    obtain c hd where c: "0 \<le> c" "c < 32" "appends (wb_table_head (int n)) (COMBINE_TYPE TYPE_TABLE c # hd)"
      "\<forall>U rest. s_table U (hd @ rest) c = s_body U n rest"
      using table_head [of n] ok by (auto simp: lua_ok_pairs)
    then have h: "wb_ok (wb_table_head (int n) b)" "wb_bytes (wb_table_head (int n) b) = wb_bytes b @ COMBINE_TYPE TYPE_TABLE c # hd"
      using "1.prems"(1) by (auto simp: appends_def)
    obtain bss1 where s1: "wb_ok b1" "wb_bytes b1 = wb_bytes (wb_table_head (int n) b) @ concat bss1"
      "list_all2 decodes bss1 (array_values n es)"
      using "1.IH"(1) [OF d LTable, unfolded n nat_int, OF h(1) _ b1] lua_ok_array_values [OF ok] by blast
    obtain bss2 where s2: "wb_ok b2" "wb_bytes b2 = wb_bytes b1 @ concat bss2"
      "list_all2 decodes bss2 (flat_pairs (hash_pairs n es))"
      using "1.IH"(2) [OF d LTable, unfolded n nat_int, OF s1(1) _ b2] lua_ok_flat_pairs(1) [OF ok] by blast
    have "wb_ok b'" "wb_bytes b'
        = wb_bytes b @ COMBINE_TYPE TYPE_TABLE c # hd @ concat bss1 @ concat bss2 @ [COMBINE_TYPE TYPE_NIL 0]"
      using s1 s2 h pack_nil(1) b' by (auto simp: appends_def)
    with table_bytes_decode [OF ok c(1,2,4) s1(3) s2(3)] LTable show ?thesis by blast
  next
    case (LMeta ps)
    from "1.prems"(3) d LMeta obtain b1 where
      b1: "pack_list (flat_pairs (meta_pairs ps)) (d + 1) (wb_push [COMBINE_TYPE TYPE_TABLE 0] b) = Inr b1"
      and b': "b' = wb_nil b1"
      by (auto simp: pack_one.simps and_then_Inr_iff)
    have ok: "lua_ok (LMeta ps)" using "1.prems"(2) LMeta by simp
    have h: "wb_ok (wb_push [COMBINE_TYPE TYPE_TABLE 0] b)" using "1.prems"(1) by simp
    obtain bss where s: "wb_ok b1" "wb_bytes b1 = wb_bytes (wb_push [COMBINE_TYPE TYPE_TABLE 0] b) @ concat bss"
      "list_all2 decodes bss (flat_pairs (meta_pairs ps))"
      using "1.IH"(3) [OF d LMeta h _ b1] lua_ok_flat_pairs(2) [OF ok] by blast
    have "wb_ok b'" "wb_bytes b' = wb_bytes b @ COMBINE_TYPE TYPE_TABLE 0 # concat bss @ [COMBINE_TYPE TYPE_NIL 0]"
      using s "1.prems"(1) pack_nil(1) b' by (auto simp: appends_def)
    with meta_bytes_decode [OF ok s(3)] LMeta show ?thesis by blast
  qed (use "1.prems" d pack_nil pack_integer pack_real pack_pointer pack_boolean pack_string appends_encode
      in \<open>fastforce simp: pack_one.simps\<close>)+
next
  case (3 v vs d b)
  from "3.prems"(3) obtain b1 where b1: "pack_one v d b = Inr b1" "pack_list vs d b1 = Inr b'"
    by (auto simp: and_then_Inr_iff)
  from "3.IH"(1) [OF "3.prems"(1) _ b1(1)] "3.prems"(2) obtain bs where
    bs: "wb_ok b1" "wb_bytes b1 = wb_bytes b @ bs" "decodes bs v" by auto
  from "3.IH"(2) [OF bs(1) _ b1(2)] "3.prems"(2) obtain bss where
    "wb_ok b'" "wb_bytes b' = wb_bytes b1 @ concat bss" "list_all2 decodes bss vs" by auto
  with bs show ?case by (intro exI [of _ "bs # bss"]) simp
qed simp

subsection \<open>The unpacker always stops\<close>

definition shrinks :: "(byte list \<Rightarrow> (lua_value \<times> byte list) lua_result) \<Rightarrow> bool" where
  "shrinks U \<longleftrightarrow> (\<forall>x v y. U x = Inr (v, y) \<longrightarrow> length y < length x)"

lemma s_read_Inr: "s_read rb n = Inr (p, rb') \<Longrightarrow> length rb' + nat n = length rb"
  by (auto simp: s_read_def split: if_splits)

lemma get_shrinks:
  "s_integer rb c = Inr (n, rb') \<Longrightarrow> length rb' \<le> length rb"
  "s_real rb = Inr (r, rb') \<Longrightarrow> length rb' \<le> length rb"
  "s_pointer rb = Inr (p, rb') \<Longrightarrow> length rb' \<le> length rb"
  "s_buffer rb k = Inr (s, rb') \<Longrightarrow> length rb' \<le> length rb"
  by (auto simp: s_integer_def s_real_def s_pointer_def s_buffer_def and_then_Inr_iff
      split: if_splits dest!: s_read_Inr)

lemma s_array_shrinks:
  "shrinks U \<Longrightarrow> s_array U n rb = Inr (vs, rb') \<Longrightarrow> length rb' \<le> length rb"
proof (induction n arbitrary: rb vs)
  case (Suc n)
  from Suc.prems(2) obtain v rb1 vs' where
    r: "U rb = Inr (v, rb1)" "s_array U n rb1 = Inr (vs', rb')" by (auto simp: and_then_Inr_iff)
  from Suc.prems(1) r(1) have "length rb1 < length rb" by (simp add: shrinks_def)
  with Suc.IH [OF Suc.prems(1) r(2)] show ?case by simp
qed simp

lemma s_pairs_step:
  assumes "s_pairs U (Suc n) rb = Inr (ps, rb')"
  obtains (stop) "U rb = Inr (LNil, rb')" "ps = []"
  | (pair) k v rb1 rb2 ps' where "U rb = Inr (k, rb1)" "U rb1 = Inr (v, rb2)" "s_pairs U n rb2 = Inr (ps', rb')"
  using assms by (auto simp: and_then_Inr_iff split: if_splits)

lemma s_pairs_shrinks:
  "shrinks U \<Longrightarrow> s_pairs U n rb = Inr (ps, rb') \<Longrightarrow> length rb' < length rb"
proof (induction n arbitrary: rb ps)
  case (Suc n)
  from Suc.prems(2) show ?case
  proof (cases rule: s_pairs_step)
    case stop
    with Suc.prems(1) show ?thesis by (simp add: shrinks_def)
  next
    case (pair k v rb1 rb2 ps')
    with Suc.prems(1) have "length rb1 < length rb" "length rb2 < length rb1" unfolding shrinks_def by blast+
    with Suc.IH [OF Suc.prems(1) pair(3)] show ?thesis by simp
  qed
qed simp

lemma s_size_shrinks: "s_size rb c = Inr (n, rb') \<Longrightarrow> length rb' \<le> length rb"
  by (auto simp: s_size_def and_then_Inr_iff Let_def split: if_splits dest!: get_shrinks(1) s_read_Inr)

lemma s_table_shrinks:
  assumes "shrinks U" "s_table U rb c = Inr (v, rb')"
  shows "length rb' \<le> length rb"
proof -
  from assms(2) obtain n rb1 where n: "s_size rb c = Inr (n, rb1)" "s_body U (nat n) rb1 = Inr (v, rb')"
    by (auto simp: s_table_def and_then_Inr_iff)
  have "length rb1 \<le> length rb" by (rule s_size_shrinks [OF n(1)])
  moreover from n(2) obtain vs rb2 ps where r: "s_array U (nat n) rb1 = Inr (vs, rb2)"
    "s_pairs U (Suc (length rb2)) rb2 = Inr (ps, rb')"
    by (auto simp: s_body_def and_then_Inr_iff simp del: s_pairs.simps)
  ultimately show ?thesis
    using s_array_shrinks [OF assms(1) r(1)] s_pairs_shrinks [OF assms(1) r(2)] by simp
qed

lemma s_value_shrinks:
  assumes "shrinks U" "s_value U rb t c = Inr (v, rb')"
  shows "length rb' \<le> length rb"
  using assms(2) s_table_shrinks [OF assms(1)]
  by (auto simp: s_value_def and_then_Inr_iff split: if_splits dest: get_shrinks)
    (metis get_shrinks(4) le_add1 le_trans s_read_Inr)+

lemma s_one_shrinks: "shrinks (s_one f)"
proof (induction f)
  case (Suc f)
  show ?case unfolding shrinks_def
  proof (intro allI impI)
    fix x v y assume "s_one (Suc f) x = Inr (v, y)"
    then obtain t x' where "s_read x 1 = Inr (t, x')"
      "s_value (s_one f) x' (uint (hd t AND 7)) (uint (drop_bit 3 (hd t))) = Inr (v, y)"
      by (auto simp: and_then_Inr_iff)
    with s_value_shrinks [OF Suc] s_read_Inr [of x 1] show "length y < length x" by fastforce
  qed
qed (simp add: shrinks_def)

lemma and_then_cong2:
  "r = r' \<Longrightarrow> (\<And>x. r = Inr x \<Longrightarrow> g x = h x) \<Longrightarrow> and_then r g = and_then r' h"
  by (cases r) auto

lemma no_fuel_reads [simp]:
  "s_read rb n \<noteq> Inl Out_of_fuel" "s_integer rb c \<noteq> Inl Out_of_fuel" "s_real rb \<noteq> Inl Out_of_fuel"
  "s_pointer rb \<noteq> Inl Out_of_fuel" "s_buffer rb n \<noteq> Inl Out_of_fuel" "s_size rb c \<noteq> Inl Out_of_fuel"
proof -
  show rd [simp]: "s_read rb n \<noteq> Inl Out_of_fuel" for rb n by (simp add: s_read_def)
  show gi [simp]: "s_integer rb c \<noteq> Inl Out_of_fuel" for rb c
    by (auto simp: s_integer_def and_then_Inl_iff)
  show "s_real rb \<noteq> Inl Out_of_fuel" "s_pointer rb \<noteq> Inl Out_of_fuel" "s_buffer rb n \<noteq> Inl Out_of_fuel"
    by (auto simp: s_real_def s_pointer_def s_buffer_def and_then_Inl_iff)
  show "s_size rb c \<noteq> Inl Out_of_fuel"
    by (auto simp: s_size_def and_then_Inl_iff Let_def)
qed

text \<open>Two unpackers that agree on the inputs that are not longer than \<open>rb\<close> agree on the
  values in \<open>rb\<close>.\<close>

definition agree :: "nat \<Rightarrow> (byte list \<Rightarrow> (lua_value \<times> byte list) lua_result)
    \<Rightarrow> (byte list \<Rightarrow> (lua_value \<times> byte list) lua_result) \<Rightarrow> bool" where
  "agree k U U' \<longleftrightarrow> shrinks U \<and> (\<forall>x. length x \<le> k \<longrightarrow> U x = U' x)"

lemma agree_step:
  assumes "agree k U U'" "length rb \<le> k"
  obtains (err) e where "U rb = Inl e" "U' rb = Inl e"
  | (ok) v rb1 where "U rb = Inr (v, rb1)" "U' rb = Inr (v, rb1)" "length rb1 \<le> k"
proof (cases "U rb")
  case (Inl e)
  with assms err show ?thesis by (simp add: agree_def)
next
  case (Inr x)
  obtain v rb1 where x: "x = (v, rb1)" by (cases x)
  with Inr assms have "length rb1 < length rb" unfolding agree_def shrinks_def by blast
  with Inr x assms ok show ?thesis by (simp add: agree_def)
qed

lemma s_array_agree:
  "agree k U U' \<Longrightarrow> length rb \<le> k \<Longrightarrow> s_array U n rb = s_array U' n rb"
proof (induction n arbitrary: rb)
  case (Suc n)
  from Suc.prems show ?case
    by (cases rule: agree_step) (use Suc.IH [OF Suc.prems(1)] in simp_all)
qed simp

lemma s_pairs_agree:
  "agree k U U' \<Longrightarrow> length rb \<le> k \<Longrightarrow> s_pairs U n rb = s_pairs U' n rb"
proof (induction n arbitrary: rb)
  case (Suc n)
  from Suc.prems show ?case
  proof (cases rule: agree_step)
    case (ok key rb1)
    from Suc.prems(1) ok(3) show ?thesis
      by (cases rule: agree_step) (use ok Suc.IH [OF Suc.prems(1)] in simp_all)
  qed simp
qed simp

lemma s_value_agree:
  assumes "agree (length rb) U U'"
  shows "s_value U rb t c = s_value U' rb t c"
proof -
  have "s_body U n rb1 = s_body U' n rb1" if "length rb1 \<le> length rb" for n rb1
    unfolding s_body_def
  proof (rule and_then_cong2 [OF s_array_agree [OF assms that]])
    fix x assume x: "s_array U n rb1 = Inr x"
    obtain vs rb2 where "x = (vs, rb2)" by (cases x)
    with x assms that have "length rb2 \<le> length rb" using s_array_shrinks [of U n rb1 vs rb2]
      by (simp add: agree_def)
    then show "(case x of (vs, rb2) \<Rightarrow> and_then (s_pairs U (Suc (length rb2)) rb2)
          (\<lambda>(ps, rb3). Inr (LTable n (zip (map (\<lambda>i. LInteger (int i)) [1..<n + 1]) vs @ ps), rb3)))
        = (case x of (vs, rb2) \<Rightarrow> and_then (s_pairs U' (Suc (length rb2)) rb2)
          (\<lambda>(ps, rb3). Inr (LTable n (zip (map (\<lambda>i. LInteger (int i)) [1..<n + 1]) vs @ ps), rb3)))"
      using s_pairs_agree [OF assms] \<open>x = (vs, rb2)\<close> by (simp only: prod.case)
  qed
  then have "s_table U rb c = s_table U' rb c"
    unfolding s_table_def using s_size_shrinks by (intro and_then_cong2) auto
  then show ?thesis by (simp add: s_value_def)
qed

lemma s_one_fuel:
  "length rb < f \<Longrightarrow> length rb < g \<Longrightarrow> s_one f rb = s_one g rb"
proof (induction f arbitrary: g rb)
  case (Suc f)
  then obtain g' where g: "g = Suc g'" by (cases g) auto
  show ?case
  proof (cases rb)
    case (Cons b rb')
    have "agree (length rb') (s_one f) (s_one g')"
      using Suc.IH Suc.prems g Cons s_one_shrinks by (auto simp: agree_def)
    then show ?thesis using s_value_agree g Cons by simp
  qed (simp add: g)
qed simp






lemma s_value_unpack_one:
  "s_value (s_one f) rb (uint (b AND 7)) (uint (drop_bit 3 b)) = s_one (Suc f) (b # rb)"
  by simp


lemma s_loop_decodes:
  "list_all2 decodes bss vs \<Longrightarrow> length (concat bss) < f \<Longrightarrow> s_loop f (concat bss) = Inr (map norm vs)"
proof (induction bss vs arbitrary: f rule: list_all2_induct)
  case Nil
  then show ?case by (cases f) simp_all
next
  case (Cons bs bss v vs)
  then obtain f' b bs' where f: "f = Suc f'" and bs: "bs = b # bs'" using decodes_nonempty by (cases f; cases bs) auto
  let ?rb = "concat (bs # bss)"
  have "s_one (Suc (length ?rb)) ?rb = s_one (Suc (length ?rb + height v)) ?rb"
    by (rule s_one_fuel) simp_all
  also have "\<dots> = Inr (norm v, concat bss)" using Cons.hyps(1) by (simp add: decodes_def del: s_one.simps)
  finally have "s_value (s_one (length ?rb)) (tl ?rb) (uint (hd ?rb AND 7)) (uint (drop_bit 3 (hd ?rb)))
      = Inr (norm v, concat bss)"
    using bs s_value_unpack_one [of "length ?rb" "bs' @ concat bss" b] by (simp del: s_one.simps)
  moreover have "?rb \<noteq> []" using bs by simp
  moreover have "s_loop f' (concat bss) = Inr (map norm vs)" using Cons f bs by simp
  ultimately show ?case using f by (simp del: s_one.simps)
qed

subsection \<open>The unpacker refines the decoder\<close>

definition rb_ok :: "read_block \<Rightarrow> bool" where
  "rb_ok rb \<longleftrightarrow> 0 \<le> rb_ptr rb \<and> 0 \<le> rb_len rb \<and> rb_ptr rb + rb_len rb \<le> int (length (rb_buffer rb))"

definition left :: "read_block \<Rightarrow> byte list" where
  "left rb = take (nat (rb_len rb)) (drop (nat (rb_ptr rb)) (rb_buffer rb))"

definition refines :: "('a \<times> read_block) lua_result \<Rightarrow> ('a \<times> byte list) lua_result \<Rightarrow> bool" where
  "refines r s \<longleftrightarrow> (case r of Inl e \<Rightarrow> s = Inl e | Inr (x, rb) \<Rightarrow> rb_ok rb \<and> s = Inr (x, left rb))"

definition reader_refines :: "(read_block \<Rightarrow> ('a \<times> read_block) lua_result) \<Rightarrow> (byte list \<Rightarrow> ('a \<times> byte list) lua_result) \<Rightarrow> bool" where
  "reader_refines U S \<longleftrightarrow> (\<forall>rb. rb_ok rb \<longrightarrow> refines (U rb) (S (left rb)))"

lemma refines_simps [simp]: "refines (Inl e) s \<longleftrightarrow> s = Inl e" "refines (Inr (x, rb)) s \<longleftrightarrow> rb_ok rb \<and> s = Inr (x, left rb)"
  by (simp_all add: refines_def)

lemma refines_bind:
  assumes "refines r s" and "\<And>x rb. rb_ok rb \<Longrightarrow> refines (f (x, rb)) (g (x, left rb))"
  shows "refines (and_then r f) (and_then s g)"
  using assms by (cases r) auto

lemma left_length: "rb_ok rb \<Longrightarrow> int (length (left rb)) = rb_len rb"
  by (auto simp: rb_ok_def left_def)

lemma fetch_refines:
  assumes "rb_ok rb" and "0 \<le> n"
  shows "refines (rb_fetch rb n) (s_read (left rb) n)"
proof (cases "rb_len rb < n")
  case True
  then show ?thesis using left_length [OF assms(1)] by (simp add: rb_fetch_def rb_read_def s_read_def)
next
  case False
  let ?rb = "rb\<lparr>rb_ptr := rb_ptr rb + n, rb_len := rb_len rb - n\<rparr>"
  have b: "0 \<le> rb_ptr rb" "rb_ptr rb + n \<le> int (length (rb_buffer rb))" using assms False by (auto simp: rb_ok_def)
  have "left ?rb = drop (nat n) (left rb)"
    using assms(2) b False by (simp add: left_def drop_take nat_diff_distrib nat_add_distrib add.commute)
  moreover have "take (nat n) (drop (nat (rb_ptr rb)) (rb_buffer rb)) = take (nat n) (left rb)"
    using False assms(2) by (simp add: left_def min_def nat_le_eq_zle)
  moreover have "rb_ok ?rb" using assms False by (simp add: rb_ok_def)
  ultimately show ?thesis
    using False assms(2) b left_length [OF assms(1)] by (simp add: rb_fetch_def rb_read_def s_read_def bytes_at_def)
qed

lemma fetch_bind:
  "rb_ok rb \<Longrightarrow> 0 \<le> n \<Longrightarrow> (\<And>x rb. rb_ok rb \<Longrightarrow> refines (f (x, rb)) (g (x, left rb))) \<Longrightarrow>
   refines (and_then (rb_fetch rb n) f) (and_then (s_read (left rb) n) g)"
  by (rule refines_bind [OF fetch_refines])

lemma get_refines:
  assumes "rb_ok rb"
  shows "refines (get_integer rb c) (s_integer (left rb) c)"
    and "refines (get_real rb) (s_real (left rb))" and "refines (get_pointer rb) (s_pointer (left rb))"
  using assms by (auto simp: get_integer_def s_integer_def get_real_def s_real_def get_pointer_def s_pointer_def
      intro!: fetch_bind)

lemma too_big: "- (2 ^ 31) \<le> n \<Longrightarrow> n < 2 ^ 31 \<Longrightarrow> (word_of_int n :: u64) > 40 \<and> word_of_int n \<ge> MAX_SIZE - 24 \<longleftrightarrow> n < 0"
proof -
  assume n: "- (2 ^ 31) \<le> n" "n < 2 ^ 31"
  have "uint (word_of_int n :: u64) = (if n < 0 then 2 ^ 64 + n else n)"
  proof (cases "n < 0")
    case True
    then have "n mod 2 ^ 64 = (2 ^ 64 + n) mod 2 ^ 64" by simp
    also have "\<dots> = 2 ^ 64 + n" using True n by (intro mod_pos_pos_trivial) simp_all
    finally show ?thesis using True by (simp add: uint_word_of_int)
  qed (use n in \<open>simp add: uint_word_of_int\<close>)
  then show ?thesis using n by (simp add: word_less_def word_le_def MAX_SIZE_def)
qed

lemma buffer_refines:
  assumes "rb_ok rb" and "- (2 ^ 31) \<le> n" "n < 2 ^ 31"
  shows "refines (get_buffer rb n) (s_buffer (left rb) n)"
proof (cases "0 \<le> n")
  case True
  then have "get_buffer rb n = and_then (rb_fetch rb n) (\<lambda>(p, rb'). Inr (LString p, rb'))"
    using too_big [OF assms(2,3)] assms(2,3)
    by (auto simp: get_buffer_def rb_fetch_def luaS_newlstr_def uint_word_of_int and_then_def split: sum.splits option.splits prod.splits)
  then show ?thesis using assms(1) True by (auto simp: s_buffer_def intro!: fetch_bind)
next
  case False
  then show ?thesis
    using too_big [OF assms(2,3)] assms(1) left_length [OF assms(1)]
    by (auto simp: get_buffer_def luaS_newlstr_def s_buffer_def s_read_def rb_read_def rb_ok_def)
qed

lemma array_refines:
  "reader_refines U S \<Longrightarrow> rb_ok rb \<Longrightarrow> refines (unpack_array U n rb) (s_array S n (left rb))"
proof (induction n arbitrary: rb)
  case (Suc n)
  have "refines (U rb) (S (left rb))" using Suc.prems by (simp add: reader_refines_def)
  with Suc show ?case by (auto intro!: refines_bind)
qed simp

lemma pairs_refines:
  "reader_refines U S \<Longrightarrow> rb_ok rb \<Longrightarrow> refines (unpack_pairs U n rb) (s_pairs S n (left rb))"
proof (induction n arbitrary: rb)
  case (Suc n)
  have U: "refines (U rb) (S (left rb))" if "rb_ok rb" for rb using Suc.prems(1) that by (simp add: reader_refines_def)
  have "refines (and_then (unpack_pairs U n rb2) (\<lambda>(ps, rb3). Inr ((k, v) # ps, rb3)))
      (and_then (s_pairs S n (left rb2)) (\<lambda>(ps, rb3). Inr ((k, v) # ps, rb3)))" if "rb_ok rb2" for rb2 k v
    using Suc.IH [OF Suc.prems(1) that] by (auto intro!: refines_bind)
  then show ?case using U Suc.prems(2) by (auto intro!: refines_bind)
qed simp

lemma size_refines: "rb_ok rb \<Longrightarrow> refines (table_size rb c) (s_size (left rb) c)"
  by (auto simp: table_size_def s_size_def Let_def intro!: refines_bind fetch_refines get_refines)

lemma body_refines:
  assumes "reader_refines U S" and "rb_ok rb"
  shows "refines (unpack_body U n rb) (s_body S n (left rb))"
proof -
  have "refines (unpack_pairs U (Suc (nat (rb_len rb2))) rb2) (s_pairs S (Suc (length (left rb2))) (left rb2))"
    if "rb_ok rb2" for rb2
  proof -
    have "nat (rb_len rb2) = length (left rb2)" using left_length [OF that] by simp
    then show ?thesis using pairs_refines [OF assms(1) that, of "Suc (length (left rb2))"] by (simp only:)
  qed
  then show ?thesis
    using array_refines [OF assms]
    by (auto simp: unpack_body_def s_body_def simp del: unpack_pairs.simps s_pairs.simps intro!: refines_bind)
qed

lemma long_length_range: "- (2 ^ 31) \<le> signed_take_bit 31 k" "signed_take_bit 31 k < 2 ^ 31" for k :: int
  using signed_take_bit_int_greater_eq_minus_exp [of 31 k] signed_take_bit_int_less_exp [of 31 k] by simp_all

lemma fetch_length: "rb_fetch rb n = Inr (bs, rb') \<Longrightarrow> 0 \<le> n \<Longrightarrow> length bs = nat n"
  by (auto simp: rb_fetch_def rb_read_def bytes_at_def split: if_splits)

lemma value_refines:
  assumes "reader_refines U S" and "rb_ok rb" and c: "0 \<le> c" "c < 32"
  shows "refines (push_value U rb t c) (s_value S (left rb) t c)"
proof -
  have tab: "refines (unpack_table U rb c) (s_table S (left rb) c)"
    unfolding unpack_table_def s_table_def using size_refines [OF assms(2)] body_refines [OF assms(1)] by (auto intro!: refines_bind)
  have two: "refines (and_then (rb_fetch rb 2) (\<lambda>(plen, rb'). get_buffer rb' (le_value plen)))
      (and_then (s_read (left rb) 2) (\<lambda>(plen, rb'). s_buffer rb' (le_value plen)))"
  proof (cases "rb_fetch rb 2")
    case (Inr x)
    obtain bs rb1 where x: "x = (bs, rb1)" by (cases x)
    have "length bs = 2" using fetch_length [of rb 2 bs rb1] Inr x by simp
    then have "0 \<le> le_value bs" "le_value bs < 2 ^ 16" using le_value_bounds [of bs] by simp_all
    then have "refines (get_buffer rb1 (le_value bs)) (s_buffer (left rb1) (le_value bs))" if "rb_ok rb1"
      using buffer_refines [OF that, of "le_value bs"] by simp
    then show ?thesis using fetch_refines [OF assms(2), of 2] Inr x by simp
  qed (use fetch_refines [OF assms(2), of 2] in simp)
  have four: "refines (and_then (rb_fetch rb 4) (\<lambda>(plen, rb'). get_buffer rb' (signed_take_bit 31 (le_value plen))))
      (and_then (s_read (left rb) 4) (\<lambda>(plen, rb'). s_buffer rb' (signed_take_bit 31 (le_value plen))))"
    by (rule refines_bind) (simp_all add: fetch_refines assms(2) buffer_refines [OF _ long_length_range])
  have short: "refines (get_buffer rb c) (s_buffer (left rb) c)"
    using buffer_refines [OF assms(2), of c] c by simp
  have "refines (and_then (get_real rb) (\<lambda>(r, rb'). Inr (LReal r, rb'))) (and_then (s_real (left rb)) (\<lambda>(r, rb'). Inr (LReal r, rb')))"
    "refines (and_then (get_integer rb c) (\<lambda>(n, rb'). Inr (LInteger n, rb'))) (and_then (s_integer (left rb) c) (\<lambda>(n, rb'). Inr (LInteger n, rb')))"
    "refines (and_then (get_pointer rb) (\<lambda>(p, rb'). Inr (LPointer p, rb'))) (and_then (s_pointer (left rb)) (\<lambda>(p, rb'). Inr (LPointer p, rb')))"
    using get_refines [OF assms(2)] by (auto intro!: refines_bind)
  then show ?thesis
    using assms(2) tab two four short by (simp add: push_value_def s_value_def)
qed

lemma tag_range: "0 \<le> uint (drop_bit 3 (b :: byte))" "uint (drop_bit 3 (b :: byte)) < 32"
proof -
  show "uint (drop_bit 3 b) < 32" using unsigned_less [of b, where 'a = int] by (simp add: uint_drop_bit)
qed simp

lemma one_refines: "reader_refines (unpack_one f) (s_one f)"
proof (induction f)
  case (Suc f)
  show ?case
    unfolding reader_refines_def unpack_one.simps s_one.simps
    by (intro allI impI refines_bind fetch_refines) (simp_all add: value_refines [OF Suc _ tag_range])
qed (simp add: reader_refines_def)

lemma loop_refines: "rb_ok rb \<Longrightarrow> unpack_loop f rb = s_loop f (left rb)"
proof (induction f arbitrary: rb)
  case (Suc f)
  show ?case
  proof (cases "left rb")
    case Nil
    then have "rb_len rb = 0" using left_length [OF Suc.prems] by simp
    then show ?thesis using Nil by (simp add: rb_read_def)
  next
    case (Cons b bs)
    then have len: "rb_len rb = int (length bs) + 1" using left_length [OF Suc.prems] by simp
    have "refines (rb_fetch rb 1) (Inr ([b], bs))" using fetch_refines [OF Suc.prems, of 1] Cons by simp
    then obtain rb1 where rb1: "rb_fetch rb 1 = Inr ([b], rb1)" "rb_ok rb1" "left rb1 = bs"
      by (auto simp: refines_def split: sum.splits)
    obtain p where p: "rb_read rb 1 = (Some p, rb1)" "bytes_at rb1 p 1 = Inr [b]"
      using rb1(1) len by (auto simp: rb_fetch_def rb_read_def and_then_Inr_iff)
    let ?r = "push_value (unpack_one (nat (rb_len rb))) rb1 (uint (b AND 7)) (uint (drop_bit 3 b))"
    have "refines ?r (s_value (s_one (length (left rb))) (left rb1) (uint (b AND 7)) (uint (drop_bit 3 b)))"
      using value_refines [OF one_refines rb1(2) tag_range] len Cons by (simp add: nat_add_distrib)
    then show ?thesis
      using p rb1(3) Cons Suc.IH by (cases ?r) auto
  qed
qed simp

subsection \<open>Nesting\<close>












subsection \<open>Errors of the unpacker\<close>

text \<open>The errors that malformed bytes can cause, each of them a Lua error.\<close>

definition stream_errors :: "seri_error set" where
  "stream_errors = {Invalid_stream, Bad_key, Block_too_big}"

definition stream_safe :: "'a lua_result \<Rightarrow> bool" where
  "stream_safe r \<longleftrightarrow> (case r of Inl e \<Rightarrow> e \<in> insert Out_of_fuel stream_errors | Inr x \<Rightarrow> True)"

lemma stream_safe_bind: "stream_safe r \<Longrightarrow> (\<And>x. stream_safe (f x)) \<Longrightarrow> stream_safe (and_then r f)"
  by (cases r) (simp_all add: stream_safe_def)

lemma stream_safe_simps [simp]: "stream_safe (Inr x)" "stream_safe (Inl Invalid_stream)" "stream_safe (Inl Bad_key)"
    "stream_safe (Inl Block_too_big)" "stream_safe (Inl Out_of_fuel)"
  by (simp_all add: stream_safe_def stream_errors_def)

lemma s_read_safe [simp]: "stream_safe (s_read rb n)"
  by (simp add: s_read_def)

lemma s_get_safe [simp]: "stream_safe (s_integer rb c)" "stream_safe (s_real rb)" "stream_safe (s_pointer rb)"
    "stream_safe (s_buffer rb n)" "stream_safe (s_size rb c)"
  by (auto simp: s_integer_def s_real_def s_pointer_def s_buffer_def s_size_def Let_def intro!: stream_safe_bind)







lemma unpack_eq:
  assumes "0 < len" and "len \<le> int (length b)"
  shows "luaseri_unpack (Some b) len = s_loop (Suc (nat len)) (take (nat len) b)"
proof -
  have "rb_ok (rball_init b len)" "left (rball_init b len) = take (nat len) b"
    using assms by (simp_all add: rb_ok_def rball_init_def left_def)
  with assms(1) loop_refines [of "rball_init b len" "Suc (nat len)"] show ?thesis
    by (simp add: luaseri_unpack_def del: unpack_loop.simps s_loop.simps)
qed

lemma pack_unpack:
  assumes ok: "\<forall>v \<in> set vs. lua_ok v" and wb: "pack_from vs wb_init = Inr wb" and len: "length (wb_bytes wb) < 2 ^ 31"
  shows "luaseri_pack vs = Inr (Some (wb_bytes wb))"
    and "luaseri_unpack (Some (wb_bytes wb)) (int (length (wb_bytes wb))) = Inr (map norm vs)"
proof -
  obtain bss where bss: "wb_ok wb" "wb_bytes wb = concat bss" "list_all2 decodes bss vs"
    using pack_decodes(2) [OF wb_init_ok(1) ok] wb by (auto simp: pack_from_def)
  show "luaseri_pack vs = Inr (Some (wb_bytes wb))"
    using wb seri_wb [OF bss(1) len] by (simp add: luaseri_pack_def)
  have loop: "s_loop (Suc (length (concat bss))) (concat bss) = Inr (map norm vs)"
    by (rule s_loop_decodes [OF bss(3)]) simp
  show "luaseri_unpack (Some (wb_bytes wb)) (int (length (wb_bytes wb))) = Inr (map norm vs)"
  proof (cases "wb_bytes wb = []")
    case True
    then have "map norm vs = []" using loop bss(2) by simp
    with True show ?thesis by (simp add: luaseri_unpack_def)
  next
    case False
    then show ?thesis
      using unpack_eq [of "int (length (wb_bytes wb))" "wb_bytes wb"] loop bss(2)
      by (simp del: s_loop.simps concat_eq_Nil_conv)
  qed
qed

subsection \<open>Tables\<close>

definition rawget :: "lua_value \<Rightarrow> lua_value \<Rightarrow> lua_value" where
  "rawget t k = (case t of LTable n es \<Rightarrow> (case map_of es k of None \<Rightarrow> LNil | Some v \<Rightarrow> v) | _ \<Rightarrow> LNil)"

lemma norm_leaf_iff: "height k = 0 \<Longrightarrow> norm k0 = k \<longleftrightarrow> k0 = k"
  by (cases k; cases k0) (auto simp: Let_def)

lemma norm_leaf_iff_sym: "height k = 0 \<Longrightarrow> k = norm k0 \<longleftrightarrow> k = k0"
  using norm_leaf_iff [of k k0] by auto

lemma map_of_hash_pairs:
  "\<not> in_array n k \<Longrightarrow> map_of (hash_pairs n es) k = map_of es k"
  by (induction es) (auto simp: hash_pairs_def)

lemma map_of_norm:
  "height k = 0 \<Longrightarrow> map_of (map (map_prod norm norm) es) k = map_option norm (map_of es k)"
  by (induction es) (auto simp: norm_leaf_iff_sym)

lemma map_of_array_part:
  "length vs = n \<Longrightarrow> map_of (zip (map (\<lambda>i. LInteger (int i)) [1..<n + 1]) vs) k
     = (case k of LInteger x \<Rightarrow> if 0 < x \<and> x \<le> int n then Some (vs ! nat (x - 1)) else None | _ \<Rightarrow> None)"
proof -
  assume len: "length vs = n"
  let ?ks = "map (\<lambda>i. LInteger (int i)) [1..<n + 1]"
  have dist: "distinct ?ks" by (simp add: distinct_map inj_on_def del: upt_Suc)
  have set: "set ?ks = {LInteger x |x. 0 < x \<and> x \<le> int n}"
  proof (intro set_eqI iffI)
    fix v assume "v \<in> {LInteger x |x. 0 < x \<and> x \<le> int n}"
    then obtain x where x: "v = LInteger x" "0 < x" "x \<le> int n" by auto
    then have "v = LInteger (int (nat x))" "nat x \<in> set [1..<n + 1]" by auto
    then show "v \<in> set ?ks" unfolding set_map by blast
  qed (auto simp del: upt_Suc)
  have at: "map_of (zip ?ks vs) (LInteger x) = Some (vs ! nat (x - 1))" if x: "0 < x" "x \<le> int n" for x
  proof -
    have "map_of (zip ?ks vs) (?ks ! nat (x - 1)) = Some (vs ! nat (x - 1))"
      by (rule map_of_zip_nth [OF _ dist]) (use len x in simp_all)
    moreover have "?ks ! nat (x - 1) = LInteger x"
      using x nth_upt [of 1 "nat (x - 1)" "n + 1"] by (simp del: upt_Suc)
    ultimately show ?thesis by simp
  qed
  have out: "map_of (zip ?ks vs) v = None" if "v \<notin> set ?ks" for v
    using that len by (simp add: map_of_zip_is_None del: upt_Suc)
  show ?thesis
    by (cases k) (use at out set in \<open>auto simp del: upt_Suc\<close>)
qed

lemma rawget_norm:
  assumes "height k = 0"
  shows "rawget (norm (LTable n es)) k = norm (rawget (LTable n es) k)"
proof -
  let ?vs = "map norm (array_values n es)"
  have len: "length ?vs = n" by (simp add: array_values_def)
  have entries: "norm (LTable n es) = LTable n (zip (map (\<lambda>i. LInteger (int i)) [1..<n + 1]) ?vs
      @ hash_pairs n (map (map_prod norm norm) es))"
    by (simp only: norm_table hash_pairs_norm)
  show ?thesis
  proof (cases "in_array n k")
    case True
    then obtain x where x: "k = LInteger x" "0 < x" "x \<le> int n" by (cases k) auto
    then have "map_of (zip (map (\<lambda>i. LInteger (int i)) [1..<n + 1]) ?vs) k = Some (?vs ! nat (x - 1))"
      using map_of_array_part [OF len] by simp
    moreover have "?vs ! nat (x - 1) = norm (lua_rawgeti es x)"
      using x nth_upt [of 1 "nat (x - 1)" "n + 1"] by (simp add: array_values_def del: upt_Suc)
    ultimately show ?thesis
      unfolding entries rawget_def using x by (auto simp: lua_rawgeti_def map_add_def split: option.splits)
  next
    case False
    then have "map_of (zip (map (\<lambda>i. LInteger (int i)) [1..<n + 1]) ?vs) k = None"
      using map_of_array_part [OF len, of k] by (cases k) auto
    with False show ?thesis
      unfolding entries rawget_def
      by (simp add: map_add_def map_of_hash_pairs map_of_norm [OF assms] split: option.splits del: upt_Suc)
  qed
qed

subsection \<open>Properties of the serialiser\<close>

text \<open>C17. Packing and unpacking is a round trip. Let the packer accept a sequence of Lua values
  and write fewer than \<open>2 ^ 31\<close> bytes, the range of its \<open>int\<close> length. Then the block chain is
  copied out completely, and unpacking the buffer returns the same sequence, where a table
  comes back with its array part in front and a table that is enumerated by \<open>__pairs\<close> comes
  back as a plain table.\<close>

theorem seri_roundtrip:
  assumes "\<forall>v \<in> set vs. lua_ok v" and "pack_from vs wb_init = Inr wb" and "length (wb_bytes wb) < 2 ^ 31"
  shows "\<exists>bs. luaseri_pack vs = Inr (Some bs) \<and> bs = wb_bytes wb
    \<and> luaseri_unpack (Some bs) (int (length bs)) = Inr (map norm vs)"
  using pack_unpack [OF assms] by blast

definition seri_example :: "lua_value list" where
  "seri_example = [LInteger 70000, LTable 1 [(LString [97], LBoolean True), (LInteger 1, LInteger (- 5))], LNil]"

lemma seri_example_ok: "\<forall>v \<in> set seri_example. lua_ok v"
  by (simp add: seri_example_def)

lemma seri_example_pack:
  obtains wb where "pack_from seri_example wb_init = Inr wb" "length (wb_bytes wb) < 2 ^ 31"
proof -
  have "case pack_from seri_example wb_init of Inr r \<Rightarrow> length (wb_bytes r) < 100 | Inl e \<Rightarrow> False" by code_simp
  then show ?thesis using that by (auto split: sum.splits)
qed

theorem seri_roundtrip_witness:
  "\<exists>bs. luaseri_pack seri_example = Inr (Some bs) \<and> luaseri_unpack (Some bs) (int (length bs))
     = Inr [LInteger 70000, LTable 1 [(LInteger 1, LInteger (- 5)), (LString [97], LBoolean True)], LNil]"
proof -
  obtain wb where "pack_from seri_example wb_init = Inr wb" "length (wb_bytes wb) < 2 ^ 31" by (rule seri_example_pack)
  from seri_roundtrip [OF seri_example_ok this] show ?thesis
    by (auto simp: seri_example_def array_values_def lua_rawgeti_def hash_pairs_def)
qed

text \<open>C18. A table that went through the serialiser still has the same content. When a table is
  packed into fewer than \<open>2 ^ 31\<close> bytes, unpacking the buffer yields one table, in which looking
  up any key that is not itself a table gives the (converted) value that was there, and nil
  where there was none.\<close>

theorem seri_table_same:
  assumes "lua_ok (LTable n es)" and "pack_from [LTable n es] wb_init = Inr wb" and "length (wb_bytes wb) < 2 ^ 31"
  shows "\<exists>bs t. luaseri_pack [LTable n es] = Inr (Some bs) \<and> luaseri_unpack (Some bs) (int (length bs)) = Inr [t]
    \<and> (\<forall>k. height k = 0 \<longrightarrow> rawget t k = norm (rawget (LTable n es) k))"
proof -
  have ok: "\<forall>v \<in> set [LTable n es]. lua_ok v" using assms(1) by simp
  show ?thesis
    using pack_unpack [OF ok assms(2,3)] rawget_norm [of _ n es] by (simp del: norm.simps)
qed

theorem seri_table_same_witness:
  "\<exists>bs t. luaseri_pack [LTable 1 [(LString [97], LBoolean True), (LInteger 1, LInteger (- 5))]] = Inr (Some bs)
    \<and> luaseri_unpack (Some bs) (int (length bs)) = Inr [t] \<and> rawget t (LInteger 1) = LInteger (- 5)"
proof -
  let ?t = "LTable 1 [(LString [97], LBoolean True), (LInteger 1, LInteger (- 5))]"
  have "case pack_from [?t] wb_init of Inr r \<Rightarrow> length (wb_bytes r) < 100 | Inl e \<Rightarrow> False" by code_simp
  then obtain wb where "pack_from [?t] wb_init = Inr wb" "length (wb_bytes wb) < 2 ^ 31" by (auto split: sum.splits)
  from seri_table_same [OF _ this] show ?thesis by (force simp: rawget_def)
qed





text \<open>C21. A string of \<open>2 ^ 31\<close> bytes or more is lost without an error. Its length is converted to
  a negative \<open>int\<close>, which passes the test for a short string: the packer writes a single byte,
  the tag of a short string with the low five bits of the length, and none of the content.\<close>

theorem seri_huge_string:
  assumes "2 ^ 31 \<le> length s" and "length s < 2 ^ 32"
  shows "luaseri_pack [LString s] = Inr (Some [COMBINE_TYPE TYPE_SHORT_STRING (int (length s) - 2 ^ 32)])"
proof -
  have "int (length s) div 2 ^ 31 = 1"
    using assms by (intro int_div_pos_eq [of _ "2 ^ 31" 1 "int (length s) - 2 ^ 31"]) simp_all
  then have "i32 (int (length s)) = int (length s) - 2 ^ 32"
    using assms by (simp add: i32_def signed_take_bit_eq_take_bit_minus take_bit_int_eq_self bit_iff_odd)
  then have w: "wb_string s wb_init = wb_push [COMBINE_TYPE TYPE_SHORT_STRING (int (length s) - 2 ^ 32)] wb_init"
    using assms by (simp add: wb_string_def Let_def MAX_COOKIE_def)
  have "seri (wb_chain (wb_string s wb_init)) (wb_len (wb_string s wb_init)) =
      Some [COMBINE_TYPE TYPE_SHORT_STRING (int (length s) - 2 ^ 32)]"
    unfolding w by (subst seri_wb) simp_all
  then show ?thesis by (simp add: luaseri_pack_def pack_from_def pack_one.simps MAX_DEPTH_def)
qed

theorem seri_huge_string_witness:
  "luaseri_pack [LString (replicate (2 ^ 31) 0)] = Inr (Some [COMBINE_TYPE TYPE_SHORT_STRING (- (2 ^ 31))])"
  using seri_huge_string [of "replicate (2 ^ 31) 0"] by simp

end
