(* ===== verification/Mq.thy ===== *)
theory Mq
  imports Ring
begin

section \<open>Message queues (\<open>skynet_mq.c\<close>, \<open>skynet_mq.h\<close>)\<close>

text \<open>
  Every service owns a message queue, a circular array that doubles when it is full, and
  the queues with work to do are linked through their \<open>next\<close> fields into one global
  queue from which the worker threads take them. The queues live in a heap (a partial map
  from pointers), because a queue is shared between its service, the global queue and the
  worker that dispatches it. A function that the C code runs inside one \<open>SPIN_LOCK\<close>
  section is one step of the model. \<open>skynet_mq_release\<close> and \<open>_drop_queue\<close>
  call back into the service layer and are in the theory of the server.
\<close>

subsection \<open>Messages\<close>

text \<open>The pointer \<open>data\<close> is modelled by what it refers to (\<open>None\<close> for
  \<open>NULL\<close>): a block of bytes, the \<open>struct remote_message\<close> of
  \<open>skynet_harbor.h\<close>, with the name and the handle of the destination, the message and
  its size, or the \<open>struct skynet_socket_message\<close> of \<open>skynet_socket.h\<close>, with the type,
  the id, the number \<open>ud\<close>, the buffer and the bytes that follow the structure in the same
  block. The high byte of \<open>sz\<close> is the message type.\<close>

datatype payload =
  Bytes "byte list"
| Remote_message string u32 "payload option" u64
| Socket_message int int int "byte list option" "byte list"

record skynet_message =
  source :: u32
  session :: int
  data :: "payload option"
  sz :: u64

definition MESSAGE_TYPE_SHIFT :: nat where
  "MESSAGE_TYPE_SHIFT = (8 - 1) * 8"

definition MESSAGE_TYPE_MASK :: u64 where
  "MESSAGE_TYPE_MASK = drop_bit 8 (- 1)"

subsection \<open>Queues and the global queue\<close>

definition DEFAULT_QUEUE_SIZE :: nat where
  "DEFAULT_QUEUE_SIZE = 64"

definition MQ_OVERLOAD :: int where
  "MQ_OVERLOAD = 1024"

type_synonym mq_ptr = nat

text \<open>\<open>mq_in_global\<close> stands for \<open>in_global == MQ_IN_GLOBAL\<close>.\<close>

record message_queue =
  mq_handle :: u32
  mq_cap :: nat
  mq_head :: nat
  mq_tail :: nat
  mq_release :: bool
  mq_in_global :: bool
  mq_overload :: int
  mq_overload_threshold :: int
  mq_queue :: "skynet_message list"
  mq_next :: "mq_ptr option"

record mq_state =
  mqs :: "mq_ptr \<rightharpoonup> message_queue"
  gq_head :: "mq_ptr option"
  gq_tail :: "mq_ptr option"

definition skynet_globalmq_push :: "mq_ptr \<Rightarrow> mq_state \<Rightarrow> mq_state option" where
  "skynet_globalmq_push queue s = do {
     q \<leftarrow> mqs s queue;
     if mq_next q \<noteq> None then None
     else case gq_tail s of
       Some t \<Rightarrow> do {
         tq \<leftarrow> mqs s t;
         Some (s\<lparr>mqs := (mqs s)(t \<mapsto> tq\<lparr>mq_next := Some queue\<rparr>), gq_tail := Some queue\<rparr>) }
     | None \<Rightarrow> Some (s\<lparr>gq_head := Some queue, gq_tail := Some queue\<rparr>) }"

definition skynet_globalmq_pop :: "mq_state \<Rightarrow> (mq_ptr option \<times> mq_state) option" where
  "skynet_globalmq_pop s = (case gq_head s of
     None \<Rightarrow> Some (None, s)
   | Some mq \<Rightarrow> do {
       q \<leftarrow> mqs s mq;
       s1 \<leftarrow> (if mq_next q = None
              then (if gq_tail s = Some mq then Some (s\<lparr>gq_head := None, gq_tail := None\<rparr>) else None)
              else Some (s\<lparr>gq_head := mq_next q\<rparr>));
       Some (Some mq, s1\<lparr>mqs := (mqs s1)(mq \<mapsto> q\<lparr>mq_next := None\<rparr>)\<rparr>) })"

text \<open>The cells of a fresh array are indeterminate in C. They are filled with
  \<open>blank_message\<close> here, and no cell is read before it is written.\<close>

definition blank_message :: skynet_message where
  "blank_message = \<lparr>source = 0, session = 0, data = None, sz = 0\<rparr>"

definition new_queue :: "u32 \<Rightarrow> message_queue" where
  "new_queue handle = \<lparr>mq_handle = handle, mq_cap = DEFAULT_QUEUE_SIZE, mq_head = 0, mq_tail = 0,
     mq_release = False, mq_in_global = True, mq_overload = 0, mq_overload_threshold = MQ_OVERLOAD,
     mq_queue = replicate DEFAULT_QUEUE_SIZE blank_message, mq_next = None\<rparr>"

text \<open>The pointer that \<open>skynet_malloc\<close> returns is the argument \<open>p\<close>.\<close>

definition skynet_mq_create :: "mq_ptr \<Rightarrow> u32 \<Rightarrow> mq_state \<Rightarrow> mq_state" where
  "skynet_mq_create p handle s = s\<lparr>mqs := (mqs s)(p \<mapsto> new_queue handle)\<rparr>"

definition mq_free :: "mq_ptr \<Rightarrow> mq_state \<Rightarrow> mq_state option" where
  "mq_free p s = do {
     q \<leftarrow> mqs s p;
     if mq_next q \<noteq> None then None else Some (s\<lparr>mqs := (mqs s)(p := None)\<rparr>) }"

definition skynet_mq_handle :: "message_queue \<Rightarrow> u32" where
  "skynet_mq_handle q = mq_handle q"

definition skynet_mq_length :: "message_queue \<Rightarrow> int" where
  "skynet_mq_length q =
     (if mq_head q \<le> mq_tail q then int (mq_tail q) - int (mq_head q)
      else int (mq_tail q) + int (mq_cap q) - int (mq_head q))"

definition skynet_mq_overload :: "message_queue \<Rightarrow> int \<times> message_queue" where
  "skynet_mq_overload q =
     (if mq_overload q \<noteq> 0 then (mq_overload q, q\<lparr>mq_overload := 0\<rparr>) else (0, q))"

text \<open>The loop of \<open>skynet_mq_pop\<close> over \<open>(overload, overload_threshold)\<close>.\<close>

definition overload_loop :: "int \<Rightarrow> int \<times> int \<Rightarrow> int \<times> int" where
  "overload_loop len = while (\<lambda>(ov, thr). len > thr) (\<lambda>(ov, thr). (len, thr * 2))"

definition skynet_mq_pop :: "message_queue \<Rightarrow> skynet_message option \<times> message_queue" where
  "skynet_mq_pop q =
     (if mq_head q \<noteq> mq_tail q then
        (let message = mq_queue q ! mq_head q;
             head1 = mq_head q + 1;
             head = (if head1 \<ge> mq_cap q then 0 else head1);
             len0 = int (mq_tail q) - int head;
             len = (if len0 < 0 then len0 + int (mq_cap q) else len0);
             (ov, thr) = overload_loop len (mq_overload q, mq_overload_threshold q)
         in (Some message,
             q\<lparr>mq_head := head, mq_overload := ov, mq_overload_threshold := thr\<rparr>))
      else (None, q\<lparr>mq_overload_threshold := MQ_OVERLOAD, mq_in_global := False\<rparr>))"

definition expand_queue :: "message_queue \<Rightarrow> message_queue" where
  "expand_queue q =
     (let arr =
        map (\<lambda>i. mq_queue q ! ((mq_head q + i) mod mq_cap q)) [0..<mq_cap q]
          @ replicate (mq_cap q) blank_message
      in q\<lparr>mq_head := 0, mq_tail := mq_cap q, mq_cap := mq_cap q * 2, mq_queue := arr\<rparr>)"

text \<open>The part of \<open>skynet_mq_push\<close> that works on the array.\<close>

definition mq_enqueue :: "skynet_message \<Rightarrow> message_queue \<Rightarrow> message_queue" where
  "mq_enqueue message q =
     (let tail1 = mq_tail q + 1;
          q1 = q\<lparr>mq_queue := (mq_queue q)[mq_tail q := message],
                mq_tail := (if tail1 \<ge> mq_cap q then 0 else tail1)\<rparr>
      in if mq_head q1 = mq_tail q1 then expand_queue q1 else q1)"

definition skynet_mq_push :: "mq_ptr \<Rightarrow> skynet_message \<Rightarrow> mq_state \<Rightarrow> mq_state option" where
  "skynet_mq_push p message s = do {
     q0 \<leftarrow> mqs s p;
     let q = mq_enqueue message q0;
     if \<not> mq_in_global q
     then skynet_globalmq_push p (s\<lparr>mqs := (mqs s)(p \<mapsto> q\<lparr>mq_in_global := True\<rparr>)\<rparr>)
     else Some (s\<lparr>mqs := (mqs s)(p \<mapsto> q)\<rparr>) }"

definition skynet_mq_init :: mq_state where
  "skynet_mq_init = \<lparr>mqs = Map.empty, gq_head = None, gq_tail = None\<rparr>"

definition skynet_mq_mark_release :: "mq_ptr \<Rightarrow> mq_state \<Rightarrow> mq_state option" where
  "skynet_mq_mark_release p s = do {
     q \<leftarrow> mqs s p;
     if mq_release q then None
     else let s1 = s\<lparr>mqs := (mqs s)(p \<mapsto> q\<lparr>mq_release := True\<rparr>)\<rparr>
          in if \<not> mq_in_global q then skynet_globalmq_push p s1 else Some s1 }"

subsection \<open>One queue is a FIFO\<close>

text \<open>The invariant of a queue: both positions are inside the array, the array has
  \<open>cap\<close> cells, and the overload threshold has been doubled some number of times.\<close>

definition mq_inv :: "message_queue \<Rightarrow> bool" where
  "mq_inv q \<longleftrightarrow> mq_head q < mq_cap q \<and> mq_tail q < mq_cap q \<and> length (mq_queue q) = mq_cap q
     \<and> MQ_OVERLOAD \<le> mq_overload_threshold q"

definition mq_contents :: "message_queue \<Rightarrow> skynet_message list" where
  "mq_contents q = ring_contents (mq_queue q) (mq_head q) (mq_tail q)"

lemma new_queue_inv [simp, inv_intros]: "mq_inv (new_queue h)"
  by (simp add: mq_inv_def new_queue_def DEFAULT_QUEUE_SIZE_def)

lemma new_queue_contents [simp]: "mq_contents (new_queue h) = []"
  by (simp add: mq_contents_def new_queue_def)

lemma mq_length_contents:
  "mq_inv q \<Longrightarrow> skynet_mq_length q = int (length (mq_contents q))"
  by (auto simp: mq_inv_def mq_contents_def skynet_mq_length_def ring_len_def)

lemma mq_contents_Nil_iff: "mq_inv q \<Longrightarrow> mq_contents q = [] \<longleftrightarrow> mq_head q = mq_tail q"
  using ring_len_eq_0_iff [of "mq_head q" "mq_cap q" "mq_tail q"]
    length_0_conv [of "mq_contents q"]
  by (simp add: mq_inv_def mq_contents_def)

lemma mq_enqueue_ring:
  "mq_enqueue m q =
     (let q1 = q\<lparr>mq_queue := (mq_queue q)[mq_tail q := m], mq_tail := ring_next (mq_cap q) (mq_tail q)\<rparr>
      in if mq_head q1 = mq_tail q1 then expand_queue q1 else q1)"
  by (simp add: mq_enqueue_def ring_next_def Let_def)

lemma mq_enqueue_cases:
  assumes "mq_inv q"
  obtains (room) "mq_head q \<noteq> ring_next (mq_cap q) (mq_tail q)"
      "mq_enqueue m q = q\<lparr>mq_queue := (mq_queue q)[mq_tail q := m],
         mq_tail := ring_next (mq_cap q) (mq_tail q)\<rparr>"
  | (full) "mq_head q = ring_next (mq_cap q) (mq_tail q)"
      "mq_enqueue m q = q\<lparr>mq_head := 0, mq_tail := mq_cap q, mq_cap := mq_cap q * 2,
         mq_queue := (mq_contents q @ [m]) @ replicate (mq_cap q) blank_message\<rparr>"
proof (cases "mq_head q = ring_next (mq_cap q) (mq_tail q)")
  case True
  have len: "length (mq_queue q) = mq_cap q" using assms by (simp add: mq_inv_def)
  have "ring_entries ((mq_queue q)[mq_tail q := m]) (mq_head q) (length (mq_queue q))
      = mq_contents q @ [m]"
    unfolding mq_contents_def by (rule ring_entries_full) (use assms True in \<open>simp_all add: mq_inv_def\<close>)
  then have "map (\<lambda>i. (mq_queue q)[mq_tail q := m] ! ((mq_head q + i) mod mq_cap q)) [0..<mq_cap q]
      = mq_contents q @ [m]"
    by (simp only: ring_entries_def len length_list_update)
  with True have "mq_enqueue m q = q\<lparr>mq_head := 0, mq_tail := mq_cap q, mq_cap := mq_cap q * 2,
         mq_queue := (mq_contents q @ [m]) @ replicate (mq_cap q) blank_message\<rparr>"
    by (simp add: mq_enqueue_ring expand_queue_def)
  with True show ?thesis by (rule full)
next
  case False
  moreover from False have "mq_enqueue m q = q\<lparr>mq_queue := (mq_queue q)[mq_tail q := m],
         mq_tail := ring_next (mq_cap q) (mq_tail q)\<rparr>"
    by (simp add: mq_enqueue_ring)
  ultimately show ?thesis by (rule room)
qed

lemma mq_contents_full:
  assumes "mq_inv q" "mq_head q = ring_next (mq_cap q) (mq_tail q)"
  shows "Suc (length (mq_contents q)) = mq_cap q"
  using assms by (auto simp: mq_inv_def mq_contents_def ring_len_def ring_next_def split: if_splits)

lemma mq_contents_room:
  assumes "mq_inv q" "mq_head q \<noteq> ring_next (mq_cap q) (mq_tail q)"
  shows "Suc (length (mq_contents q)) \<noteq> mq_cap q"
  using assms by (auto simp: mq_inv_def mq_contents_def ring_len_def ring_next_def split: if_splits)

lemma mq_enqueue_inv [inv_intros]: "mq_inv q \<Longrightarrow> mq_inv (mq_enqueue m q)"
  by (rule mq_enqueue_cases [of q m], assumption)
    (auto simp: mq_inv_def ring_next_less mq_contents_full [unfolded mq_inv_def])

lemma mq_enqueue_contents [abs_simps]:
  assumes inv: "mq_inv q"
  shows "mq_contents (mq_enqueue m q) = mq_contents q @ [m]"
  using inv
proof (cases rule: mq_enqueue_cases [of q m])
  case room
  with inv ring_contents_push [of "mq_head q" "mq_queue q" "mq_tail q" m]
  show ?thesis by (simp add: mq_contents_def mq_inv_def)
next
  case full
  have cap: "length (mq_contents q @ [m]) = mq_cap q"
    using mq_contents_full [OF inv full(1)] by simp
  have "ring_contents ((mq_contents q @ [m]) @ replicate (mq_cap q) blank_message) 0
      (length (mq_contents q @ [m])) = mq_contents q @ [m]"
    by (rule ring_contents_grown) (use inv in \<open>simp add: mq_inv_def\<close>)
  then show ?thesis
    using full(2) cap by (simp add: mq_contents_def)
qed

lemma mq_enqueue_fields [simp]:
  "mq_handle (mq_enqueue m q) = mq_handle q"
  "mq_release (mq_enqueue m q) = mq_release q"
  "mq_in_global (mq_enqueue m q) = mq_in_global q"
  "mq_overload (mq_enqueue m q) = mq_overload q"
  "mq_overload_threshold (mq_enqueue m q) = mq_overload_threshold q"
  "mq_next (mq_enqueue m q) = mq_next q"
  by (simp_all add: mq_enqueue_def expand_queue_def Let_def)

text \<open>The overload loop stops because the threshold is positive; what it leaves is a
  threshold that the length does not exceed, and in \<open>overload\<close> the length itself when
  the old threshold was exceeded.\<close>

lemma overload_loop_terminates:
  assumes "0 < thr"
  shows "\<exists>r. while_option (\<lambda>(ov, thr). len > thr) (\<lambda>(ov, thr). (len, thr * 2)) (ov, thr :: int) = Some r"
  by (rule measure_while_option_Some [where P = "\<lambda>(ov, t). 0 < t" and f = "\<lambda>(ov, t). nat (len - t)"])
    (use assms in auto)

lemma overload_loop_spec:
  assumes "0 < thr"
  shows "(case overload_loop len (ov, thr) of (ov', thr') \<Rightarrow>
     len \<le> thr' \<and> thr \<le> thr' \<and> ov' = (if thr < len then len else ov) \<and> (thr' = thr \<or> thr' < 2 * len))"
  unfolding overload_loop_def
  by (rule while_rule [where P = "\<lambda>(o', t). thr \<le> t \<and> o' = (if t = thr then ov else len)
        \<and> (t = thr \<or> thr < len \<and> t < 2 * len)" and r = "measure (\<lambda>(o', t). nat (len - t))"])
    (use assms in auto)

lemma mq_pop_ring:
  "mq_head q \<noteq> mq_tail q \<Longrightarrow> skynet_mq_pop q =
     (let head = ring_next (mq_cap q) (mq_head q);
          len0 = int (mq_tail q) - int head;
          len = (if len0 < 0 then len0 + int (mq_cap q) else len0);
          (ov, thr) = overload_loop len (mq_overload q, mq_overload_threshold q)
      in (Some (mq_queue q ! mq_head q),
          q\<lparr>mq_head := head, mq_overload := ov, mq_overload_threshold := thr\<rparr>))"
  by (simp add: skynet_mq_pop_def ring_next_def Let_def)

lemma mq_pop_nonempty:
  assumes inv: "mq_inv q" and ne: "mq_head q \<noteq> mq_tail q"
  obtains ov thr where
    "skynet_mq_pop q = (Some (mq_queue q ! mq_head q),
       q\<lparr>mq_head := ring_next (mq_cap q) (mq_head q), mq_overload := ov, mq_overload_threshold := thr\<rparr>)"
    "mq_overload_threshold q \<le> thr" "int (length (mq_contents q)) - 1 \<le> thr"
    "ov = (if mq_overload_threshold q < int (length (mq_contents q)) - 1
           then int (length (mq_contents q)) - 1 else mq_overload q)"
    "thr = mq_overload_threshold q \<or> thr < 2 * (int (length (mq_contents q)) - 1)"
proof -
  let ?h = "ring_next (mq_cap q) (mq_head q)"
  let ?len0 = "int (mq_tail q) - int ?h"
  let ?len = "if ?len0 < 0 then ?len0 + int (mq_cap q) else ?len0"
  have len: "?len = int (length (mq_contents q)) - 1"
    using inv ne
    by (auto simp: mq_inv_def mq_contents_def ring_len_def ring_next_def split: if_splits)
  obtain ov thr where r: "overload_loop ?len (mq_overload q, mq_overload_threshold q) = (ov, thr)"
    by (cases "overload_loop ?len (mq_overload q, mq_overload_threshold q)")
  have pos: "0 < mq_overload_threshold q" using inv by (simp add: mq_inv_def MQ_OVERLOAD_def)
  have pop: "skynet_mq_pop q = (Some (mq_queue q ! mq_head q),
       q\<lparr>mq_head := ?h, mq_overload := ov, mq_overload_threshold := thr\<rparr>)"
    using r by (simp only: mq_pop_ring [OF ne] Let_def case_prod_conv)
  show ?thesis
    by (rule that [OF pop]) (use overload_loop_spec [OF pos, of ?len "mq_overload q"] r
      in \<open>simp_all only: len case_prod_conv simp_thms\<close>)
qed

lemma mq_pop_empty:
  "mq_head q = mq_tail q \<Longrightarrow>
     skynet_mq_pop q = (None, q\<lparr>mq_overload_threshold := MQ_OVERLOAD, mq_in_global := False\<rparr>)"
  by (simp add: skynet_mq_pop_def)

lemma mq_pop_inv [inv_intros]: "mq_inv q \<Longrightarrow> mq_inv (snd (skynet_mq_pop q))"
proof (cases "mq_head q = mq_tail q")
  case True
  then show "mq_inv q \<Longrightarrow> ?thesis" by (simp add: mq_pop_empty mq_inv_def)
next
  case False
  assume inv: "mq_inv q"
  then show ?thesis
    by (rule mq_pop_nonempty [OF _ False]) (use inv in \<open>auto simp: mq_inv_def ring_next_less\<close>)
qed

lemma mq_pop_spec [abs_simps]:
  assumes inv: "mq_inv q"
  shows "(fst (skynet_mq_pop q), mq_contents (snd (skynet_mq_pop q))) = list_pop (mq_contents q)"
proof (cases "mq_head q = mq_tail q")
  case True
  with inv show ?thesis
    by (simp add: mq_pop_empty list_pop_def mq_contents_def)
next
  case False
  with inv ring_contents_pop [of "mq_head q" "mq_queue q" "mq_tail q"]
  have *: "mq_contents q = mq_queue q ! mq_head q
      # ring_contents (mq_queue q) (ring_next (mq_cap q) (mq_head q)) (mq_tail q)"
    by (simp add: mq_contents_def mq_inv_def)
  obtain ov thr where pop: "skynet_mq_pop q = (Some (mq_queue q ! mq_head q),
       q\<lparr>mq_head := ring_next (mq_cap q) (mq_head q), mq_overload := ov, mq_overload_threshold := thr\<rparr>)"
    by (rule mq_pop_nonempty [OF inv False])
  show ?thesis unfolding * unfolding pop by (simp add: list_pop_def mq_contents_def)
qed

interpretation mq: fifo mq_enqueue skynet_mq_pop mq_contents mq_inv
  by unfold_locales (simp_all add: mq_enqueue_inv mq_enqueue_contents mq_pop_inv mq_pop_spec)

subsection \<open>The global queue is a FIFO of distinct queues\<close>

text \<open>\<open>mq_path m p ps\<close>: following \<open>next\<close> from \<open>p\<close> visits the queues
  \<open>ps\<close> and ends at \<open>NULL\<close>. \<open>gq_rep s ps\<close>: the global queue of \<open>s\<close> is
  the list \<open>ps\<close>, without repetition, \<open>tail\<close> points at its last element, and the
  queues outside it have a null \<open>next\<close>.\<close>

fun mq_path :: "(mq_ptr \<rightharpoonup> message_queue) \<Rightarrow> mq_ptr option \<Rightarrow> mq_ptr list \<Rightarrow> bool" where
  "mq_path m p [] \<longleftrightarrow> p = None"
| "mq_path m p (x # xs) \<longleftrightarrow> p = Some x \<and> (\<exists>q. m x = Some q \<and> mq_path m (mq_next q) xs)"

definition gq_rep :: "mq_state \<Rightarrow> mq_ptr list \<Rightarrow> bool" where
  "gq_rep s ps \<longleftrightarrow> mq_path (mqs s) (gq_head s) ps \<and> distinct ps
     \<and> gq_tail s = (if ps = [] then None else Some (last ps))
     \<and> (\<forall>p q. mqs s p = Some q \<longrightarrow> p \<notin> set ps \<longrightarrow> mq_next q = None)"

text \<open>A queue as its owner sees it: everything but the link.\<close>

definition mq_view :: "mq_state \<Rightarrow> mq_ptr \<rightharpoonup> message_queue" where
  "mq_view s p = map_option (\<lambda>q. q\<lparr>mq_next := None\<rparr>) (mqs s p)"

lemma mq_view_dom: "mq_view s p = None \<longleftrightarrow> mqs s p = None"
  by (simp add: mq_view_def)

lemma mq_path_upd_notin [simp]: "x \<notin> set xs \<Longrightarrow> mq_path (m(x := v)) p xs = mq_path m p xs"
  by (induction xs arbitrary: p) auto

lemma mq_path_upd_same_next:
  "m x = Some q \<Longrightarrow> mq_next q' = mq_next q \<Longrightarrow> mq_path (m(x \<mapsto> q')) p xs = mq_path m p xs"
  by (induction xs arbitrary: p) auto

lemma mq_path_in_dom: "mq_path m p xs \<Longrightarrow> x \<in> set xs \<Longrightarrow> m x \<noteq> None"
  by (induction xs arbitrary: p) auto

lemma mq_path_snoc:
  "mq_path m p xs \<Longrightarrow> xs \<noteq> [] \<Longrightarrow> distinct xs \<Longrightarrow> m (last xs) = Some t \<Longrightarrow>
   y \<notin> set xs \<Longrightarrow> m y = Some q \<Longrightarrow> mq_next q = None \<Longrightarrow>
   mq_path (m(last xs \<mapsto> t\<lparr>mq_next := Some y\<rparr>)) p (xs @ [y])"
proof (induction xs arbitrary: p)
  case Nil
  then show ?case by simp
next
  case (Cons x xs)
  show ?case
  proof (cases "xs = []")
    case True
    with Cons.prems show ?thesis by auto
  next
    case False
    from Cons.prems obtain qx where x: "p = Some x" "m x = Some qx" "mq_path m (mq_next qx) xs"
      by auto
    have "mq_path (m(last xs \<mapsto> t\<lparr>mq_next := Some y\<rparr>)) (mq_next qx) (xs @ [y])"
      by (rule Cons.IH [OF x(3) False]) (use Cons.prems False in auto)
    moreover have "x \<noteq> last xs" using Cons.prems(3) False by auto
    ultimately show ?thesis using x False by (simp add: fun_upd_def)
  qed
qed

lemma gq_rep_distinct: "gq_rep s ps \<Longrightarrow> distinct ps"
  by (simp add: gq_rep_def)

lemma gq_rep_in_dom: "gq_rep s ps \<Longrightarrow> p \<in> set ps \<Longrightarrow> mqs s p \<noteq> None"
  by (auto simp: gq_rep_def dest: mq_path_in_dom)

lemma gq_rep_init [simp]: "gq_rep skynet_mq_init []"
  by (simp add: gq_rep_def skynet_mq_init_def)

text \<open>Writing a queue without touching its link leaves the global queue alone.\<close>

lemma gq_rep_upd_same_next:
  assumes "gq_rep s ps" "mqs s p = Some q" "mq_next q' = mq_next q"
  shows "gq_rep (s\<lparr>mqs := (mqs s)(p \<mapsto> q')\<rparr>) ps"
  using assms by (auto simp: gq_rep_def mq_path_upd_same_next)

lemma globalmq_push_rep:
  assumes rep: "gq_rep s ps" and p: "mqs s p = Some q" and new: "p \<notin> set ps"
  shows "\<exists>s'. skynet_globalmq_push p s = Some s' \<and> gq_rep s' (ps @ [p]) \<and> mq_view s' = mq_view s"
proof (cases "ps = []")
  case True
  with assms show ?thesis
    by (auto simp: skynet_globalmq_push_def gq_rep_def mq_view_def fun_eq_iff)
next
  case False
  then have tail: "gq_tail s = Some (last ps)" using rep by (simp add: gq_rep_def)
  have "mqs s (last ps) \<noteq> None" using rep False by (intro gq_rep_in_dom) auto
  then obtain t where t: "mqs s (last ps) = Some t" by auto
  let ?s' = "s\<lparr>mqs := (mqs s)(last ps \<mapsto> t\<lparr>mq_next := Some p\<rparr>), gq_tail := Some p\<rparr>"
  have nn: "mq_next q = None" using rep p new by (auto simp: gq_rep_def)
  have "skynet_globalmq_push p s = Some ?s'"
    using p t tail nn by (simp add: skynet_globalmq_push_def)
  moreover have "gq_rep ?s' (ps @ [p])"
    using rep mq_path_snoc [of "mqs s" "gq_head s" ps t p q] False t new p nn
    by (auto simp: gq_rep_def)
  moreover have "mq_view ?s' = mq_view s" using t by (auto simp: mq_view_def fun_eq_iff)
  ultimately show ?thesis by blast
qed

lemma globalmq_pop_Nil: "gq_rep s [] \<Longrightarrow> skynet_globalmq_pop s = Some (None, s)"
  by (simp add: gq_rep_def skynet_globalmq_pop_def)

lemma globalmq_pop_Cons:
  assumes rep: "gq_rep s (p # ps)"
  shows "\<exists>s'. skynet_globalmq_pop s = Some (Some p, s') \<and> gq_rep s' ps \<and> mq_view s' = mq_view s"
proof -
  from rep obtain q where q: "gq_head s = Some p" "mqs s p = Some q" "mq_path (mqs s) (mq_next q) ps"
    and p: "p \<notin> set ps" by (auto simp: gq_rep_def)
  have empty: "mq_next q = None \<longleftrightarrow> ps = []" using q(3) by (cases ps) auto
  let ?s1 = "if ps = [] then s\<lparr>gq_head := None, gq_tail := None\<rparr> else s\<lparr>gq_head := mq_next q\<rparr>"
  let ?s' = "?s1\<lparr>mqs := (mqs s)(p \<mapsto> q\<lparr>mq_next := None\<rparr>)\<rparr>"
  have "skynet_globalmq_pop s = Some (Some p, ?s')"
    using rep q empty by (auto simp: skynet_globalmq_pop_def gq_rep_def)
  moreover have "gq_rep ?s' ps"
    using rep q p empty by (auto simp: gq_rep_def)
  moreover have "mq_view ?s' = mq_view s" using q by (auto simp: mq_view_def fun_eq_iff)
  ultimately show ?thesis by blast
qed

subsection \<open>Pushing a message and marking a queue for release\<close>

lemma mq_view_upd:
  "mq_view (s\<lparr>mqs := (mqs s)(p \<mapsto> q)\<rparr>) = (mq_view s)(p \<mapsto> q\<lparr>mq_next := None\<rparr>)"
  by (simp add: mq_view_def fun_eq_iff)

lemma mq_upd_schedules:
  assumes rep: "gq_rep s ps" and p: "mqs s p = Some q" and nn: "mq_next q' = mq_next q"
    and new: "p \<notin> set ps"
  shows "\<exists>s'. skynet_globalmq_push p (s\<lparr>mqs := (mqs s)(p \<mapsto> q')\<rparr>) = Some s'
    \<and> gq_rep s' (ps @ [p]) \<and> mq_view s' = (mq_view s)(p \<mapsto> q'\<lparr>mq_next := None\<rparr>)"
  using globalmq_push_rep [OF gq_rep_upd_same_next [OF rep p nn] _ new]
  by (simp add: mq_view_upd)

lemma mq_push_rep:
  assumes rep: "gq_rep s ps" and p: "mqs s p = Some q" and idle: "\<not> mq_in_global q \<Longrightarrow> p \<notin> set ps"
  shows "\<exists>s'. skynet_mq_push p m s = Some s' \<and> gq_rep s' (if mq_in_global q then ps else ps @ [p])
    \<and> mq_view s' = (mq_view s)(p \<mapsto> (mq_enqueue m q)\<lparr>mq_in_global := True, mq_next := None\<rparr>)"
proof (cases "mq_in_global q")
  case True
  then have *: "(mq_enqueue m q)\<lparr>mq_in_global := True, mq_next := None\<rparr> = (mq_enqueue m q)\<lparr>mq_next := None\<rparr>"
    by (cases "mq_enqueue m q") (use mq_enqueue_fields(3) [of m q] in simp)
  show ?thesis
    unfolding * using True p gq_rep_upd_same_next [OF rep p, of "mq_enqueue m q"]
    by (simp add: skynet_mq_push_def mq_view_upd)
next
  case False
  with p mq_upd_schedules [OF rep p, of "(mq_enqueue m q)\<lparr>mq_in_global := True\<rparr>"] idle show ?thesis
    by (simp add: skynet_mq_push_def)
qed

lemma mq_mark_release_rep:
  assumes rep: "gq_rep s ps" and p: "mqs s p = Some q" and idle: "\<not> mq_in_global q \<Longrightarrow> p \<notin> set ps"
    and live: "\<not> mq_release q"
  shows "\<exists>s'. skynet_mq_mark_release p s = Some s' \<and> gq_rep s' (if mq_in_global q then ps else ps @ [p])
    \<and> mq_view s' = (mq_view s)(p \<mapsto> q\<lparr>mq_release := True, mq_next := None\<rparr>)"
proof (cases "mq_in_global q")
  case True
  with p live gq_rep_upd_same_next [OF rep p, of "q\<lparr>mq_release := True\<rparr>"] show ?thesis
    by (simp add: skynet_mq_mark_release_def mq_view_upd)
next
  case False
  with p live mq_upd_schedules [OF rep p, of "q\<lparr>mq_release := True\<rparr>"] idle show ?thesis
    by (simp add: skynet_mq_mark_release_def)
qed

lemma mq_view_Some: "mqs s p = Some q \<Longrightarrow> mq_view s p = Some (q\<lparr>mq_next := None\<rparr>)"
  by (simp add: mq_view_def)

lemma mq_contents_next [simp]: "mq_contents (q\<lparr>mq_next := n\<rparr>) = mq_contents q"
  and mq_contents_in_global [simp]: "mq_contents (q\<lparr>mq_in_global := b\<rparr>) = mq_contents q"
  by (simp_all add: mq_contents_def)

lemma mq_inv_next [simp]: "mq_inv (q\<lparr>mq_next := n\<rparr>) = mq_inv q"
  and mq_inv_in_global [simp]: "mq_inv (q\<lparr>mq_in_global := b\<rparr>) = mq_inv q"
  by (simp_all add: mq_inv_def)

subsection \<open>Properties\<close>

text \<open>C3. A service's message queue is a FIFO: whatever sequence of pushes and pops is run on
  a queue, through any number of wrap-arounds and expansions of the array, the pops return
  what they would return on a plain list, and the messages left are those left on the
  list.\<close>

theorem mq_script_refines:
  assumes "mq_inv q"
  shows "fst (run_fifo mq_enqueue skynet_mq_pop ops q)
      = fst (run_fifo list_push list_pop ops (mq_contents q))
    \<and> mq_contents (snd (run_fifo mq_enqueue skynet_mq_pop ops q))
      = snd (run_fifo list_push list_pop ops (mq_contents q))
    \<and> mq_inv (snd (run_fifo mq_enqueue skynet_mq_pop ops q))"
  using mq.run_refines [OF assms] by blast

theorem mq_script_refines_witness:
  "fst (run_fifo mq_enqueue skynet_mq_pop [Push blank_message, Pop, Pop] (new_queue 1))
     = [Some blank_message, None]"
  using mq_script_refines [OF new_queue_inv, of "[Push blank_message, Pop, Pop]" 1]
  by (simp add: list_push_def list_pop_def)

text \<open>C5. Pushing a message on an allocated queue never fails and never damages the global
  queue: the message is appended to that queue, every other queue is unchanged, and
  afterwards the queue is marked as scheduled; it enters the global queue, at its end, in
  exactly the case that it was not scheduled before.\<close>

theorem mq_push_schedules_once:
  assumes "gq_rep s ps" "mqs s p = Some q" "mq_inv q" "\<not> mq_in_global q \<Longrightarrow> p \<notin> set ps"
  shows "\<exists>s' q'. skynet_mq_push p m s = Some s' \<and> mqs s' p = Some q'
    \<and> mq_contents q' = mq_contents q @ [m] \<and> mq_inv q' \<and> mq_in_global q'
    \<and> gq_rep s' (if mq_in_global q then ps else ps @ [p])
    \<and> (\<forall>r. r \<noteq> p \<longrightarrow> mq_view s' r = mq_view s r)"
proof -
  from mq_push_rep [OF assms(1,2,4)] obtain s' where s': "skynet_mq_push p m s = Some s'"
    "gq_rep s' (if mq_in_global q then ps else ps @ [p])"
    and view: "mq_view s' = (mq_view s)(p \<mapsto> (mq_enqueue m q)\<lparr>mq_in_global := True, mq_next := None\<rparr>)"
    by blast
  from view obtain q' where q': "mqs s' p = Some q'"
    "q'\<lparr>mq_next := None\<rparr> = (mq_enqueue m q)\<lparr>mq_in_global := True, mq_next := None\<rparr>"
    by (auto simp: mq_view_def fun_eq_iff split: if_splits)
  have "mq_contents q' = mq_contents q @ [m]" "mq_inv q'" "mq_in_global q'"
    using arg_cong [OF q'(2), of mq_contents] arg_cong [OF q'(2), of mq_inv]
      arg_cong [OF q'(2), of mq_in_global] assms(3)
    by (simp_all add: mq_enqueue_contents mq_enqueue_inv)
  with s' q'(1) view show ?thesis by (intro exI [of _ s'] exI [of _ q']) simp
qed

definition idle_example :: mq_state where
  "idle_example = skynet_mq_init\<lparr>mqs := [7 \<mapsto> (new_queue 1)\<lparr>mq_in_global := False\<rparr>]\<rparr>"

theorem mq_push_schedules_once_witness:
  "\<exists>s' q'. skynet_mq_push 7 blank_message idle_example = Some s' \<and> mqs s' 7 = Some q'
     \<and> mq_contents q' = [blank_message] \<and> gq_rep s' [7]"
proof -
  have "gq_rep idle_example []"
    by (simp add: idle_example_def gq_rep_def skynet_mq_init_def new_queue_def)
  from mq_push_schedules_once [OF this, of 7 "(new_queue 1)\<lparr>mq_in_global := False\<rparr>" blank_message]
  show ?thesis by (auto simp: idle_example_def skynet_mq_init_def)
qed

text \<open>C8. The global queue is a FIFO of distinct queues kept in linked cells: taking from it
  returns the queue at the front (or none) and leaves the rest, no assertion fails, and no
  queue is changed except for its link.\<close>

theorem globalmq_pop_takes_first:
  assumes "gq_rep s ps"
  shows "\<exists>s'. skynet_globalmq_pop s = Some (if ps = [] then None else Some (hd ps), s')
    \<and> gq_rep s' (tl ps) \<and> mq_view s' = mq_view s"
  using assms globalmq_pop_Nil [of s] globalmq_pop_Cons [of s "hd ps" "tl ps"] by (cases ps) auto

theorem globalmq_pop_takes_first_witness:
  "\<exists>s'. skynet_globalmq_pop skynet_mq_init = Some (None, s') \<and> gq_rep s' []"
  using globalmq_pop_takes_first [OF gq_rep_init] by auto

text \<open>C9. The overload warning of \<open>skynet_mq_pop\<close>: after a message is taken, the loop has
  stopped with a threshold that the remaining length does not exceed; \<open>overload\<close> holds
  the remaining length exactly when it exceeded the old threshold, and is unchanged
  otherwise. Popping an empty queue resets the threshold and takes the queue off the
  schedule.\<close>

theorem mq_pop_overload:
  assumes "mq_inv q"
  shows "(case skynet_mq_pop q of
      (Some m, q') \<Rightarrow>
        int (length (mq_contents q')) \<le> mq_overload_threshold q'
        \<and> mq_overload q' = (if mq_overload_threshold q < int (length (mq_contents q'))
                            then int (length (mq_contents q')) else mq_overload q)
        \<and> mq_in_global q' = mq_in_global q
    | (None, q') \<Rightarrow> mq_contents q = [] \<and> mq_overload_threshold q' = MQ_OVERLOAD \<and> \<not> mq_in_global q')"
proof (cases "mq_head q = mq_tail q")
  case True
  then show ?thesis using assms by (simp add: mq_pop_empty mq_contents_Nil_iff)
next
  case False
  have "length (mq_contents (snd (skynet_mq_pop q))) = length (mq_contents q) - 1"
    using mq_pop_spec [OF assms] False assms
    by (auto simp: list_pop_def mq_contents_Nil_iff split: list.splits)
  moreover have "mq_contents q \<noteq> []" using False assms by (simp add: mq_contents_Nil_iff)
  ultimately have len: "int (length (mq_contents (snd (skynet_mq_pop q)))) = int (length (mq_contents q)) - 1"
    by (simp add: of_nat_diff Suc_leI)
  show ?thesis
    by (rule mq_pop_nonempty [OF assms False]) (use len in auto)
qed

theorem mq_pop_overload_witness:
  "\<not> mq_in_global (snd (skynet_mq_pop (new_queue 1)))"
  using mq_pop_overload [OF new_queue_inv, of 1]
  by (simp add: mq_pop_empty new_queue_def)

text \<open>C10. The \<open>int\<close> fields of a queue do not overflow: as long as fewer than
  \<open>2 ^ 30 - 1\<close> messages are waiting, pushing another one keeps the capacity, and with it
  every position in the array, below \<open>2 ^ 31\<close>.\<close>

theorem mq_push_int_bounds:
  assumes "mq_inv q" "mq_cap q < 2 ^ 31" "length (mq_contents q) + 1 < 2 ^ 30"
  shows "mq_cap (mq_enqueue m q) < 2 ^ 31 \<and> mq_head (mq_enqueue m q) < 2 ^ 31
    \<and> mq_tail (mq_enqueue m q) < 2 ^ 31 \<and> mq_tail q + 1 < 2 ^ 31"
proof -
  have "mq_cap (mq_enqueue m q) < 2 ^ 31"
    using assms(1)
  proof (cases rule: mq_enqueue_cases [of q m])
    case room
    then show ?thesis using assms(2) by simp
  next
    case full
    then show ?thesis using mq_contents_full [OF assms(1) full(1)] assms(3) by simp
  qed
  with mq_enqueue_inv [OF assms(1), of m] assms(1,2) show ?thesis by (auto simp: mq_inv_def)
qed

theorem mq_push_int_bounds_witness:
  "mq_cap (mq_enqueue blank_message (new_queue 1)) < 2 ^ 31"
  using mq_push_int_bounds [OF new_queue_inv, of 1 blank_message]
  by (simp add: new_queue_def [of 1] DEFAULT_QUEUE_SIZE_def mq_contents_def)

end
