(* ===== verification/Handle.thy ===== *)
theory Handle
  imports Prelude
begin

section \<open>Service handles and names (\<open>skynet_handle.c\<close>, \<open>skynet_handle.h\<close>)\<close>

text \<open>
  The handle storage maps the 32-bit handle of a service to its context, through a hash
  table whose size is a power of two, and local names to handles, through an array sorted
  by name. The high byte of a handle is the harbor of its node. A context is a pointer
  here; the handle that the context stores (\<open>skynet_context_handle\<close>) is the argument
  \<open>ch\<close>. The parts of \<open>skynet_handle_retire\<close>, \<open>skynet_handle_grab\<close> and
  \<open>skynet_handle_retireall\<close> that count references are in the theory of the server;
  what they do to this table is \<open>retire_table\<close> and \<open>handle_lookup\<close>.
\<close>

type_synonym ctx_ptr = nat

definition DEFAULT_SLOT_SIZE :: nat where
  "DEFAULT_SLOT_SIZE = 4"

definition MAX_SLOT_SIZE :: nat where
  "MAX_SLOT_SIZE = 0x40000000"

definition HANDLE_MASK :: u32 where
  "HANDLE_MASK = 0xffffff"

definition HANDLE_REMOTE_SHIFT :: nat where
  "HANDLE_REMOTE_SHIFT = 24"

record handle_name =
  hn_name :: string
  hn_handle :: u32

record handle_storage =
  harbor :: u32
  handle_index :: u32
  slot_size :: nat
  slot :: "ctx_ptr option list"
  name_cap :: nat
  name_count :: nat
  name :: "handle_name list"

subsection \<open>Handles\<close>

definition slot_hash :: "u32 \<Rightarrow> nat \<Rightarrow> nat" where
  "slot_hash handle n = unat (handle AND (of_nat n - 1))"

text \<open>The inner loop of \<open>skynet_handle_register\<close>: \<open>i\<close> counts up and \<open>n\<close> is the
  number of rounds left.\<close>

fun probe_slot :: "handle_storage \<Rightarrow> nat \<Rightarrow> nat \<Rightarrow> (u32 \<times> nat) option" where
  "probe_slot s i 0 = None"
| "probe_slot s i (Suc n) =
     (let handle = (of_nat i + handle_index s) AND HANDLE_MASK;
          hash = slot_hash handle (slot_size s)
      in if slot s ! hash = None then Some (handle, hash) else probe_slot s (Suc i) n)"

text \<open>The loop that moves every context to the table of twice the size.\<close>

fun rehash :: "(ctx_ptr \<Rightarrow> u32) \<Rightarrow> nat \<Rightarrow> ctx_ptr option list \<Rightarrow> ctx_ptr option list
    \<Rightarrow> ctx_ptr option list option" where
  "rehash ch n [] new_slot = Some new_slot"
| "rehash ch n (None # cs) new_slot = None"
| "rehash ch n (Some c # cs) new_slot =
     (let hash = slot_hash (ch c) n
      in if new_slot ! hash = None then rehash ch n cs (new_slot[hash := Some c]) else None)"

partial_function (option) skynet_handle_register ::
  "(ctx_ptr \<Rightarrow> u32) \<Rightarrow> ctx_ptr \<Rightarrow> handle_storage \<Rightarrow> (u32 \<times> handle_storage) option" where
  "skynet_handle_register ch ctx s =
     (case probe_slot s 0 (slot_size s) of
        Some (handle, hash) \<Rightarrow>
          Some (handle OR harbor s,
                s\<lparr>slot := (slot s)[hash := Some ctx], handle_index := handle + 1\<rparr>)
      | None \<Rightarrow>
          (if int (slot_size s) * 2 - 1 > uint HANDLE_MASK then None
           else Option.bind (rehash ch (slot_size s * 2) (slot s) (replicate (slot_size s * 2) None))
             (\<lambda>new_slot. skynet_handle_register ch ctx
                (s\<lparr>slot := new_slot, slot_size := slot_size s * 2\<rparr>))))"

declare skynet_handle_register.simps [code]

definition handle_lookup :: "(ctx_ptr \<Rightarrow> u32) \<Rightarrow> handle_storage \<Rightarrow> u32 \<Rightarrow> ctx_ptr option" where
  "handle_lookup ch s handle =
     (case slot s ! slot_hash handle (slot_size s) of
        Some ctx \<Rightarrow> (if ch ctx = handle then Some ctx else None)
      | None \<Rightarrow> None)"

text \<open>The loop of \<open>skynet_handle_retire\<close> that drops the names of a handle and closes the
  gaps they leave.\<close>

function retire_names :: "u32 \<Rightarrow> nat \<Rightarrow> nat \<Rightarrow> nat \<Rightarrow> handle_name list \<Rightarrow> nat \<times> handle_name list" where
  "retire_names handle i j n nm =
     (if i < n then
        (if hn_handle (nm ! i) = handle then retire_names handle (i + 1) j n nm
         else retire_names handle (i + 1) (j + 1) n (if i \<noteq> j then nm[j := nm ! i] else nm))
      else (j, nm))"
  by pat_completeness auto
termination
  by (relation "measure (\<lambda>(handle, i, j, n, nm). n - i)") auto

definition retire_table ::
  "(ctx_ptr \<Rightarrow> u32) \<Rightarrow> u32 \<Rightarrow> handle_storage \<Rightarrow> ctx_ptr option \<times> handle_storage" where
  "retire_table ch handle s =
     (let hash = slot_hash handle (slot_size s)
      in case slot s ! hash of
           Some ctx \<Rightarrow>
             (if ch ctx = handle then
                (let (j, nm) = retire_names handle 0 0 (name_count s) (name s)
                 in (Some ctx, s\<lparr>slot := (slot s)[hash := None], name := nm, name_count := j\<rparr>))
              else (None, s))
         | None \<Rightarrow> (None, s))"

subsection \<open>Names\<close>

text \<open>The binary search of \<open>skynet_handle_findname\<close> and \<open>_insert_name\<close>: the entry
  found, or the position at which the name belongs.\<close>

function name_search :: "handle_name list \<Rightarrow> string \<Rightarrow> int \<Rightarrow> int \<Rightarrow> handle_name + int" where
  "name_search nm str begin end' =
     (if begin \<le> end' then
        (let mid = (begin + end') div 2;
             n = nm ! nat mid;
             c = strcmp (hn_name n) str
         in if c = 0 then Inl n
            else if c < 0 then name_search nm str (mid + 1) end'
            else name_search nm str begin (mid - 1))
      else Inr begin)"
  by pat_completeness auto
termination
  by (relation "measure (\<lambda>(nm, str, b, e). nat (e - b + 1))") auto

definition skynet_handle_findname :: "handle_storage \<Rightarrow> string \<Rightarrow> u32" where
  "skynet_handle_findname s str =
     (case name_search (name s) str 0 (int (name_count s) - 1) of
        Inl n \<Rightarrow> hn_handle n
      | Inr begin \<Rightarrow> 0)"

definition blank_name :: handle_name where
  "blank_name = \<lparr>hn_name = [], hn_handle = 0\<rparr>"

fun shift_names :: "nat \<Rightarrow> nat \<Rightarrow> handle_name list \<Rightarrow> handle_name list" where
  "shift_names i before nm =
     (if i > before then shift_names (i - 1) before (nm[i := nm ! (i - 1)]) else nm)"

text \<open>The two copying loops of the growing branch fill the cells of the new array on both
  sides of \<open>before\<close>; the cells that no loop writes are indeterminate in C.\<close>

definition insert_name_before ::
  "handle_storage \<Rightarrow> string \<Rightarrow> u32 \<Rightarrow> nat \<Rightarrow> handle_storage option" where
  "insert_name_before s str handle before = do {
     s1 \<leftarrow> (if name_count s \<ge> name_cap s then
              (let cap = name_cap s * 2
               in if cap > MAX_SLOT_SIZE then None
                  else Some (s\<lparr>name_cap := cap,
                    name := map (\<lambda>i. if i < before then name s ! i
                                     else if before < i \<and> i \<le> name_count s then name s ! (i - 1)
                                     else blank_name) [0..<cap]\<rparr>))
            else Some (s\<lparr>name := shift_names (name_count s) before (name s)\<rparr>));
     Some (s1\<lparr>name := (name s1)[before := \<lparr>hn_name = str, hn_handle = handle\<rparr>],
              name_count := name_count s1 + 1\<rparr>) }"

definition insert_name :: "handle_storage \<Rightarrow> string \<Rightarrow> u32 \<Rightarrow> (string option \<times> handle_storage) option" where
  "insert_name s str handle =
     (case name_search (name s) str 0 (int (name_count s) - 1) of
        Inl n \<Rightarrow> Some (None, s)
      | Inr begin \<Rightarrow> do {
          s' \<leftarrow> insert_name_before s str handle (nat begin);
          Some (Some str, s') })"

definition skynet_handle_namehandle ::
  "u32 \<Rightarrow> string \<Rightarrow> handle_storage \<Rightarrow> (string option \<times> handle_storage) option" where
  "skynet_handle_namehandle handle str s = insert_name s str handle"

definition skynet_handle_init :: "int \<Rightarrow> handle_storage" where
  "skynet_handle_init harb =
     \<lparr>harbor = push_bit HANDLE_REMOTE_SHIFT (word_of_int harb AND 0xff),
      handle_index = 1,
      slot_size = DEFAULT_SLOT_SIZE,
      slot = replicate DEFAULT_SLOT_SIZE None,
      name_cap = 2,
      name_count = 0,
      name = replicate 2 blank_name\<rparr>"

declare retire_names.simps [simp del] name_search.simps [simp del] shift_names.simps [simp del]

subsection \<open>The table of contexts\<close>

text \<open>The contexts in the table, and the invariant of the table: its size is a power of two
  no larger than the handle space of a node, and a context sits in the cell that its handle
  hashes to and carries the harbor of the node.\<close>

definition registered :: "handle_storage \<Rightarrow> ctx_ptr set" where
  "registered s = {c. Some c \<in> set (slot s)}"

definition slots_ok :: "(ctx_ptr \<Rightarrow> u32) \<Rightarrow> handle_storage \<Rightarrow> bool" where
  "slots_ok ch s \<longleftrightarrow> (\<exists>k\<le>24. slot_size s = 2 ^ k) \<and> length (slot s) = slot_size s
     \<and> harbor s AND HANDLE_MASK = 0
     \<and> (\<forall>i c. i < slot_size s \<longrightarrow> slot s ! i = Some c \<longrightarrow>
          slot_hash (ch c) (slot_size s) = i \<and> ch c AND NOT HANDLE_MASK = harbor s)"

lemma HANDLE_MASK_mask: "HANDLE_MASK = mask 24"
  by (simp add: HANDLE_MASK_def mask_eq_exp_minus_1)

lemma slot_hash_pow2: "slot_hash h (2 ^ k) = unat h mod 2 ^ k"
proof -
  have "(of_nat (2 ^ k) - 1 :: u32) = mask k" by (simp add: mask_eq_exp_minus_1)
  then show ?thesis by (simp only: slot_hash_def unat_and_mask)
qed

lemma slot_hash_less: "slot_hash h (2 ^ k) < 2 ^ k"
  by (simp add: slot_hash_pow2)

lemma slot_hash_harbor:
  assumes "hb AND HANDLE_MASK = 0" "k \<le> 24"
  shows "slot_hash (h OR hb) (2 ^ k) = slot_hash h (2 ^ k)"
proof -
  have "hb AND mask k = (hb AND mask 24) AND mask k"
    using assms(2) by (intro bit_word_eqI) (auto simp: bit_simps)
  then have "hb AND mask k = 0" using assms(1) by (simp add: HANDLE_MASK_mask)
  then have "(h OR hb) AND mask k = h AND mask k" by (simp add: bit.conj_disj_distrib2)
  then show ?thesis by (metis slot_hash_pow2 unat_and_mask)
qed

lemma harbor_of_handle:
  assumes "hb AND HANDLE_MASK = 0" "h AND HANDLE_MASK = h"
  shows "(h OR hb) AND NOT HANDLE_MASK = hb"
proof (rule bit_word_eqI)
  fix n assume "n < LENGTH(32)"
  have "bit (hb AND HANDLE_MASK) n = bit (0 :: u32) n" "bit (h AND HANDLE_MASK) n = bit h n"
    using assms by simp_all
  then show "bit ((h OR hb) AND NOT HANDLE_MASK) n = bit hb n"
    using \<open>n < LENGTH(32)\<close> by (auto simp: bit_simps)
qed

lemma slots_ok_lookup_iff:
  assumes "slots_ok ch s"
  shows "handle_lookup ch s h = Some c \<longleftrightarrow> c \<in> registered s \<and> ch c = h"
proof -
  from assms obtain k where k: "slot_size s = 2 ^ k" "length (slot s) = 2 ^ k"
    by (auto simp: slots_ok_def)
  have hash: "slot_hash h (2 ^ k) < length (slot s)" using k slot_hash_less by simp
  show ?thesis
  proof
    assume "handle_lookup ch s h = Some c"
    then show "c \<in> registered s \<and> ch c = h"
      using hash k
      by (auto simp: handle_lookup_def registered_def split: option.splits if_splits) (metis nth_mem)
  next
    assume c: "c \<in> registered s \<and> ch c = h"
    then obtain i where "i < length (slot s)" "slot s ! i = Some c"
      by (auto simp: registered_def in_set_conv_nth)
    moreover with assms k have "slot_hash (ch c) (2 ^ k) = i" by (auto simp: slots_ok_def)
    ultimately show "handle_lookup ch s h = Some c" using c k by (simp add: handle_lookup_def)
  qed
qed

lemma slots_ok_cong:
  "(\<And>c. c \<in> registered s \<Longrightarrow> ch' c = ch c) \<Longrightarrow> slots_ok ch s \<Longrightarrow> slots_ok ch' s"
  by (auto simp: slots_ok_def registered_def in_set_conv_nth) (metis nth_mem)+

lemma slots_ok_inj: "slots_ok ch s \<Longrightarrow> inj_on ch (registered s)"
  by (rule inj_onI) (metis option.inject slots_ok_lookup_iff)

lemma probe_slot_Some:
  "probe_slot s i n = Some (h, hash) \<Longrightarrow>
     hash = slot_hash h (slot_size s) \<and> slot s ! hash = None \<and> h AND HANDLE_MASK = h"
  by (induction s i n rule: probe_slot.induct) (auto simp: Let_def and.assoc split: if_splits)

lemma probe_slot_None:
  "probe_slot s i n = None \<Longrightarrow> j < n \<Longrightarrow>
     slot s ! slot_hash ((of_nat (i + j) + handle_index s) AND HANDLE_MASK) (slot_size s) \<noteq> None"
proof (induction s i n arbitrary: j rule: probe_slot.induct)
  case (2 s i n)
  then show ?case
    by (cases j) (force simp: Let_def split: if_splits)+
qed simp

text \<open>The probe sequence visits every cell, so a failed search means a full table.\<close>

lemma probe_slot_None_full:
  assumes "slot_size s = 2 ^ k" "k \<le> 24" "probe_slot s 0 (slot_size s) = None" "r < 2 ^ k"
  shows "slot s ! r \<noteq> None"
proof -
  let ?x = "unat (handle_index s)"
  define j where "j = (r + (2 ^ k - ?x mod 2 ^ k)) mod 2 ^ k"
  have j: "j < 2 ^ k" by (simp add: j_def)
  have "?x mod 2 ^ k \<le> 2 ^ k" by (simp add: less_imp_le)
  then have e: "r + (2 ^ k - ?x mod 2 ^ k) + ?x mod 2 ^ k = r + 2 ^ k" by linarith
  have "(j + ?x) mod 2 ^ k = (r + (2 ^ k - ?x mod 2 ^ k) + ?x mod 2 ^ k) mod 2 ^ k"
    by (simp add: j_def mod_simps)
  also have "\<dots> = (r + 2 ^ k) mod 2 ^ k"
    by (simp only: e)
  finally have jr: "(j + ?x) mod 2 ^ k = r" using assms(4) by simp
  have p: "(2 :: nat) ^ k dvd 2 ^ 24" "(2 :: nat) ^ k dvd 2 ^ 32"
    by (rule le_imp_power_dvd, use assms(2) in linarith)+
  have "slot_hash ((of_nat j + handle_index s) AND HANDLE_MASK) (2 ^ k)
      = (j + ?x) mod 2 ^ LENGTH(32) mod 2 ^ 24 mod 2 ^ k"
    by (simp only: slot_hash_pow2 HANDLE_MASK_mask unat_and_mask unat_word_ariths unat_of_nat mod_simps)
  also have "\<dots> = (j + ?x) mod 2 ^ k"
    using p by (simp only: mod_mod_cancel len_of_numeral_defs) (simp add: mod_mod_cancel)
  also have "\<dots> = r" by (rule jr)
  finally show ?thesis using probe_slot_None [OF assms(3), of j] j assms(1) by simp
qed

lemma full_table_card:
  assumes "slots_ok ch s" "\<forall>i < slot_size s. slot s ! i \<noteq> None"
  shows "card (registered s) = slot_size s" "distinct (map the (slot s))"
    "slot s = map Some (map the (slot s))" "registered s = set (map the (slot s))"
proof -
  have len: "length (slot s) = slot_size s" using assms by (simp add: slots_ok_def)
  show eq: "slot s = map Some (map the (slot s))"
    using assms(2) len by (intro nth_equalityI) auto
  have hash: "slot_hash (ch (the (slot s ! i))) (slot_size s) = i" if "i < slot_size s" for i
    using assms that by (auto simp: slots_ok_def)
  show dist: "distinct (map the (slot s))"
    unfolding distinct_conv_nth using hash len by (metis length_map nth_map)
  have "set (slot s) = Some ` set (map the (slot s))" using eq by (metis set_map)
  then show reg: "registered s = set (map the (slot s))" by (auto simp: registered_def)
  show "card (registered s) = slot_size s"
    unfolding reg using dist len by (metis distinct_card length_map)
qed

lemma rehash_spec:
  assumes "distinct (map (\<lambda>c. slot_hash (ch c) n) xs)"
    "\<forall>c\<in>set xs. slot_hash (ch c) n < length new \<and> new ! slot_hash (ch c) n = None"
  shows "\<exists>new'. rehash ch n (map Some xs) new = Some new' \<and> length new' = length new
    \<and> (\<forall>c\<in>set xs. new' ! slot_hash (ch c) n = Some c)
    \<and> (\<forall>j. j \<notin> (\<lambda>c. slot_hash (ch c) n) ` set xs \<longrightarrow> new' ! j = new ! j)"
  using assms
proof (induction xs arbitrary: new)
  case Nil
  then show ?case by simp
next
  case (Cons c xs)
  let ?h = "slot_hash (ch c) n"
  have "\<forall>d\<in>set xs. slot_hash (ch d) n < length (new[?h := Some c])
      \<and> new[?h := Some c] ! slot_hash (ch d) n = None"
    using Cons.prems by (auto simp: nth_list_update image_iff)
  from Cons.IH [OF _ this] Cons.prems(1) obtain new' where
    new': "rehash ch n (map Some xs) (new[?h := Some c]) = Some new'" "length new' = length new"
      "\<forall>d\<in>set xs. new' ! slot_hash (ch d) n = Some d"
      "\<forall>j. j \<notin> (\<lambda>c. slot_hash (ch c) n) ` set xs \<longrightarrow> new' ! j = new[?h := Some c] ! j"
    by auto
  moreover have "?h \<notin> (\<lambda>c. slot_hash (ch c) n) ` set xs" using Cons.prems(1) by simp
  ultimately show ?case using Cons.prems(2) by (intro exI [of _ new']) auto
qed

lemma grown_hash_inj:
  assumes ok: "slots_ok ch s" and k: "slot_size s = 2 ^ k"
  shows "inj_on (\<lambda>c. slot_hash (ch c) (2 ^ Suc k)) (registered s)"
proof (rule inj_onI)
  have low: "slot_hash (ch c) (2 ^ k) = slot_hash (ch c) (2 ^ Suc k) mod 2 ^ k" for c
    by (simp only: slot_hash_pow2) (simp add: mod_mod_cancel)
  fix c d
  assume cd: "c \<in> registered s" "d \<in> registered s"
    and "slot_hash (ch c) (2 ^ Suc k) = slot_hash (ch d) (2 ^ Suc k)"
  then have "slot_hash (ch c) (2 ^ k) = slot_hash (ch d) (2 ^ k)" by (simp only: low)
  moreover obtain i j where "i < 2 ^ k" "slot s ! i = Some c" "j < 2 ^ k" "slot s ! j = Some d"
    using cd ok k by (auto simp: registered_def slots_ok_def in_set_conv_nth)
  ultimately show "c = d" using ok k by (auto simp: slots_ok_def)
qed

text \<open>A table in which every context sits where its handle hashes to.\<close>

lemma slots_ok_grown:
  assumes ok: "slots_ok ch s" and k: "n = 2 ^ k" "k \<le> 24" and len: "length new = n"
    and in_place: "\<forall>c\<in>registered s. new ! slot_hash (ch c) n = Some c"
    and only: "\<And>i c. i < n \<Longrightarrow> new ! i = Some c \<Longrightarrow> c \<in> registered s \<and> slot_hash (ch c) n = i"
  shows "slots_ok ch (s\<lparr>slot := new, slot_size := n\<rparr>)
    \<and> registered (s\<lparr>slot := new, slot_size := n\<rparr>) = registered s"
proof
  have "ch c AND NOT HANDLE_MASK = harbor s" if "c \<in> registered s" for c
    using ok that by (auto simp: registered_def slots_ok_def in_set_conv_nth)
  then show "slots_ok ch (s\<lparr>slot := new, slot_size := n\<rparr>)"
    using ok k len only by (auto simp: slots_ok_def)
  have "Some c \<in> set new \<longleftrightarrow> c \<in> registered s" for c
    using only in_place len k slot_hash_less [of "ch c" k] by (metis in_set_conv_nth)
  then show "registered (s\<lparr>slot := new, slot_size := n\<rparr>) = registered s"
    by (simp add: registered_def)
qed

text \<open>Doubling a full table never trips its assertion, keeps the invariant and the contexts,
  and leaves a free cell.\<close>

lemma grow_table:
  assumes ok: "slots_ok ch s" and k: "slot_size s = 2 ^ k" "k < 24"
    and full: "\<forall>i < slot_size s. slot s ! i \<noteq> None"
  shows "\<exists>new. rehash ch (slot_size s * 2) (slot s) (replicate (slot_size s * 2) None) = Some new
    \<and> slots_ok ch (s\<lparr>slot := new, slot_size := slot_size s * 2\<rparr>)
    \<and> registered (s\<lparr>slot := new, slot_size := slot_size s * 2\<rparr>) = registered s
    \<and> (\<exists>i < slot_size s * 2. new ! i = None)"
proof -
  let ?xs = "map the (slot s)" and ?n = "2 ^ Suc k :: nat" and ?h = "\<lambda>c. slot_hash (ch c) (2 ^ Suc k)"
  note card = full_table_card [OF ok full]
  have inj: "inj_on ?h (set ?xs)" using grown_hash_inj [OF ok k(1)] by (simp only: card(4))
  then have "distinct (map ?h ?xs)" using card(2) distinct_map [of ?h ?xs] by blast
  moreover have "\<forall>c\<in>set ?xs. ?h c < length (replicate ?n None) \<and> replicate ?n None ! ?h c = None"
    using slot_hash_less [of _ "Suc k"] by simp
  ultimately obtain new where new: "rehash ch ?n (map Some ?xs) (replicate ?n None) = Some new"
    "length new = ?n" "\<forall>c\<in>set ?xs. new ! ?h c = Some c"
    "\<forall>j. j \<notin> ?h ` set ?xs \<longrightarrow> new ! j = replicate ?n None ! j"
    using rehash_spec [of ch ?n ?xs "replicate ?n None"] by auto
  have n: "slot_size s * 2 = ?n" using k by simp
  have "c \<in> set ?xs \<and> ?h c = i" if "i < ?n" "new ! i = Some c" for i c
    using new(3,4) that by (cases "i \<in> ?h ` set ?xs") auto
  then have "slots_ok ch (s\<lparr>slot := new, slot_size := ?n\<rparr>)
      \<and> registered (s\<lparr>slot := new, slot_size := ?n\<rparr>) = registered s"
    using slots_ok_grown [OF ok refl, of "Suc k" new] k(2) new(2,3) by (simp add: card(4))
  moreover have "\<exists>i < slot_size s * 2. new ! i = None"
  proof (rule ccontr)
    assume "\<not> (\<exists>i < slot_size s * 2. new ! i = None)"
    then have "{..<?n} \<subseteq> ?h ` set ?xs" using new(4) n by (metis lessThan_iff nth_replicate subsetI)
    then have "card {..<?n} \<le> card (?h ` set ?xs)" by (intro card_mono) auto
    also have "\<dots> \<le> card (set ?xs)" by (intro card_image_le) auto
    also have "\<dots> = 2 ^ k" using card(1,4) k by simp
    finally show False by simp
  qed
  ultimately show ?thesis unfolding n using new(1) by (subst card(3)) blast
qed

subsection \<open>Registration\<close>

lemma slots_ok_add:
  assumes ok: "slots_ok ch s" and probe: "probe_slot s 0 (slot_size s) = Some (h, hash)"
    and new: "ctx \<notin> registered s"
  defines "s' \<equiv> s\<lparr>slot := (slot s)[hash := Some ctx], handle_index := h + 1\<rparr>"
  shows "slots_ok (ch(ctx := h OR harbor s)) s' \<and> registered s' = insert ctx (registered s)
    \<and> h OR harbor s \<notin> ch ` registered s"
proof -
  from ok obtain k where k: "k \<le> 24" "slot_size s = 2 ^ k" "length (slot s) = 2 ^ k"
    and hb: "harbor s AND HANDLE_MASK = 0" by (auto simp: slots_ok_def)
  from probe_slot_Some [OF probe] have p: "hash = slot_hash h (2 ^ k)" "slot s ! hash = None"
    "h AND HANDLE_MASK = h" unfolding k(2) by blast+
  have hash: "slot_hash (h OR harbor s) (2 ^ k) = hash" "hash < 2 ^ k"
    using slot_hash_harbor [OF hb k(1)] slot_hash_less p(1) by simp_all
  have reg: "c \<in> registered s \<longleftrightarrow> (\<exists>i < 2 ^ k. slot s ! i = Some c)" for c
    using k by (auto simp: registered_def in_set_conv_nth)
  have "slots_ok (ch(ctx := h OR harbor s)) s'"
    unfolding slots_ok_def
  proof (intro conjI allI impI)
    fix i c assume "i < slot_size s'" "slot s' ! i = Some c"
    then have "i = hash \<and> c = ctx \<or> slot s ! i = Some c \<and> c \<noteq> ctx" "i < 2 ^ k"
      using k hash new reg by (auto simp: s'_def nth_list_update split: if_splits)
    then show "slot_hash ((ch(ctx := h OR harbor s)) c) (slot_size s') = i"
      "(ch(ctx := h OR harbor s)) c AND NOT HANDLE_MASK = harbor s'"
      using ok k hash harbor_of_handle [OF hb p(3)] by (auto simp: s'_def slots_ok_def)
  qed (use k hb in \<open>auto simp: s'_def\<close>)
  moreover have "registered s' = insert ctx (registered s)"
    using k p(2) hash by (auto simp: s'_def registered_def in_set_conv_nth nth_list_update split: if_splits)
      (metis option.distinct(1))
  moreover have "h OR harbor s \<notin> ch ` registered s"
    using reg ok k hash(1) p(2) by (auto simp: slots_ok_def)
  ultimately show ?thesis by blast
qed

lemma register_found:
  "probe_slot s 0 (slot_size s) = Some (h, hash) \<Longrightarrow> skynet_handle_register ch ctx s
     = Some (h OR harbor s, s\<lparr>slot := (slot s)[hash := Some ctx], handle_index := h + 1\<rparr>)"
  by (simp add: skynet_handle_register.simps)

lemma register_grows:
  assumes "probe_slot s 0 (slot_size s) = None" "int (slot_size s) * 2 - 1 \<le> uint HANDLE_MASK"
    "rehash ch (slot_size s * 2) (slot s) (replicate (slot_size s * 2) None) = Some new"
  shows "skynet_handle_register ch ctx s
     = skynet_handle_register ch ctx (s\<lparr>slot := new, slot_size := slot_size s * 2\<rparr>)"
  using assms by (subst skynet_handle_register.simps) (simp add: skynet_handle_register.simps [symmetric])

definition same_names :: "handle_storage \<Rightarrow> handle_storage \<Rightarrow> bool" where
  "same_names s s' \<longleftrightarrow> harbor s' = harbor s \<and> name s' = name s \<and> name_count s' = name_count s
     \<and> name_cap s' = name_cap s"

lemma register_spec:
  assumes ok: "slots_ok ch s" and room: "card (registered s) < 2 ^ 24" and new: "ctx \<notin> registered s"
  shows "\<exists>h s'. skynet_handle_register ch ctx s = Some (h, s') \<and> slots_ok (ch(ctx := h)) s'
    \<and> registered s' = insert ctx (registered s) \<and> h \<notin> ch ` registered s \<and> same_names s s'"
proof (cases "probe_slot s 0 (slot_size s)")
  case (Some p)
  obtain h hash where p: "p = (h, hash)" by (cases p)
  from Some p slots_ok_add [OF ok, of h hash ctx] new show ?thesis
    by (auto simp: register_found same_names_def)
next
  case None
  from ok obtain k where k: "k \<le> 24" "slot_size s = 2 ^ k" by (auto simp: slots_ok_def)
  with None have full: "\<forall>i < slot_size s. slot s ! i \<noteq> None"
    using probe_slot_None_full [of s k] by auto
  with room full_table_card(1) [OF ok full] k have "k \<noteq> 24" by auto
  with k have k': "k < 24" by simp
  from grow_table [OF ok k(2) k' full] obtain new where
    re: "rehash ch (slot_size s * 2) (slot s) (replicate (slot_size s * 2) None) = Some new"
    and ok': "slots_ok ch (s\<lparr>slot := new, slot_size := slot_size s * 2\<rparr>)"
    and reg': "registered (s\<lparr>slot := new, slot_size := slot_size s * 2\<rparr>) = registered s"
    and free: "\<exists>i < slot_size s * 2. new ! i = None" by blast
  let ?s1 = "s\<lparr>slot := new, slot_size := slot_size s * 2\<rparr>"
  have size1: "slot_size ?s1 = 2 ^ Suc k" using k by simp
  from free k obtain i where i: "i < 2 ^ Suc k" "new ! i = None" by (auto simp: mult.commute)
  have "probe_slot ?s1 0 (slot_size ?s1) \<noteq> None"
    using probe_slot_None_full [OF size1 _ _ i(1)] k' i(2) by (simp del: not_None_eq) blast
  then obtain h hash where p: "probe_slot ?s1 0 (slot_size ?s1) = Some (h, hash)" by auto
  have "(2 :: int) ^ Suc k \<le> 2 ^ 24" by (rule power_increasing) (use k' in auto)
  then have "int (slot_size s) * 2 - 1 \<le> uint HANDLE_MASK"
    using k by (simp add: HANDLE_MASK_def)
  with None re p have "skynet_handle_register ch ctx s = Some (h OR harbor ?s1,
      ?s1\<lparr>slot := (slot ?s1)[hash := Some ctx], handle_index := h + 1\<rparr>)"
    by (simp only: register_grows register_found)
  with slots_ok_add [OF ok' p] new reg' show ?thesis by (simp add: same_names_def)
qed

subsection \<open>Retiring a handle\<close>

lemma slots_ok_remove:
  assumes ok: "slots_ok ch s" and c: "slot s ! i = Some c" "i < slot_size s"
  shows "slots_ok ch (s\<lparr>slot := (slot s)[i := None]\<rparr>)
    \<and> registered (s\<lparr>slot := (slot s)[i := None]\<rparr>) = registered s - {c}"
proof
  show "slots_ok ch (s\<lparr>slot := (slot s)[i := None]\<rparr>)"
    using ok by (auto simp: slots_ok_def)
  have uniq: "j = i" if "slot s ! j = Some c" "j < slot_size s" for j
    using ok c that by (auto simp: slots_ok_def)
  have len: "length (slot s) = slot_size s" using ok by (simp add: slots_ok_def)
  have "d \<in> registered s \<longleftrightarrow> (\<exists>j < slot_size s. slot s ! j = Some d)" for d
    using len by (auto simp: registered_def in_set_conv_nth)
  moreover have "d \<in> registered (s\<lparr>slot := (slot s)[i := None]\<rparr>)
      \<longleftrightarrow> (\<exists>j < slot_size s. j \<noteq> i \<and> slot s ! j = Some d)" for d
    using len by (auto simp: registered_def in_set_conv_nth)
  ultimately show "registered (s\<lparr>slot := (slot s)[i := None]\<rparr>) = registered s - {c}"
    using uniq c(1) by (intro set_eqI) (metis DiffE DiffI insertI1 option.inject singletonD)
qed

text \<open>The compaction loop keeps, in order, the entries of other handles.\<close>

lemma retire_names_spec:
  assumes "j \<le> i" "i \<le> n" "n \<le> length nm" "retire_names h i j n nm = (j', nm')"
  shows "take j' nm' = take j nm @ filter (\<lambda>x. hn_handle x \<noteq> h) (drop i (take n nm))
    \<and> length nm' = length nm \<and> j' \<le> n"
  using assms
proof (induction h i j n nm rule: retire_names.induct)
  case (1 h i j n nm)
  show ?case
  proof (cases "i < n")
    case False
    with "1.prems" show ?thesis by (simp add: retire_names.simps)
  next
    case True
    then have drop: "drop i (take n nm) = nm ! i # drop (Suc i) (take n nm)"
      using "1.prems" by (simp add: Cons_nth_drop_Suc [symmetric])
    show ?thesis
    proof (cases "hn_handle (nm ! i) = h")
      case eq: True
      with True "1.prems" have "retire_names h (i + 1) j n nm = (j', nm')"
        by (simp add: retire_names.simps [of h i j n nm])
      with "1.IH"(1) [OF True eq] "1.prems" True drop eq show ?thesis by simp
    next
      case ne: False
      let ?nm = "if i \<noteq> j then nm[j := nm ! i] else nm"
      have r: "retire_names h (i + 1) (j + 1) n ?nm = (j', nm')"
        using "1.prems"(4) True ne by (simp add: retire_names.simps [of h i j n nm])
      have "take j' nm' = take (j + 1) ?nm @ filter (\<lambda>x. hn_handle x \<noteq> h) (drop (i + 1) (take n ?nm))
          \<and> length nm' = length ?nm \<and> j' \<le> n"
        by (rule "1.IH"(2) [OF True ne _ _ _ r]) (use "1.prems" True in auto)
      moreover have "take (j + 1) ?nm = take j nm @ [nm ! i]"
        using "1.prems" True by (auto simp: take_Suc_conv_app_nth)
      moreover have "drop (i + 1) (take n ?nm) = drop (Suc i) (take n nm)"
        using "1.prems" by (auto simp: drop_take)
      ultimately show ?thesis using drop ne by simp
    qed
  qed
qed

definition handle_names :: "handle_storage \<Rightarrow> handle_name list" where
  "handle_names s = take (name_count s) (name s)"

definition names_ok :: "handle_storage \<Rightarrow> bool" where
  "names_ok s \<longleftrightarrow> length (name s) = name_cap s \<and> name_count s \<le> name_cap s \<and> (\<exists>k\<le>30. name_cap s = 2 ^ k)
     \<and> sorted_wrt (\<lambda>a b. strcmp (hn_name a) (hn_name b) < 0) (handle_names s)"

definition name_map :: "handle_storage \<Rightarrow> string \<rightharpoonup> u32" where
  "name_map s = map_of (map (\<lambda>n. (hn_name n, hn_handle n)) (handle_names s))"

lemma retire_table_miss: "handle_lookup ch s h = None \<Longrightarrow> retire_table ch h s = (None, s)"
  by (cases "slot s ! slot_hash h (slot_size s)")
    (simp_all add: retire_table_def handle_lookup_def split: if_splits)

lemma retire_table_hit:
  "handle_lookup ch s h = Some c \<Longrightarrow> retire_names h 0 0 (name_count s) (name s) = (j, nm) \<Longrightarrow>
     slot s ! slot_hash h (slot_size s) = Some c \<and> retire_table ch h s
       = (Some c, s\<lparr>slot := (slot s)[slot_hash h (slot_size s) := None], name := nm, name_count := j\<rparr>)"
  by (cases "slot s ! slot_hash h (slot_size s)")
    (simp_all add: retire_table_def handle_lookup_def split: if_splits)

lemma retire_table_spec:
  assumes ok: "slots_ok ch s" and names: "names_ok s" and r: "retire_table ch h s = (r, s')"
  shows "r = handle_lookup ch s h \<and> slots_ok ch s' \<and> registered s' = registered s - set_option r
    \<and> names_ok s' \<and> handle_names s' = (if r = None then handle_names s
         else filter (\<lambda>n. hn_handle n \<noteq> h) (handle_names s))"
proof (cases "handle_lookup ch s h")
  case None
  with retire_table_miss ok names r show ?thesis by simp
next
  case (Some c)
  from ok obtain k where "slot_size s = 2 ^ k" by (auto simp: slots_ok_def)
  then have i: "slot_hash h (slot_size s) < slot_size s" (is "?i < _") using slot_hash_less by simp
  obtain j nm where loop: "retire_names h 0 0 (name_count s) (name s) = (j, nm)"
    by (cases "retire_names h 0 0 (name_count s) (name s)")
  from retire_table_hit [OF Some loop] r
  have hit: "slot s ! ?i = Some c" "r = Some c"
    "s' = s\<lparr>slot := (slot s)[?i := None], name := nm, name_count := j\<rparr>" by simp_all
  have nm: "take j nm = filter (\<lambda>n. hn_handle n \<noteq> h) (handle_names s)" "length nm = length (name s)"
    "j \<le> name_count s"
    using retire_names_spec [OF _ _ _ loop] names by (simp_all add: names_ok_def handle_names_def)
  have "slots_ok ch s' = slots_ok ch (s\<lparr>slot := (slot s)[?i := None]\<rparr>)"
    "registered s' = registered (s\<lparr>slot := (slot s)[?i := None]\<rparr>)"
    by (simp_all add: hit(3) slots_ok_def registered_def)
  moreover have "names_ok s'" "handle_names s' = filter (\<lambda>n. hn_handle n \<noteq> h) (handle_names s)"
    using nm names by (simp_all add: hit(3) names_ok_def handle_names_def sorted_wrt_filter)
  ultimately show ?thesis using slots_ok_remove [OF ok hit(1) i] hit(2) Some by simp
qed

subsection \<open>Binary search and insertion of names\<close>

lemma name_search_spec:
  assumes "sorted_wrt (\<lambda>a b. strcmp (hn_name a) (hn_name b) < 0) (take n nm)" "n \<le> length nm"
    "0 \<le> b" "b \<le> e + 1" "e < int n"
    "\<forall>i < nat b. strcmp (hn_name (nm ! i)) str < 0"
    "\<forall>i < n. nat (e + 1) \<le> i \<longrightarrow> strcmp (hn_name (nm ! i)) str > 0"
  shows "case name_search nm str b e of
      Inl x \<Rightarrow> \<exists>i < n. x = nm ! i \<and> hn_name x = str
    | Inr p \<Rightarrow> 0 \<le> p \<and> p \<le> int n \<and> (\<forall>i < nat p. strcmp (hn_name (nm ! i)) str < 0)
        \<and> (\<forall>i < n. nat p \<le> i \<longrightarrow> strcmp (hn_name (nm ! i)) str > 0)"
  using assms
proof (induction nm str b e rule: name_search.induct)
  case (1 nm str b e)
  show ?case
  proof (cases "b \<le> e")
    case False
    with "1.prems" have "nat (e + 1) = nat b" by simp
    with False "1.prems" show ?thesis by (simp add: name_search.simps [of nm str b e])
  next
    case True
    define mid where "mid = (b + e) div 2"
    have mid: "b \<le> mid" "mid \<le> e" "nat mid < n" using True "1.prems"(3,5) by (auto simp: mid_def)
    let ?c = "strcmp (hn_name (nm ! nat mid)) str"
    have order: "strcmp (hn_name (nm ! i)) (hn_name (nm ! j)) < 0" if "i < j" "j < n" for i j
      using sorted_wrt_nth_less [OF "1.prems"(1) that(1)] that "1.prems"(2) by simp
    consider "?c = 0" | "?c < 0" | "?c > 0" by linarith
    then show ?thesis
    proof cases
      assume "?c = 0"
      with True mid show ?thesis
        by (auto simp: name_search.simps [of nm str b e] Let_def mid_def [symmetric])
    next
      assume c: "?c < 0"
      then have ne: "hn_name (nm ! nat mid) \<noteq> str" by auto
      have "strcmp (hn_name (nm ! i)) str < 0" if i: "i < nat (mid + 1)" for i
      proof (cases "i = nat mid")
        case False
        with i have "i < nat mid" by linarith
        with order mid(3) c show ?thesis by (blast intro: strcmp_less_trans)
      qed (use c in simp)
      then show ?thesis
        using "1.IH"(1) [OF True mid_def refl refl] c ne True mid "1.prems"
        by (simp add: name_search.simps [of nm str b e] Let_def mid_def [symmetric])
    next
      assume c: "?c > 0"
      then have ne: "hn_name (nm ! nat mid) \<noteq> str" "\<not> ?c < 0" by auto
      have "strcmp (hn_name (nm ! i)) str > 0" if i: "i < n" "nat mid \<le> i" for i
      proof (cases "i = nat mid")
        case False
        with i have "nat mid < i" by linarith
        with order [of "nat mid" i] i c show ?thesis by (metis strcmp_less_asym strcmp_less_trans)
      qed (use c in simp)
      then show ?thesis
        using "1.IH"(2) [OF True mid_def refl refl] c ne True mid "1.prems"
        by (simp add: name_search.simps [of nm str b e] Let_def mid_def [symmetric])
    qed
  qed
qed

lemma shift_names_nth:
  "i < length nm \<Longrightarrow> length (shift_names i p nm) = length nm
     \<and> (\<forall>j < length nm. shift_names i p nm ! j = (if p < j \<and> j \<le> i then nm ! (j - 1) else nm ! j))"
proof (induction i p nm rule: shift_names.induct)
  case (1 i p nm)
  show ?case
  proof (cases "i > p")
    case True
    have "length (shift_names (i - 1) p (nm[i := nm ! (i - 1)])) = length nm
      \<and> (\<forall>j < length nm. shift_names (i - 1) p (nm[i := nm ! (i - 1)]) ! j
           = (if p < j \<and> j \<le> i - 1 then nm[i := nm ! (i - 1)] ! (j - 1) else nm[i := nm ! (i - 1)] ! j))"
      using "1.IH" [OF True] "1.prems" by simp
    with True "1.prems" show ?thesis
      by (auto simp: shift_names.simps [of i p nm] nth_list_update)
  next
    case False
    then show ?thesis by (auto simp: shift_names.simps)
  qed
qed

lemma insert_array:
  assumes "c < length a" "p \<le> c" "c \<le> length nm" "\<forall>j < p. a ! j = nm ! j"
    "\<forall>j. p < j \<and> j \<le> c \<longrightarrow> a ! j = nm ! (j - 1)"
  shows "take (c + 1) (a[p := x]) = take p (take c nm) @ x # drop p (take c nm)"
proof (rule nth_equalityI)
  show "length (take (c + 1) (a[p := x])) = length (take p (take c nm) @ x # drop p (take c nm))"
    using assms by simp
  fix j assume "j < length (take (c + 1) (a[p := x]))"
  then have j: "j \<le> c" using assms by simp
  consider "j < p" | "j = p" | "p < j" by linarith
  then show "take (c + 1) (a[p := x]) ! j = (take p (take c nm) @ x # drop p (take c nm)) ! j"
    by cases (use assms j in \<open>auto simp: nth_append nth_Cons'\<close>)
qed

lemma insert_name_before_spec:
  assumes names: "names_ok s" and p: "p \<le> name_count s" and room: "name_count s < MAX_SLOT_SIZE"
  shows "\<exists>s'. insert_name_before s str h p = Some s'
    \<and> handle_names s' = take p (handle_names s) @ \<lparr>hn_name = str, hn_handle = h\<rparr> # drop p (handle_names s)
    \<and> length (name s') = name_cap s' \<and> name_count s' \<le> name_cap s' \<and> (\<exists>k\<le>30. name_cap s' = 2 ^ k)
    \<and> harbor s' = harbor s \<and> slot s' = slot s \<and> slot_size s' = slot_size s \<and> handle_index s' = handle_index s"
proof (cases "name_count s \<ge> name_cap s")
  case True
  from names obtain k where k: "k \<le> 30" "name_cap s = 2 ^ k" by (auto simp: names_ok_def)
  with True room names have "k \<noteq> 30" by (auto simp: names_ok_def MAX_SLOT_SIZE_def)
  with k have k': "Suc k \<le> 30" by simp
  have "(2 :: nat) ^ Suc k \<le> 2 ^ 30" by (rule power_increasing) (use k' in auto)
  with k have cap: "name_cap s * 2 \<le> MAX_SLOT_SIZE" "name_cap s * 2 = 2 ^ Suc k"
    by (simp_all add: MAX_SLOT_SIZE_def)
  have "0 < name_cap s" using k by simp
  let ?a = "map (\<lambda>i. if i < p then name s ! i else if p < i \<and> i \<le> name_count s then name s ! (i - 1)
    else blank_name) [0..<name_cap s * 2]"
  have "take (name_count s + 1) (?a[p := \<lparr>hn_name = str, hn_handle = h\<rparr>]) = take p (handle_names s)
      @ \<lparr>hn_name = str, hn_handle = h\<rparr> # drop p (handle_names s)"
    unfolding handle_names_def
    by (rule insert_array) (use names p \<open>0 < name_cap s\<close> in \<open>auto simp: names_ok_def\<close>)
  moreover have "\<not> MAX_SLOT_SIZE < name_cap s * 2" "name_count s + 1 \<le> name_cap s * 2"
    "\<exists>j\<le>30. name_cap s * 2 = 2 ^ j"
    using cap k' names True \<open>0 < name_cap s\<close> by (auto simp: names_ok_def simp del: power_Suc)
  ultimately show ?thesis
    using True by (simp add: insert_name_before_def handle_names_def Let_def)
next
  case False
  let ?a = "shift_names (name_count s) p (name s)"
  have a: "length ?a = length (name s)"
    "\<forall>j < length (name s). ?a ! j = (if p < j \<and> j \<le> name_count s then name s ! (j - 1) else name s ! j)"
    using shift_names_nth [of "name_count s" "name s" p] False names by (auto simp: names_ok_def)
  have "take (name_count s + 1) (?a[p := \<lparr>hn_name = str, hn_handle = h\<rparr>]) = take p (handle_names s)
      @ \<lparr>hn_name = str, hn_handle = h\<rparr> # drop p (handle_names s)"
    unfolding handle_names_def by (rule insert_array) (use names p False a in \<open>auto simp: names_ok_def\<close>)
  with False a(1) names show ?thesis
    by (auto simp: insert_name_before_def handle_names_def names_ok_def)
qed

lemma handle_names_nth:
  "names_ok s \<Longrightarrow> i < name_count s \<Longrightarrow> handle_names s ! i = name s ! i"
  "names_ok s \<Longrightarrow> length (handle_names s) = name_count s"
  by (auto simp: names_ok_def handle_names_def)

lemma name_search_names:
  assumes "names_ok s"
  shows "case name_search (name s) str 0 (int (name_count s) - 1) of
      Inl x \<Rightarrow> x \<in> set (handle_names s) \<and> hn_name x = str
    | Inr p \<Rightarrow> 0 \<le> p \<and> p \<le> int (name_count s)
        \<and> (\<forall>x \<in> set (take (nat p) (handle_names s)). strcmp (hn_name x) str < 0)
        \<and> (\<forall>x \<in> set (drop (nat p) (handle_names s)). strcmp (hn_name x) str > 0)"
proof -
  let ?n = "name_count s"
  have len: "length (handle_names s) = ?n" "\<And>i. i < ?n \<Longrightarrow> handle_names s ! i = name s ! i"
    using handle_names_nth [OF assms] by auto
  have spec: "case name_search (name s) str 0 (int ?n - 1) of
      Inl x \<Rightarrow> \<exists>i < ?n. x = name s ! i \<and> hn_name x = str
    | Inr p \<Rightarrow> 0 \<le> p \<and> p \<le> int ?n \<and> (\<forall>i < nat p. strcmp (hn_name (name s ! i)) str < 0)
        \<and> (\<forall>i < ?n. nat p \<le> i \<longrightarrow> strcmp (hn_name (name s ! i)) str > 0)"
    by (rule name_search_spec) (use assms in \<open>auto simp: names_ok_def handle_names_def\<close>)
  show ?thesis
  proof (cases "name_search (name s) str 0 (int ?n - 1)")
    case (Inl x)
    with spec len show ?thesis by (auto simp: in_set_conv_nth)
  next
    case (Inr p)
    with spec have p: "0 \<le> p" "p \<le> int ?n" "\<And>i. i < nat p \<Longrightarrow> strcmp (hn_name (name s ! i)) str < 0"
      "\<And>i. i < ?n \<Longrightarrow> nat p \<le> i \<Longrightarrow> strcmp (hn_name (name s ! i)) str > 0" by auto
    have "strcmp (hn_name x) str < 0" if "x \<in> set (take (nat p) (handle_names s))" for x
      using that p(1-3) len by (auto simp: in_set_conv_nth)
    moreover have "strcmp (hn_name x) str > 0" if "x \<in> set (drop (nat p) (handle_names s))" for x
      using that p(1,2) p(4) len by (fastforce simp: in_set_conv_nth)
    ultimately show ?thesis using Inr p(1,2) by simp
  qed
qed

lemma name_map_None_iff: "name_map s n = None \<longleftrightarrow> n \<notin> hn_name ` set (handle_names s)"
  by (simp add: name_map_def map_of_eq_None_iff image_image)

lemma names_ok_distinct: "names_ok s \<Longrightarrow> distinct (map hn_name (handle_names s))"
  unfolding names_ok_def distinct_conv_nth
  by (metis (no_types, lifting) length_map less_irrefl linorder_neqE_nat nth_map sorted_wrt_nth_less strcmp_refl)

lemma name_map_member:
  assumes "names_ok s" "x \<in> set (handle_names s)"
  shows "name_map s (hn_name x) = Some (hn_handle x)"
  unfolding name_map_def
  by (rule map_of_is_SomeI) (use assms names_ok_distinct in \<open>auto simp: comp_def\<close>)

lemma findname_map:
  assumes "names_ok s"
  shows "skynet_handle_findname s n = (case name_map s n of None \<Rightarrow> 0 | Some h \<Rightarrow> h)"
proof (cases "name_search (name s) n 0 (int (name_count s) - 1)")
  case (Inl x)
  with name_search_names [OF assms, of n] have "x \<in> set (handle_names s)" "hn_name x = n" by simp_all
  with name_map_member [OF assms, of x] Inl show ?thesis by (simp add: skynet_handle_findname_def)
next
  case (Inr p)
  with name_search_names [OF assms, of n]
  have "\<forall>x \<in> set (take (nat p) (handle_names s)) \<union> set (drop (nat p) (handle_names s)). hn_name x \<noteq> n"
    by fastforce
  then have "name_map s n = None"
    unfolding name_map_None_iff by (metis (no_types) append_take_drop_id imageE set_append)
  with Inr show ?thesis by (simp add: skynet_handle_findname_def)
qed

lemma namehandle_old:
  assumes "names_ok s" "name_map s n = Some h0"
  shows "skynet_handle_namehandle h n s = Some (None, s)"
proof (cases "name_search (name s) n 0 (int (name_count s) - 1)")
  case (Inl x)
  then show ?thesis by (simp add: skynet_handle_namehandle_def insert_name_def)
next
  case (Inr p)
  with name_search_names [OF assms(1), of n]
  have "\<forall>x \<in> set (take (nat p) (handle_names s)) \<union> set (drop (nat p) (handle_names s)). hn_name x \<noteq> n"
    by fastforce
  then have "name_map s n = None"
    unfolding name_map_None_iff by (metis (no_types) append_take_drop_id imageE set_append)
  with assms(2) show ?thesis by simp
qed

definition same_slots :: "handle_storage \<Rightarrow> handle_storage \<Rightarrow> bool" where
  "same_slots s t \<longleftrightarrow> harbor t = harbor s \<and> slot t = slot s \<and> slot_size t = slot_size s
     \<and> handle_index t = handle_index s"

lemma namehandle_new:
  assumes ok: "names_ok s" and new: "name_map s n = None" and room: "name_count s < MAX_SLOT_SIZE"
  shows "\<exists>s'. skynet_handle_namehandle h n s = Some (Some n, s') \<and> names_ok s'
    \<and> name_map s' = (name_map s)(n \<mapsto> h) \<and> name_count s' = name_count s + 1 \<and> same_slots s s'"
proof (cases "name_search (name s) n 0 (int (name_count s) - 1)")
  case (Inl x)
  with name_search_names [OF ok, of n] name_map_member [OF ok] new show ?thesis by auto
next
  case (Inr p)
  let ?l = "take (nat p) (handle_names s)" and ?r = "drop (nat p) (handle_names s)"
  let ?x = "\<lparr>hn_name = n, hn_handle = h\<rparr>"
  from name_search_names [OF ok, of n] Inr have p: "nat p \<le> name_count s"
    and lt: "\<forall>x \<in> set ?l. strcmp (hn_name x) n < 0" and gt: "\<forall>x \<in> set ?r. strcmp n (hn_name x) < 0"
    by (auto simp: strcmp_less_asym [of n])
  from insert_name_before_spec [OF ok p room, of n h] obtain s' where
    ins: "insert_name_before s n h (nat p) = Some s'" and names: "handle_names s' = ?l @ ?x # ?r"
    and shape: "length (name s') = name_cap s'" "name_count s' \<le> name_cap s'" "\<exists>k\<le>30. name_cap s' = 2 ^ k"
    and same: "same_slots s s'" by (auto simp: same_slots_def)
  let ?lt = "\<lambda>a b. strcmp (hn_name a) (hn_name b) < 0"
  have "sorted_wrt ?lt (?l @ ?r)" using ok by (simp add: names_ok_def)
  then have "sorted_wrt ?lt (handle_names s')"
    unfolding names sorted_wrt_append using lt gt by simp
  with shape have ok': "names_ok s'" by (simp add: names_ok_def)
  have set': "set (handle_names s') = insert ?x (set (handle_names s))"
    unfolding names by (metis Un_insert_right append_take_drop_id list.simps(15) set_append)
  have "name_map s' m = ((name_map s)(n \<mapsto> h)) m" for m
  proof (cases "name_map s' m")
    case None
    then have "m \<noteq> n" "name_map s m = None" by (auto simp: name_map_None_iff set')
    with None show ?thesis by simp
  next
    case (Some v)
    then obtain x where x: "x \<in> set (handle_names s')" "hn_name x = m" "hn_handle x = v"
      by (auto simp: name_map_def dest!: map_of_SomeD)
    show ?thesis
    proof (cases "x = ?x")
      case True
      with x Some show ?thesis by auto
    next
      case False
      with x set' have "x \<in> set (handle_names s)" by auto
      with name_map_member [OF ok this] x new Some show ?thesis by auto
    qed
  qed
  moreover have "name_count s' = name_count s + 1"
    using arg_cong [OF names, of length] handle_names_nth(2) [OF ok'] handle_names_nth(2) [OF ok] p by simp
  ultimately show ?thesis
    using ins ok' same Inr by (auto simp: skynet_handle_namehandle_def insert_name_def)
qed

lemma names_ok_card: "names_ok s \<Longrightarrow> card (dom (name_map s)) = name_count s"
proof -
  assume ok: "names_ok s"
  have "dom (name_map s) = set (map hn_name (handle_names s))"
    by (auto simp: name_map_def dom_map_of_conv_image_fst image_image)
  then show ?thesis
    using distinct_card [OF names_ok_distinct [OF ok]] handle_names_nth(2) [OF ok] by simp
qed

subsection \<open>The contract of a name service\<close>

text \<open>What the commands that name services rely on: a name that is bound stays bound to
  its first value, a new name is bound while there is room, and a lookup reads the table.\<close>

primrec bind_all :: "('v \<Rightarrow> 'n \<Rightarrow> 's \<Rightarrow> ('n option \<times> 's) option) \<Rightarrow> 's \<Rightarrow> ('n \<times> 'v) list \<Rightarrow> 's option" where
  "bind_all assign s [] = Some s"
| "bind_all assign s (b # bs) = do { (r, s') \<leftarrow> assign (snd b) (fst b) s; bind_all assign s' bs }"

locale name_service =
  fixes find :: "'s \<Rightarrow> 'n \<Rightarrow> 'v"
    and assign :: "'v \<Rightarrow> 'n \<Rightarrow> 's \<Rightarrow> ('n option \<times> 's) option"
    and tab :: "'s \<Rightarrow> 'n \<rightharpoonup> 'v"
    and inv :: "'s \<Rightarrow> bool"
    and absent :: 'v
    and capacity :: nat
  assumes find_tab: "inv s \<Longrightarrow> find s n = (case tab s n of None \<Rightarrow> absent | Some v \<Rightarrow> v)"
    and bind_bound: "inv s \<Longrightarrow> tab s n = Some w \<Longrightarrow> assign v n s = Some (None, s)"
    and bind_free: "inv s \<Longrightarrow> tab s n = None \<Longrightarrow> card (dom (tab s)) < capacity \<Longrightarrow>
      \<exists>s'. assign v n s = Some (Some n, s') \<and> inv s' \<and> tab s' = (tab s)(n \<mapsto> v)"
    and tab_finite: "inv s \<Longrightarrow> finite (dom (tab s))"
begin

lemma bind_step:
  assumes "inv s" "card (dom (tab s)) < capacity"
  shows "\<exists>r s'. assign v n s = Some (r, s') \<and> inv s' \<and> tab s' = [n \<mapsto> v] ++ tab s
    \<and> card (dom (tab s')) \<le> Suc (card (dom (tab s)))"
proof (cases "tab s n")
  case None
  then have "[n \<mapsto> v] ++ tab s = (tab s)(n \<mapsto> v)"
    by (auto simp: map_add_def fun_eq_iff split: option.splits)
  with bind_free [OF assms(1) None assms(2), of v] tab_finite [OF assms(1)] None show ?thesis
    by (auto simp: domIff)
next
  case (Some w)
  then have "[n \<mapsto> v] ++ tab s = tab s" by (auto simp: map_add_def fun_eq_iff split: option.splits)
  with bind_bound [OF assms(1) Some, of v] assms(1) show ?thesis by auto
qed

lemma bind_all_first:
  "inv s \<Longrightarrow> card (dom (tab s)) + length bs \<le> capacity \<Longrightarrow>
     \<exists>s'. bind_all assign s bs = Some s' \<and> inv s' \<and> tab s' = map_of bs ++ tab s"
proof (induction bs arbitrary: s)
  case Nil
  then show ?case by simp
next
  case (Cons b bs)
  obtain n v where b: "b = (n, v)" by (cases b)
  from bind_step [OF Cons.prems(1), of v n] Cons.prems(2) obtain r s1 where
    s1: "assign v n s = Some (r, s1)" "inv s1" "tab s1 = [n \<mapsto> v] ++ tab s"
    "card (dom (tab s1)) \<le> Suc (card (dom (tab s)))" by auto
  with Cons.prems(2) Cons.IH [of s1] obtain s' where
    "bind_all assign s1 bs = Some s'" "inv s'" "tab s' = map_of bs ++ tab s1" by auto
  moreover have "map_of bs ++ ([n \<mapsto> v] ++ tab s) = map_of (b # bs) ++ tab s"
    by (simp add: b fun_eq_iff map_add_def split: option.splits)
  ultimately show ?case using s1 b by (simp add: fun_upd_def)
qed

lemma find_after_bind_all:
  assumes "inv s" "card (dom (tab s)) + length bs \<le> capacity"
  shows "\<exists>s'. bind_all assign s bs = Some s'
    \<and> (\<forall>n. find s' n = (case (map_of bs ++ tab s) n of None \<Rightarrow> absent | Some v \<Rightarrow> v))"
  using bind_all_first [OF assms] find_tab by fastforce

end

interpretation names: name_service skynet_handle_findname skynet_handle_namehandle name_map names_ok
  0 MAX_SLOT_SIZE
proof unfold_locales
  fix s :: handle_storage and n h h0
  assume ok: "names_ok s"
  show "skynet_handle_findname s n = (case name_map s n of None \<Rightarrow> 0 | Some v \<Rightarrow> v)"
    by (rule findname_map [OF ok])
  show "name_map s n = Some h0 \<Longrightarrow> skynet_handle_namehandle h n s = Some (None, s)"
    by (rule namehandle_old [OF ok])
  show "\<exists>s'. skynet_handle_namehandle h n s = Some (Some n, s') \<and> names_ok s'
      \<and> name_map s' = (name_map s)(n \<mapsto> h)"
    if "name_map s n = None" "card (dom (name_map s)) < MAX_SLOT_SIZE"
    using namehandle_new [OF ok that(1), of h] that(2) names_ok_card [OF ok] by auto
  show "finite (dom (name_map s))" by (simp add: name_map_def finite_dom_map_of)
qed

lemma handle_init_ok:
  "slots_ok ch (skynet_handle_init harb)" "names_ok (skynet_handle_init harb)"
  "registered (skynet_handle_init harb) = {}" "name_map (skynet_handle_init harb) = Map.empty"
proof -
  have "push_bit 24 (word_of_int harb AND 0xff :: u32) AND HANDLE_MASK = 0"
    unfolding HANDLE_MASK_mask by (rule bit_word_eqI) (simp add: bit_simps)
  then show "slots_ok ch (skynet_handle_init harb)"
    by (auto simp: slots_ok_def skynet_handle_init_def DEFAULT_SLOT_SIZE_def HANDLE_REMOTE_SHIFT_def
        nth_replicate intro!: exI [of _ 2])
  show "names_ok (skynet_handle_init harb)"
    by (auto simp: names_ok_def handle_names_def skynet_handle_init_def intro!: exI [of _ 1])
  show "registered (skynet_handle_init harb) = {}" "name_map (skynet_handle_init harb) = Map.empty"
    by (simp_all add: registered_def name_map_def handle_names_def skynet_handle_init_def)
qed

subsection \<open>Properties of the handle storage\<close>

lemma name_map_same_names: "same_names s s' \<Longrightarrow> name_map s' = name_map s"
  by (simp add: same_names_def name_map_def handle_names_def)

lemma lookup_after_register:
  assumes ok: "slots_ok ch s" and ok': "slots_ok (ch(ctx := h)) s'" and new: "ctx \<notin> registered s"
    and reg: "registered s' = insert ctx (registered s)"
  shows "handle_lookup (ch(ctx := h)) s' h' = (if h' = h then Some ctx else handle_lookup ch s h')"
proof (cases "h' = h")
  case True
  with slots_ok_lookup_iff [OF ok', of h ctx] reg show ?thesis by simp
next
  case False
  have "handle_lookup (ch(ctx := h)) s' h' = Some c \<longleftrightarrow> handle_lookup ch s h' = Some c" for c
    unfolding slots_ok_lookup_iff [OF ok] slots_ok_lookup_iff [OF ok'] using False new reg by auto
  with False show ?thesis by (metis not_Some_eq)
qed

lemma slots_ok_harbor: "slots_ok ch s \<Longrightarrow> c \<in> registered s \<Longrightarrow> ch c AND NOT HANDLE_MASK = harbor s"
  by (auto simp: slots_ok_def registered_def in_set_conv_nth)

text \<open>C4. Registering a context that is not yet in the table, while fewer than 2^24 contexts
  are registered, always returns, growing the table when it is full. The handle returned
  carries the harbor of the node and was not in use. Afterwards it finds the new context,
  every other handle finds what it found before, no name is changed, and the table is well
  formed.\<close>

theorem handle_register_fresh:
  assumes "slots_ok ch s" "ctx \<notin> registered s" "card (registered s) < 2 ^ 24"
  shows "\<exists>h s'. skynet_handle_register ch ctx s = Some (h, s')
    \<and> handle_lookup ch s h = None \<and> h AND NOT HANDLE_MASK = harbor s
    \<and> (\<forall>h'. handle_lookup (ch(ctx := h)) s' h' = (if h' = h then Some ctx else handle_lookup ch s h'))
    \<and> name_map s' = name_map s \<and> slots_ok (ch(ctx := h)) s'"
proof -
  from register_spec [OF assms(1,3,2)] obtain h s' where
    r: "skynet_handle_register ch ctx s = Some (h, s')" "slots_ok (ch(ctx := h)) s'"
    "registered s' = insert ctx (registered s)" "h \<notin> ch ` registered s" "same_names s s'" by blast
  have "handle_lookup ch s h = None"
    using r(4) slots_ok_lookup_iff [OF assms(1)] by (metis image_eqI not_Some_eq)
  moreover have "h AND NOT HANDLE_MASK = harbor s"
    using slots_ok_harbor [OF r(2), of ctx] r(3,5) by (simp add: same_names_def)
  ultimately show ?thesis
    using r lookup_after_register [OF assms(1) r(2) assms(2) r(3)] name_map_same_names by blast
qed

theorem handle_register_fresh_witness:
  "\<exists>h s'. skynet_handle_register (\<lambda>c. 0) 7 (skynet_handle_init 3) = Some (h, s')
    \<and> handle_lookup ((\<lambda>c. 0)(7 := h)) s' h = Some 7"
  using handle_register_fresh [of "\<lambda>c. 0" "skynet_handle_init 3" 7] handle_init_ok by auto

text \<open>C7. Retiring a handle removes exactly its context from the table, if it has one, and
  then exactly the names bound to that handle; every other handle and name keeps its value,
  and the sorted array of names and the table stay well formed.\<close>

theorem handle_retire_exact:
  assumes "slots_ok ch s" "names_ok s" "retire_table ch h s = (r, s')"
  shows "r = handle_lookup ch s h
    \<and> (\<forall>h'. handle_lookup ch s' h' = (if h' = h then None else handle_lookup ch s h'))
    \<and> (\<forall>n. skynet_handle_findname s' n
         = (if r \<noteq> None \<and> skynet_handle_findname s n = h then 0 else skynet_handle_findname s n))
    \<and> slots_ok ch s' \<and> names_ok s'"
proof -
  from retire_table_spec [OF assms] have r: "r = handle_lookup ch s h" "slots_ok ch s'"
    "registered s' = registered s - set_option r" "names_ok s'"
    "handle_names s' = (if r = None then handle_names s
       else filter (\<lambda>n. hn_handle n \<noteq> h) (handle_names s))" by blast+
  have "handle_lookup ch s' h' = Some c \<longleftrightarrow> h' \<noteq> h \<and> handle_lookup ch s h' = Some c" for h' c
    using slots_ok_lookup_iff [OF assms(1)] slots_ok_lookup_iff [OF r(2)] r(1,3) slots_ok_inj [OF assms(1)]
    by (cases r) (auto simp: inj_on_def)
  then have "handle_lookup ch s' h' = (if h' = h then None else handle_lookup ch s h')" for h'
    by (metis not_Some_eq)
  moreover have "name_map s' n = (case name_map s n of None \<Rightarrow> None
      | Some v \<Rightarrow> if r \<noteq> None \<and> v = h then None else Some v)" for n
  proof (cases "name_map s' n")
    case None
    then have none: "n \<notin> hn_name ` set (handle_names s')" by (simp add: name_map_None_iff)
    have "r \<noteq> None \<and> v = h" if v: "name_map s n = Some v" for v
    proof -
      from v obtain x where x: "x \<in> set (handle_names s)" "hn_name x = n" "hn_handle x = v"
        by (auto simp: name_map_def dest!: map_of_SomeD)
      with none r(5) show ?thesis by (auto split: if_splits)
    qed
    with None show ?thesis by (auto split: option.splits)
  next
    case (Some v)
    then obtain x where x: "x \<in> set (handle_names s')" "hn_name x = n" "hn_handle x = v"
      by (auto simp: name_map_def dest!: map_of_SomeD)
    with r(5) name_map_member [OF assms(2), of x] Some show ?thesis by (auto split: if_splits)
  qed
  then have "skynet_handle_findname s' n
      = (if r \<noteq> None \<and> skynet_handle_findname s n = h then 0 else skynet_handle_findname s n)" for n
    unfolding findname_map [OF assms(2)] findname_map [OF r(4)] by (auto split: option.splits)
  ultimately show ?thesis using r by blast
qed

theorem handle_retire_exact_witness:
  "\<exists>r s'. retire_table (\<lambda>c. 0) 5 (skynet_handle_init 1) = (r, s') \<and> r = None \<and> names_ok s'"
proof -
  obtain r s' where e: "retire_table (\<lambda>c. 0) 5 (skynet_handle_init 1) = (r, s')"
    by (cases "retire_table (\<lambda>c. 0) 5 (skynet_handle_init 1)")
  from handle_retire_exact [OF handle_init_ok(1,2) e] e show ?thesis
    using slots_ok_lookup_iff [OF handle_init_ok(1)] handle_init_ok(3)
    by (metis empty_iff not_Some_eq)
qed

text \<open>C6. Any sequence of at most 2^30 naming requests on a fresh storage succeeds, and
  afterwards the binary search finds for every name the handle of the first request that
  named it, and 0 for a name that was never bound.\<close>

theorem handle_names_first_wins:
  assumes "length bs \<le> MAX_SLOT_SIZE"
  shows "\<exists>s. bind_all skynet_handle_namehandle (skynet_handle_init harb) bs = Some s
    \<and> (\<forall>n. skynet_handle_findname s n = (case map_of bs n of None \<Rightarrow> 0 | Some h \<Rightarrow> h))"
  using names.find_after_bind_all [of "skynet_handle_init harb" bs] handle_init_ok assms by simp

theorem handle_names_first_wins_witness:
  "\<exists>s. bind_all skynet_handle_namehandle (skynet_handle_init 1)
      [(''logger'', 0x01000001), (''launcher'', 0x01000002), (''logger'', 0x01000003)] = Some s
    \<and> skynet_handle_findname s ''logger'' = 0x01000001 \<and> skynet_handle_findname s ''gate'' = 0"
  using handle_names_first_wins [of "[(''logger'', 0x01000001), (''launcher'', 0x01000002),
    (''logger'', 0x01000003)]" 1] by (fastforce simp: MAX_SLOT_SIZE_def)

subsection \<open>Two ways in which a handle goes wrong\<close>

text \<open>A service is created and retired \<open>n\<close> times.\<close>

primrec churn :: "ctx_ptr \<Rightarrow> nat \<Rightarrow> handle_storage \<Rightarrow> handle_storage option" where
  "churn ctx 0 s = Some s"
| "churn ctx (Suc n) s = do {
     s1 \<leftarrow> churn ctx n s;
     (h, s2) \<leftarrow> skynet_handle_register (\<lambda>c. 0) ctx s1;
     Some (snd (retire_table (\<lambda>c. h) h s2)) }"

lemma register_empty_table:
  assumes "slot_size s = 4" "slot s = replicate 4 None" "handle_index s = i" "harbor s = 0"
  shows "skynet_handle_register ch ctx s = Some (i AND HANDLE_MASK,
    s\<lparr>slot := (slot s)[slot_hash (i AND HANDLE_MASK) 4 := Some ctx],
      handle_index := (i AND HANDLE_MASK) + 1\<rparr>)"
proof -
  have "slot_hash h 4 < 4" for h using slot_hash_less [of h 2] by simp
  with assms have "probe_slot s 0 (slot_size s) = Some (i AND HANDLE_MASK, slot_hash (i AND HANDLE_MASK) 4)"
    by (simp add: numeral_eq_Suc Let_def nth_replicate [of _ "Suc (Suc (Suc (Suc 0)))", simplified])
  with assms show ?thesis by (simp add: register_found)
qed

lemma churn_init:
  "n < 2 ^ 24 \<Longrightarrow> churn ctx n (skynet_handle_init 0)
     = Some ((skynet_handle_init 0)\<lparr>handle_index := of_nat n + 1\<rparr>)"
proof (induction n)
  case 0
  then show ?case by (simp add: skynet_handle_init_def)
next
  case (Suc n)
  let ?s = "(skynet_handle_init 0)\<lparr>handle_index := of_nat n + 1\<rparr>"
  let ?h = "of_nat n + 1 :: u32"
  have "?h = of_nat (Suc n)" by simp
  moreover have "unat (of_nat (Suc n) :: u32) = Suc n"
    using Suc.prems unfolding unsigned_of_nat by (simp add: take_bit_nat_eq_self del: of_nat_Suc)
  ultimately have "unat ?h = Suc n" by (simp add: add.commute)
  then have h: "?h AND HANDLE_MASK = ?h"
    using Suc.prems by (simp add: word_eq_iff_unat_eq HANDLE_MASK_mask unat_and_mask)
  let ?t = "?s\<lparr>slot := (slot ?s)[slot_hash ?h 4 := Some ctx], handle_index := ?h + 1\<rparr>"
  have hash: "slot_hash ?h 4 < 4" using slot_hash_less [of ?h 2] by simp
  have reg: "skynet_handle_register (\<lambda>c. 0) ctx ?s = Some (?h, ?t)"
    using register_empty_table [of ?s ?h "\<lambda>c. 0" ctx] h
    by (simp add: skynet_handle_init_def DEFAULT_SLOT_SIZE_def)
  have look: "handle_lookup (\<lambda>c. ?h) ?t ?h = Some ctx"
    using hash by (simp add: handle_lookup_def skynet_handle_init_def DEFAULT_SLOT_SIZE_def)
  have "retire_names ?h 0 0 (name_count ?t) (name ?t) = (0, name ?t)"
    by (simp add: retire_names.simps skynet_handle_init_def)
  from retire_table_hit [OF look this]
  have "retire_table (\<lambda>c. ?h) ?h ?t = (Some ctx, ?s\<lparr>handle_index := ?h + 1\<rparr>)"
    using hash by (simp add: skynet_handle_init_def DEFAULT_SLOT_SIZE_def list_update_same_conv nth_replicate)
  with Suc reg show ?case by (simp add: algebra_simps)
qed

text \<open>C11. The storage of a node without a harbor hands out handle 0, which it reserves for
  the system, once the 24-bit index has wrapped around: after 2^24 - 1 services have been
  created and retired, the next one is registered under handle 0.\<close>

theorem handle_zero_reused:
  "\<exists>s s'. churn ctx (2 ^ 24 - 1) (skynet_handle_init 0) = Some s
     \<and> skynet_handle_register ch ctx s = Some (0, s')"
proof -
  define n :: nat where "n = 2 ^ 24 - 1"
  let ?s = "(skynet_handle_init 0)\<lparr>handle_index := of_nat n + 1\<rparr>"
  have "n < 2 ^ 24" "(of_nat n + 1 :: u32) AND HANDLE_MASK = 0" by (simp_all add: n_def HANDLE_MASK_def)
  moreover have "slot_size ?s = 4" "slot ?s = replicate 4 None" "harbor ?s = 0"
    by (simp_all add: skynet_handle_init_def DEFAULT_SLOT_SIZE_def)
  ultimately show ?thesis
    unfolding n_def [symmetric]
    using churn_init [of n ctx] register_empty_table [of ?s "of_nat n + 1" ch ctx]
    by (intro exI conjI) (assumption | simp)+
qed

lemma rehash_entries:
  "rehash ch n cs new = Some new' \<Longrightarrow> length new' = length new
    \<and> (\<forall>j x. j < length new \<longrightarrow> new' ! j = Some x \<longrightarrow> new ! j = Some x \<or> Some x \<in> set cs \<and> j = slot_hash (ch x) n)
    \<and> card {j. j < length new \<and> new' ! j \<noteq> None} \<le> card {j. j < length new \<and> new ! j \<noteq> None} + length cs"
proof (induction ch n cs new rule: rehash.induct)
  case (3 ch n c cs new)
  let ?h = "slot_hash (ch c) n"
  let ?used = "{j. j < length new \<and> new ! j \<noteq> None}" and ?used' = "{j. j < length new \<and> new[?h := Some c] ! j \<noteq> None}"
  have r: "rehash ch n cs (new[?h := Some c]) = Some new'" "new ! ?h = None"
    using "3.prems" by (auto simp: Let_def split: if_splits)
  note IH = "3.IH" [OF refl r(2) r(1), unfolded length_list_update]
  have "?used' \<subseteq> insert ?h ?used" by (auto simp: nth_list_update split: if_splits)
  then have "card ?used' \<le> card (insert ?h ?used)" by (intro card_mono) simp_all
  also have "\<dots> \<le> Suc (card ?used)" by (simp add: card_insert_if)
  finally have "card {j. j < length new \<and> new' ! j \<noteq> None} \<le> card ?used + length (Some c # cs)" using IH by simp
  moreover have "new ! j = Some x \<or> Some x \<in> set (Some c # cs) \<and> j = slot_hash (ch x) n"
    if "j < length new" "new' ! j = Some x" for j x
  proof -
    have "new[?h := Some c] ! j = Some x \<or> Some x \<in> set cs \<and> j = slot_hash (ch x) n" using IH that by blast
    then show ?thesis using that(1) by (cases "j = ?h") auto
  qed
  ultimately show ?case using IH by blast
qed simp_all

lemma register_full:
  assumes size: "slot_size s = 2 ^ k" "length (slot s) = 2 ^ k" and full: "\<forall>i < slot_size s. slot s ! i \<noteq> None"
    and reg: "skynet_handle_register ch d s = Some (h, s')"
  shows "k < 24 \<and> (\<exists>new hash. slot_size s' = 2 ^ Suc k \<and> slot s' = new[hash := Some d] \<and> length new = 2 ^ Suc k
    \<and> (\<forall>j x. j < 2 ^ Suc k \<longrightarrow> new ! j = Some x \<longrightarrow> Some x \<in> set (slot s) \<and> j = slot_hash (ch x) (2 ^ Suc k)))"
proof -
  have no: "probe_slot s 0 (slot_size s) = None"
  proof (rule ccontr)
    assume "probe_slot s 0 (slot_size s) \<noteq> None"
    then obtain a b where "probe_slot s 0 (slot_size s) = Some (a, b)" by auto
    from probe_slot_Some [OF this] have "slot s ! slot_hash a (2 ^ k) = None" unfolding size(1) by blast
    with full slot_hash_less [of a k] show False unfolding size(1) by blast
  qed
  obtain new where lim: "int (slot_size s) * 2 - 1 \<le> uint HANDLE_MASK"
    and new: "rehash ch (slot_size s * 2) (slot s) (replicate (slot_size s * 2) None) = Some new"
    using reg no by (subst (asm) skynet_handle_register.simps) (auto simp: bind_Some_iff split: if_splits)
  have "(2 :: int) ^ Suc k \<le> 2 ^ 24" using lim by (simp add: size(1) HANDLE_MASK_def)
  then have k: "Suc k \<le> 24" by (subst (asm) power_increasing_iff) simp_all
  let ?s = "s\<lparr>slot := new, slot_size := slot_size s * 2\<rparr>"
  have n: "slot_size s * 2 = 2 ^ Suc k" by (simp add: size(1))
  note e = rehash_entries [OF new, unfolded size(1) length_replicate]
  have "{j. j < 2 ^ Suc k \<and> replicate (2 ^ Suc k) None ! j \<noteq> (None :: ctx_ptr option)} = {}" by auto
  then have "card {j. j < 2 ^ Suc k \<and> new ! j \<noteq> None} \<le> 2 ^ k"
    using e unfolding n [unfolded size(1)] by (simp only: size(2) card.empty add_0)
  moreover have "card {..<(2 :: nat) ^ Suc k} = 2 * 2 ^ k" by simp
  moreover have "(2 :: nat) ^ k > 0" by simp
  ultimately have "{j. j < 2 ^ Suc k \<and> new ! j \<noteq> None} \<noteq> {..<2 ^ Suc k}" by (metis mult_2 not_add_less2 order_le_less_trans less_add_same_cancel1 linorder_not_less)
  then obtain j where "j < 2 ^ Suc k" "new ! j = None" unfolding set_eq_iff by blast
  then have "probe_slot ?s 0 (slot_size ?s) \<noteq> None"
    using probe_slot_None_full [of ?s "Suc k" j] k n by fastforce
  then obtain a b where p: "probe_slot ?s 0 (slot_size ?s) = Some (a, b)" by auto
  have "s' = ?s\<lparr>slot := new[b := Some d], handle_index := a + 1\<rparr>"
    using reg register_grows [OF no lim new, of d] register_found [OF p, of ch d] by simp
  with e k show ?thesis by (intro conjI exI [of _ new] exI [of _ b]) (auto simp: n mult.commute)
qed

text \<open>C12. The handle of a new context is stored in the context only after the table has returned
  it and the lock has been released. Let the table be full, and let the context \<open>c\<close> be in it
  under its handle while its handle field still reads 0. When another context is registered
  then, the table doubles and moves \<open>c\<close> by the wrong handle. If the registration returns, and
  the handle of \<open>c\<close> does not happen to belong to the first cell of the new table, a lookup of
  that handle does not find \<open>c\<close> any more, although \<open>c\<close> has not been retired. Had the field been
  written before, the registration would return and the lookup would find \<open>c\<close>.\<close>

theorem handle_register_race:
  assumes "slots_ok ch s" and "\<forall>i < slot_size s. slot s ! i \<noteq> None" and "c \<in> registered s" and "d \<notin> registered s"
    and "slot_hash (ch c) (slot_size s * 2) \<noteq> 0" and "skynet_handle_register (ch(c := 0)) d s = Some (h, s')"
  shows "handle_lookup (ch(d := h)) s' (ch c) \<noteq> Some c
    \<and> (\<exists>h2 s2. skynet_handle_register ch d s = Some (h2, s2) \<and> handle_lookup (ch(d := h2)) s2 (ch c) = Some c)"
proof
  from assms(1) obtain k where size: "slot_size s = 2 ^ k" "length (slot s) = 2 ^ k" by (auto simp: slots_ok_def)
  obtain new hash where k: "k < 24" and s': "slot_size s' = 2 ^ Suc k" "slot s' = new[hash := Some d]" "length new = 2 ^ Suc k"
    and at: "\<And>j x. j < 2 ^ Suc k \<Longrightarrow> new ! j = Some x \<Longrightarrow> j = slot_hash ((ch(c := 0)) x) (2 ^ Suc k)"
    using register_full [OF size assms(2,6)] by blast
  let ?j = "slot_hash (ch c) (2 ^ Suc k)"
  have j: "?j < 2 ^ Suc k" by (rule slot_hash_less)
  have j0: "?j \<noteq> 0" using assms(5) by (simp add: size(1) mult.commute)
  have "new ! ?j \<noteq> Some c" using at [OF j, of c] j0 slot_hash_pow2 [of 0 "Suc k"] by auto
  moreover have "c \<noteq> d" using assms(3,4) by auto
  ultimately have "slot s' ! ?j \<noteq> Some c" using j s'(3) by (cases "hash = ?j") (simp_all add: s'(2))
  then show "handle_lookup (ch(d := h)) s' (ch c) \<noteq> Some c"
    by (auto simp: handle_lookup_def s'(1) split: option.splits if_splits)
  have "card (registered s) < 2 ^ 24"
    using full_table_card(1) [OF assms(1,2)] power_strict_increasing [OF k, of "2 :: nat"] by (simp add: size(1))
  from register_spec [OF assms(1) this assms(4)] obtain h2 s2 where
    r: "skynet_handle_register ch d s = Some (h2, s2)" "slots_ok (ch(d := h2)) s2"
    "registered s2 = insert d (registered s)" by blast
  have "handle_lookup (ch(d := h2)) s2 (ch c) = Some c"
    using slots_ok_lookup_iff [OF r(2), of "ch c" c] r(3) assms(3) \<open>c \<noteq> d\<close> by simp
  with r(1) show "\<exists>h2 s2. skynet_handle_register ch d s = Some (h2, s2) \<and> handle_lookup (ch(d := h2)) s2 (ch c) = Some c" by blast
qed

text \<open>Four contexts with the handles 1 to 4 in a table of four cells.\<close>

definition full_example :: handle_storage where
  "full_example = (skynet_handle_init 0)\<lparr>slot := [Some 4, Some 1, Some 2, Some 3], handle_index := 5\<rparr>"

lemma full_example_ok:
  "slots_ok of_nat full_example" "\<forall>i < slot_size full_example. slot full_example ! i \<noteq> None"
proof -
  have size: "slot_size full_example = 2 ^ 2" by (simp add: full_example_def skynet_handle_init_def DEFAULT_SLOT_SIZE_def)
  have four: "i = 0 \<or> i = 1 \<or> i = 2 \<or> i = 3" if "i < 2 ^ 2" for i :: nat using that by auto
  have cell: "slot full_example ! i = Some (if i = 0 then 4 else i)" if "i < 2 ^ 2" for i
    using four [OF that] by (auto simp: full_example_def)
  have "slot_hash (of_nat c) (2 ^ 2) = i \<and> (of_nat c :: u32) AND NOT HANDLE_MASK = 0"
    if "i < 2 ^ 2" "c = (if i = 0 then 4 else i)" for i c
    using four [OF that(1)] that(2) by (auto simp: slot_hash_def HANDLE_MASK_def)
  then show "slots_ok of_nat full_example"
    unfolding slots_ok_def size using cell
    by (auto simp: full_example_def skynet_handle_init_def intro: exI [of _ 2])
  show "\<forall>i < slot_size full_example. slot full_example ! i \<noteq> None" using cell by (simp add: size)
qed

theorem handle_register_race_witness:
  "4 \<in> registered full_example \<and> slot_hash (of_nat 4) (slot_size full_example * 2) = 4
    \<and> (\<exists>h s'. skynet_handle_register (of_nat(4 := 0)) 5 full_example = Some (h, s')
        \<and> handle_lookup (of_nat(5 := h)) s' 4 \<noteq> Some 4)"
proof -
  have r: "4 \<in> registered full_example" "5 \<notin> registered full_example" by (auto simp: registered_def full_example_def)
  have h: "slot_hash (of_nat 4) (slot_size full_example * 2) = 4" by code_simp
  have "skynet_handle_register (of_nat(4 := 0)) 5 full_example \<noteq> None" by code_simp
  then obtain h s' where s': "skynet_handle_register (of_nat(4 := 0)) 5 full_example = Some (h, s')" by auto
  have "handle_lookup (of_nat(5 := h)) s' (of_nat 4) \<noteq> Some 4"
    using handle_register_race [OF full_example_ok r _ s'] h by simp
  with r(1) h s' show ?thesis by simp
qed

end
