(* ===== verification/Timer.thy ===== *)
theory Timer
  imports Mq
begin

section \<open>Timers (\<open>skynet_timer.c\<close>)\<close>

text \<open>
  The timer is a wheel of five levels: 256 lists for the timeouts that share the upper 24
  bits of the current time, and four arrays of 64 lists for the later ones, which are moved
  down as the time reaches them. Time is a 32-bit counter of centiseconds that wraps
  around. A linked list of nodes is the list of its nodes in order, \<open>link\<close> appends to it
  and \<open>link_clear\<close> takes it off. The wheel is shown to implement a plain list of
  countdowns.

  \<open>timer_execute\<close> gives up the lock while it dispatches; the timeouts that other
  threads add in such a window are the argument \<open>env\<close>, one list for each window. What
  \<open>dispatch_list\<close> passes to \<open>skynet_context_push\<close> is the output of the
  operations here. The two clocks are arguments too.
\<close>

subsection \<open>The wheel\<close>

definition TIME_NEAR_SHIFT :: nat where
  "TIME_NEAR_SHIFT = 8"

definition TIME_NEAR :: u32 where
  "TIME_NEAR = push_bit TIME_NEAR_SHIFT 1"

definition TIME_LEVEL_SHIFT :: nat where
  "TIME_LEVEL_SHIFT = 6"

definition TIME_LEVEL :: u32 where
  "TIME_LEVEL = push_bit TIME_LEVEL_SHIFT 1"

definition TIME_NEAR_MASK :: u32 where
  "TIME_NEAR_MASK = TIME_NEAR - 1"

definition TIME_LEVEL_MASK :: u32 where
  "TIME_LEVEL_MASK = TIME_LEVEL - 1"

definition PTYPE_RESPONSE :: u64 where
  "PTYPE_RESPONSE = 1"

record timer_event =
  ev_handle :: u32
  ev_session :: int

record timer_node =
  expire :: u32
  event :: timer_event

record timer =
  near :: "nat \<Rightarrow> timer_node list"
  levels :: "nat \<Rightarrow> nat \<Rightarrow> timer_node list"
  time :: u32
  starttime :: u32
  current :: u64
  current_point :: u64

text \<open>The lists of the wheel: \<open>Near k\<close> is \<open>near[k]\<close>, \<open>Level i k\<close> is
  \<open>t[i][k]\<close>.\<close>

datatype timer_loc = Near nat | Level nat nat

fun wheel :: "timer \<Rightarrow> timer_loc \<Rightarrow> timer_node list" where
  "wheel T (Near k) = near T k"
| "wheel T (Level i k) = levels T i k"

fun set_list :: "timer_loc \<Rightarrow> timer_node list \<Rightarrow> timer \<Rightarrow> timer" where
  "set_list (Near k) ns T = T\<lparr>near := (near T)(k := ns)\<rparr>"
| "set_list (Level i k) ns T = T\<lparr>levels := (levels T)(i := (levels T i)(k := ns))\<rparr>"

definition link_clear :: "timer_loc \<Rightarrow> timer \<Rightarrow> timer_node list \<times> timer" where
  "link_clear l T = (wheel T l, set_list l [] T)"

definition link :: "timer_loc \<Rightarrow> timer_node \<Rightarrow> timer \<Rightarrow> timer" where
  "link l node T = set_list l (wheel T l @ [node]) T"

function level_loop :: "u32 \<Rightarrow> u32 \<Rightarrow> nat \<Rightarrow> u32 \<Rightarrow> nat" where
  "level_loop t current_time i m =
     (if i < 3 then
        if (t OR (m - 1)) = (current_time OR (m - 1)) then i
        else level_loop t current_time (i + 1) (push_bit TIME_LEVEL_SHIFT m)
      else i)"
  by pat_completeness auto
termination
  by (relation "measure (\<lambda>(t, ct, i, m). 3 - i)") auto

definition add_node :: "timer_node \<Rightarrow> timer \<Rightarrow> timer" where
  "add_node node T =
     (let t = expire node; current_time = time T
      in if (t OR TIME_NEAR_MASK) = (current_time OR TIME_NEAR_MASK)
         then link (Near (unat (t AND TIME_NEAR_MASK))) node T
         else let i = level_loop t current_time 0 (push_bit TIME_LEVEL_SHIFT TIME_NEAR)
              in link (Level i (unat (drop_bit (TIME_NEAR_SHIFT + i * TIME_LEVEL_SHIFT) t
                                      AND TIME_LEVEL_MASK))) node T)"

definition timer_add :: "timer_event \<Rightarrow> int \<Rightarrow> timer \<Rightarrow> timer" where
  "timer_add arg tm T = add_node \<lparr>expire = word_of_int tm + time T, event = arg\<rparr> T"

fun add_nodes :: "timer_node list \<Rightarrow> timer \<Rightarrow> timer" where
  "add_nodes [] T = T"
| "add_nodes (node # ns) T = add_nodes ns (add_node node T)"

definition move_list :: "nat \<Rightarrow> nat \<Rightarrow> timer \<Rightarrow> timer" where
  "move_list lev idx T = (let (ns, T') = link_clear (Level lev idx) T in add_nodes ns T')"

text \<open>The loop of \<open>timer_shift\<close>. Its mask is an \<open>int\<close>, so a mask that leaves the
  positive \<open>int\<close> values would be undefined in C: \<open>None\<close>.\<close>

function shift_loop :: "u32 \<Rightarrow> nat \<Rightarrow> u32 \<Rightarrow> nat \<Rightarrow> timer \<Rightarrow> timer option" where
  "shift_loop ct m t i T =
     (if m = 0 \<or> 2 ^ 31 \<le> m then None
      else if ct AND (of_nat m - 1) = 0 then
        (let idx = unat (t AND TIME_LEVEL_MASK)
         in if idx \<noteq> 0 then Some (move_list i idx T)
            else shift_loop ct (m * 2 ^ TIME_LEVEL_SHIFT) (drop_bit TIME_LEVEL_SHIFT t) (i + 1) T)
      else Some T)"
  by pat_completeness auto
termination
  by (relation "measure (\<lambda>(ct, m, t, i, T). 2 ^ 31 - m)") (auto simp: TIME_LEVEL_SHIFT_def)

definition timer_shift :: "timer \<Rightarrow> timer option" where
  "timer_shift T =
     (let ct = time T + 1; T' = T\<lparr>time := ct\<rparr>
      in if ct = 0 then Some (move_list 3 0 T')
         else shift_loop ct (unat TIME_NEAR) (drop_bit TIME_NEAR_SHIFT ct) 0 T')"

definition timer_message :: "int \<Rightarrow> skynet_message" where
  "timer_message s = \<lparr>source = 0, session = s, data = None,
     sz = push_bit MESSAGE_TYPE_SHIFT PTYPE_RESPONSE\<rparr>"

fun dispatch_list :: "timer_node list \<Rightarrow> (u32 \<times> skynet_message) list" where
  "dispatch_list [] = []"
| "dispatch_list (n # ns) =
     (ev_handle (event n), timer_message (ev_session (event n))) # dispatch_list ns"

primrec add_all :: "(timer_event \<times> int) list \<Rightarrow> timer \<Rightarrow> timer" where
  "add_all [] T = T"
| "add_all (a # as) T = add_all as (timer_add (fst a) (snd a) T)"

function timer_execute ::
  "(timer_event \<times> int) list list \<Rightarrow> timer \<Rightarrow> (u32 \<times> skynet_message) list \<times> timer" where
  "timer_execute env T =
     (let idx = unat (time T AND TIME_NEAR_MASK)
      in if near T idx = [] then ([], T)
         else let (cur, T1) = link_clear (Near idx) T;
                  T2 = (case env of [] \<Rightarrow> T1 | as # env' \<Rightarrow> add_all as T1);
                  (out, T3) = timer_execute (tl env) T2
              in (dispatch_list cur @ out, T3))"
  by pat_completeness auto
termination
  by (relation "measures [\<lambda>(env, T). length env, \<lambda>(env, T). length (near T (unat (time T AND TIME_NEAR_MASK)))]")
    (auto simp: link_clear_def split: list.splits)

declare level_loop.simps [simp del] shift_loop.simps [simp del] timer_execute.simps [simp del]

definition timer_update ::
  "(timer_event \<times> int) list list \<Rightarrow> (timer_event \<times> int) list list \<Rightarrow> timer
     \<Rightarrow> ((u32 \<times> skynet_message) list \<times> timer) option" where
  "timer_update env1 env2 T =
     (let (out1, T1) = timer_execute env1 T
      in do { T2 \<leftarrow> timer_shift T1;
              let (out2, T3) = timer_execute env2 T2;
              Some (out1 @ out2, T3) })"

definition timer_create_timer :: timer where
  "timer_create_timer = \<lparr>near = (\<lambda>i. []), levels = (\<lambda>i j. []), time = 0, starttime = 0, current = 0,
     current_point = 0\<rparr>"

text \<open>The outcome of \<open>skynet_timeout\<close>: its result, the message it pushes when the time
  has already passed (\<open>push_ok\<close> is what \<open>skynet_context_push\<close> says), and the timer.\<close>

definition skynet_timeout ::
  "(u32 \<Rightarrow> bool) \<Rightarrow> u32 \<Rightarrow> int \<Rightarrow> int \<Rightarrow> timer \<Rightarrow> int \<times> (u32 \<times> skynet_message) list \<times> timer" where
  "skynet_timeout push_ok handle tm ses T =
     (if tm \<le> 0 then
        (if push_ok handle then ses else - 1, [(handle, timer_message ses)], T)
      else (ses, [], timer_add \<lparr>ev_handle = handle, ev_session = ses\<rparr> tm T))"

subsection \<open>The clocks\<close>

definition systime :: "int \<Rightarrow> int \<Rightarrow> u32 \<times> u32" where
  "systime tv_sec tv_nsec = (word_of_int tv_sec, word_of_int (tv_nsec div 10000000))"

definition gettime :: "int \<Rightarrow> int \<Rightarrow> u64" where
  "gettime tv_sec tv_nsec = word_of_int tv_sec * 100 + word_of_int (tv_nsec div 10000000)"

primrec update_loop :: "nat \<Rightarrow> timer \<Rightarrow> ((u32 \<times> skynet_message) list list \<times> timer) option" where
  "update_loop 0 T = Some ([], T)"
| "update_loop (Suc n) T = do {
     (out, T1) \<leftarrow> timer_update [] [] T;
     (outs, T2) \<leftarrow> update_loop n T1;
     Some (out # outs, T2) }"

definition skynet_updatetime :: "u64 \<Rightarrow> timer \<Rightarrow> ((u32 \<times> skynet_message) list list \<times> timer) option" where
  "skynet_updatetime cp T =
     (if cp < current_point T then Some ([], T\<lparr>current_point := cp\<rparr>)
      else if cp \<noteq> current_point T then
        let diff = ucast (cp - current_point T) :: u32
        in update_loop (unat diff) (T\<lparr>current_point := cp, current := current T + ucast diff\<rparr>)
      else Some ([], T))"

definition skynet_starttime :: "timer \<Rightarrow> u32" where
  "skynet_starttime T = starttime T"

definition skynet_now :: "timer \<Rightarrow> u64" where
  "skynet_now T = current T"

definition skynet_timer_init :: "int \<Rightarrow> int \<Rightarrow> int \<Rightarrow> int \<Rightarrow> timer" where
  "skynet_timer_init real_sec real_nsec mono_sec mono_nsec =
     (let (st, cs) = systime real_sec real_nsec
      in timer_create_timer\<lparr>starttime := st, current := ucast cs,
           current_point := gettime mono_sec mono_nsec\<rparr>)"

subsection \<open>Where a node belongs\<close>

lemma wheel_set_list [simp]: "wheel (set_list l ns T) l' = (if l' = l then ns else wheel T l')"
  by (cases l; cases l') auto

lemma set_list_fields [simp]:
  "time (set_list l ns T) = time T" "starttime (set_list l ns T) = starttime T"
  "current (set_list l ns T) = current T" "current_point (set_list l ns T) = current_point T"
  by (cases l; simp)+

declare set_list.simps [simp del]

text \<open>The level and the list of a timeout \<open>e\<close> at time \<open>c\<close>, as numbers.\<close>

definition level_of :: "nat \<Rightarrow> nat \<Rightarrow> nat" where
  "level_of c e = (if e div 2 ^ 14 = c div 2 ^ 14 then 0 else if e div 2 ^ 20 = c div 2 ^ 20 then 1
     else if e div 2 ^ 26 = c div 2 ^ 26 then 2 else 3)"

definition node_loc :: "nat \<Rightarrow> nat \<Rightarrow> timer_loc" where
  "node_loc c e = (if e div 2 ^ 8 = c div 2 ^ 8 then Near (e mod 2 ^ 8)
     else Level (level_of c e) (e div 2 ^ (8 + 6 * level_of c e) mod 64))"

lemma or_mask_div: "((a :: u32) OR mask n) = (b OR mask n) \<longleftrightarrow> unat a div 2 ^ n = unat b div 2 ^ n"
  unfolding or_mask_eq_iff_drop_bit by (simp only: word_eq_iff_unat_eq unat_drop_bit)

lemma timer_masks:
  "TIME_NEAR_MASK = mask 8" "TIME_LEVEL_MASK = mask 6" "push_bit TIME_LEVEL_SHIFT TIME_NEAR = 2 ^ 14"
  by (simp_all add: TIME_NEAR_MASK_def TIME_NEAR_def TIME_NEAR_SHIFT_def TIME_LEVEL_MASK_def
      TIME_LEVEL_def TIME_LEVEL_SHIFT_def mask_eq_exp_minus_1 push_bit_eq_mult)

lemma level_loop_step:
  "i < 3 \<Longrightarrow> level_loop t c i (2 ^ k) = (if unat t div 2 ^ k = unat c div 2 ^ k then i
     else level_loop t c (i + 1) (2 ^ (k + 6)))"
  using or_mask_div [of t k c]
  by (simp add: level_loop.simps [of t c i] mask_eq_exp_minus_1 TIME_LEVEL_SHIFT_def push_bit_eq_mult
      power_add mult.commute)

lemma level_loop_level_of: "level_loop t c 0 (2 ^ 14) = level_of (unat c) (unat t)"
proof -
  have end3: "level_loop t c 3 (2 ^ 32) = 3" by (simp add: level_loop.simps [of t c 3])
  show ?thesis
    using level_loop_step [of 0 t c 14] level_loop_step [of 1 t c 20] level_loop_step [of 2 t c 26] end3
    by (simp add: level_of_def cong: if_cong flip: numeral_2_eq_2)
qed

lemma add_node_link: "add_node n T = link (node_loc (unat (time T)) (unat (expire n))) n T"
  unfolding add_node_def Let_def timer_masks level_loop_level_of or_mask_div node_loc_def
    unat_and_mask unat_drop_bit
  by (simp add: TIME_NEAR_SHIFT_def TIME_LEVEL_SHIFT_def mult.commute)

lemma wheel_add_node:
  "wheel (add_node n T) l = wheel T l @ (if l = node_loc (unat (time T)) (unat (expire n)) then [n] else [])"
  by (simp add: add_node_link link_def)

lemma add_node_fields [simp]:
  "time (add_node n T) = time T" "starttime (add_node n T) = starttime T"
  "current (add_node n T) = current T" "current_point (add_node n T) = current_point T"
  by (simp_all add: add_node_link link_def)

lemma add_nodes_fields [simp]:
  "time (add_nodes ns T) = time T" "starttime (add_nodes ns T) = starttime T"
  "current (add_nodes ns T) = current T" "current_point (add_nodes ns T) = current_point T"
  by (induction ns arbitrary: T) simp_all

lemma wheel_add_nodes:
  "wheel (add_nodes ns T) l
     = wheel T l @ filter (\<lambda>n. node_loc (unat (time T)) (unat (expire n)) = l) ns"
  by (induction ns arbitrary: T) (auto simp: wheel_add_node)

lemma move_list_fields [simp]:
  "time (move_list i k T) = time T" "starttime (move_list i k T) = starttime T"
  "current (move_list i k T) = current T" "current_point (move_list i k T) = current_point T"
  by (simp_all add: move_list_def link_clear_def)

lemma wheel_move_list:
  "wheel (move_list i k T) l = (if l = Level i k then [] else wheel T l)
     @ filter (\<lambda>n. node_loc (unat (time T)) (unat (expire n)) = l) (wheel T (Level i k))"
  by (simp add: move_list_def link_clear_def wheel_add_nodes)

subsection \<open>Which list a tick moves\<close>

definition moved :: "nat \<Rightarrow> timer_loc option" where
  "moved c = (if c = 0 then Some (Level 3 0)
     else if c mod 2 ^ 8 \<noteq> 0 then None
     else if c div 2 ^ 8 mod 64 \<noteq> 0 then Some (Level 0 (c div 2 ^ 8 mod 64))
     else if c div 2 ^ 14 mod 64 \<noteq> 0 then Some (Level 1 (c div 2 ^ 14 mod 64))
     else if c div 2 ^ 20 mod 64 \<noteq> 0 then Some (Level 2 (c div 2 ^ 20 mod 64))
     else Some (Level 3 (c div 2 ^ 26 mod 64)))"

definition move_loc :: "timer_loc option \<Rightarrow> timer \<Rightarrow> timer" where
  "move_loc l T = (case l of Some (Level i k) \<Rightarrow> move_list i k T | _ \<Rightarrow> T)"

lemma shift_loop_step:
  assumes "k < 31"
  shows "shift_loop c (2 ^ k) (drop_bit k c) i T =
    (if unat c mod 2 ^ k = 0 then
       if unat c div 2 ^ k mod 64 \<noteq> 0 then Some (move_list i (unat c div 2 ^ k mod 64) T)
       else shift_loop c (2 ^ (k + 6)) (drop_bit (k + 6) c) (i + 1) T
     else Some T)"
proof -
  have "(2 :: nat) ^ k < 2 ^ 31" by (rule power_strict_increasing) (use assms in auto)
  then have k: "\<not> (2 ^ k = (0 :: nat) \<or> 2 ^ 31 \<le> (2 :: nat) ^ k)" by simp
  have "c AND (of_nat (2 ^ k) - 1) = 0 \<longleftrightarrow> unat (c AND mask k) = 0"
    by (simp add: mask_eq_exp_minus_1 unat_eq_zero)
  then have mod: "c AND (of_nat (2 ^ k) - 1) = 0 \<longleftrightarrow> unat c mod 2 ^ k = 0"
    by (simp only: unat_and_mask)
  have idx: "unat (drop_bit k c AND TIME_LEVEL_MASK) = unat c div 2 ^ k mod 64"
    using unat_and_mask [of "drop_bit k c" 6] by (simp add: timer_masks unat_drop_bit)
  have next_step: "2 ^ k * 2 ^ TIME_LEVEL_SHIFT = (2 :: nat) ^ (k + 6)"
    "drop_bit TIME_LEVEL_SHIFT (drop_bit k c) = drop_bit (k + 6) c"
    by (simp_all add: TIME_LEVEL_SHIFT_def power_add add.commute)
  show ?thesis
    by (simp only: shift_loop.simps [of c "2 ^ k" "drop_bit k c" i T] k mod idx next_step Let_def if_False)
qed

lemma mod_pow_extend:
  assumes "(c :: nat) mod 2 ^ k = 0" "c div 2 ^ k mod 64 = 0"
  shows "c mod 2 ^ (k + 6) = 0"
proof -
  have "c mod (2 ^ k * 64) = 2 ^ k * (c div 2 ^ k mod 64) + c mod 2 ^ k" by (rule mod_mult2_eq)
  with assms show ?thesis by (simp add: power_add)
qed

lemma low_blocks_zero:
  assumes "(c :: nat) mod 2 ^ n = 0" "m + 6 \<le> n"
  shows "c mod 2 ^ m = 0" "c div 2 ^ m mod 64 = 0"
proof -
  have "(2 :: nat) ^ (m + 6) dvd c"
    using assms by (metis dvd_eq_mod_eq_0 dvd_trans le_imp_power_dvd)
  then have *: "2 ^ m * 64 dvd c" by (simp add: power_add)
  then show "c mod 2 ^ m = 0" by (metis dvd_eq_mod_eq_0 dvd_mult_left)
  from * show "c div 2 ^ m mod 64 = 0" by (metis dvd_eq_mod_eq_0 dvd_mult_imp_div mult.commute)
qed

lemma moved_level:
  assumes c: "c mod 2 ^ (8 + 6 * i) = 0" "c div 2 ^ (8 + 6 * i) mod 64 \<noteq> 0" and i: "i \<le> 3"
  shows "moved c = Some (Level i (c div 2 ^ (8 + 6 * i) mod 64))"
proof -
  have z: "c \<noteq> 0" using c(2) by (metis div_0 mod_0)
  have low: "c div 2 ^ m mod 64 = 0" if "m + 6 \<le> 8 + 6 * i" for m
    using low_blocks_zero(2) [OF c(1) that] .
  have c8: "c mod 2 ^ 8 = 0"
    using c(1) low_blocks_zero(1) [OF c(1), of 8] by (cases i) (simp only: mult_0_right add_0_right, simp)
  have e: "8 + 6 * 0 = (8 :: nat)" "8 + 6 * 1 = (14 :: nat)" "8 + 6 * 2 = (20 :: nat)" "8 + 6 * 3 = (26 :: nat)"
    by simp_all
  consider "i = 0" | "i = 1" | "i = 2" | "i = 3" using i by linarith
  then show ?thesis
    using c z c8 low [of 8] low [of 14] low [of 20] unfolding moved_def
    by cases (simp only: e; simp only: e if_True if_False not_False_eq_True refl le_refl simp_thms arith_simps)+
qed

lemma moved_exists:
  assumes "(c :: nat) \<noteq> 0" "c < 2 ^ 32" "c mod 2 ^ 8 = 0"
  shows "\<exists>i\<le>3. c mod 2 ^ (8 + 6 * i) = 0 \<and> c div 2 ^ (8 + 6 * i) mod 64 \<noteq> 0"
proof (rule ccontr)
  assume none: "\<not> ?thesis"
  have "c mod 2 ^ (8 + 6 * i) = 0" if "i \<le> 4" for i
    using that
  proof (induction i)
    case (Suc i)
    then have "c div 2 ^ (8 + 6 * i) mod 64 = 0" using none by auto
    with Suc mod_pow_extend [of c "8 + 6 * i"] show ?case by (simp add: add.commute add.left_commute)
  qed (use assms(3) in simp)
  from this [of 4] assms(1,2) show False by simp
qed

lemma shift_loop_level:
  assumes c: "unat c mod 2 ^ (8 + 6 * i) = 0" "unat c div 2 ^ (8 + 6 * i) mod 64 \<noteq> 0" "i \<le> 3"
  shows "j \<le> i \<Longrightarrow> shift_loop c (2 ^ (8 + 6 * j)) (drop_bit (8 + 6 * j) c) j T
    = Some (move_list i (unat c div 2 ^ (8 + 6 * i) mod 64) T)"
proof (induction "i - j" arbitrary: j)
  case 0
  then have "j = i" by simp
  with c show ?case by (simp only: shift_loop_step) simp
next
  case (Suc n)
  then have "8 + 6 * j + 6 \<le> 8 + 6 * i" by simp
  note low = low_blocks_zero [OF c(1) this]
  have "8 + 6 * j < 31" using Suc.prems Suc.hyps(2) c(3) by simp
  then have "shift_loop c (2 ^ (8 + 6 * j)) (drop_bit (8 + 6 * j) c) j T
      = shift_loop c (2 ^ (8 + 6 * (j + 1))) (drop_bit (8 + 6 * (j + 1)) c) (j + 1) T"
    using shift_loop_step [of "8 + 6 * j" c j T] low by (simp add: add.commute add.left_commute)
  also have "\<dots> = Some (move_list i (unat c div 2 ^ (8 + 6 * i) mod 64) T)"
    by (rule Suc.hyps(1)) (use Suc.hyps(2) in auto)
  finally show ?case .
qed

lemma timer_shift_moved:
  "timer_shift T = Some (move_loc (moved (unat (time T + 1))) (T\<lparr>time := time T + 1\<rparr>))"
proof (cases "time T + 1 = 0")
  case True
  then show ?thesis by (simp add: timer_shift_def moved_def move_loc_def)
next
  case False
  define c where "c = time T + 1"
  let ?T = "T\<lparr>time := c\<rparr>"
  have c32: "unat c < 2 ^ 32" using unsigned_less [of c] by simp
  have nz: "unat c \<noteq> 0" using False by (simp add: c_def unat_eq_zero)
  have start: "timer_shift T = shift_loop c (2 ^ 8) (drop_bit 8 c) 0 ?T"
    using False by (simp add: timer_shift_def c_def [symmetric] TIME_NEAR_SHIFT_def TIME_NEAR_def Let_def)
  have "timer_shift T = Some (move_loc (moved (unat c)) ?T)"
  proof (cases "unat c mod 2 ^ 8 = 0")
    case True
    from moved_exists [OF nz c32 True] obtain i where
      i: "i \<le> 3" "unat c mod 2 ^ (8 + 6 * i) = 0" "unat c div 2 ^ (8 + 6 * i) mod 64 \<noteq> 0"
      by (elim exE conjE)
    from shift_loop_level [OF i(2,3,1), of 0 ?T] have "timer_shift T
        = Some (move_list i (unat c div 2 ^ (8 + 6 * i) mod 64) ?T)" using start by simp
    moreover have "move_loc (moved (unat c)) ?T = move_list i (unat c div 2 ^ (8 + 6 * i) mod 64) ?T"
      unfolding moved_level [OF i(2,3,1)] by (simp add: move_loc_def)
    ultimately show ?thesis by simp
  next
    case False
    then have "moved (unat c) = None" using nz by (simp only: moved_def if_False) (simp only: if_True simp_thms)
    with False start shift_loop_step [of 8 c 0 ?T] show ?thesis by (simp add: move_loc_def)
  qed
  then show ?thesis by (simp only: c_def)
qed

text \<open>A timeout that is still ahead, by less than \<open>2 ^ 31\<close>, of a time \<open>c\<close>. The
  time may wrap around before it is reached.\<close>

definition ahead :: "nat \<Rightarrow> nat \<Rightarrow> bool" where
  "ahead c e \<longleftrightarrow> c < e \<or> e + 2 ^ 31 < c"

lemma div_pow_mono:
  assumes "(a :: nat) div 2 ^ m = b div 2 ^ m" "m \<le> n"
  shows "a div 2 ^ n = b div 2 ^ n"
proof -
  have "(2 :: nat) ^ n = 2 ^ m * 2 ^ (n - m)" using assms(2) by (simp flip: power_add)
  with assms(1) show ?thesis by (simp add: div_mult2_eq)
qed

lemma mod_pow_mono: "(c :: nat) mod 2 ^ m \<noteq> 0 \<Longrightarrow> m \<le> n \<Longrightarrow> c mod 2 ^ n \<noteq> 0"
  by (metis dvd_eq_mod_eq_0 dvd_trans le_imp_power_dvd)

lemma same_block: "Suc c mod 2 ^ m \<noteq> 0 \<Longrightarrow> m \<le> n \<Longrightarrow> Suc c div 2 ^ n = c div 2 ^ n"
  using mod_pow_mono [of "Suc c" m n] by (simp add: div_Suc)

text \<open>At the end of a block of \<open>2 ^ m\<close> ticks nothing that is ahead is in the block.\<close>

lemma block_end:
  assumes "ahead c e" "Suc c mod 2 ^ m = 0" "m \<le> 26" "n \<le> m"
  shows "e div 2 ^ n \<noteq> c div 2 ^ n"
proof
  assume "e div 2 ^ n = c div 2 ^ n"
  then have eq: "e div 2 ^ m = c div 2 ^ m" using assms(4) by (rule div_pow_mono)
  have "(2 :: nat) ^ m \<le> 2 ^ 26" using assms(3) by (rule power_increasing) simp
  have "c mod 2 ^ m = 2 ^ m - 1" using assms(2) by (simp add: mod_Suc split: if_splits)
  moreover have "e mod 2 ^ m \<le> 2 ^ m - 1" by (simp add: Suc_leI less_Suc_eq_le [symmetric])
  moreover have "c mod 2 ^ m < 2 ^ m" by simp
  moreover have "2 ^ m * (c div 2 ^ m) + e mod 2 ^ m = e" "2 ^ m * (c div 2 ^ m) + c mod 2 ^ m = c"
    using mult_div_mod_eq [of "2 ^ m" e] eq by simp_all
  ultimately have "e \<le> c" "c < e + 2 ^ m" by linarith+
  then show False using assms(1) \<open>2 ^ m \<le> 2 ^ 26\<close> by (simp add: ahead_def)
qed

text \<open>The step at the boundary of level \<open>i\<close>: either the timeout is in the list that is
  moved, or its place does not change.\<close>

lemma boundary_step:
  assumes c: "Suc c mod 2 ^ (8 + 6 * i) = 0" "Suc c div 2 ^ (8 + 6 * i) mod 64 \<noteq> 0" "i \<le> 3"
    and e: "ahead c e" "e < 2 ^ 32" "Suc c < 2 ^ 32"
    and other: "node_loc c e \<noteq> Level i (Suc c div 2 ^ (8 + 6 * i) mod 64)"
  shows "node_loc (Suc c) e = node_loc c e"
proof -
  let ?m = "8 + 6 * i"
  have i: "i = 0 \<or> i = 1 \<or> i = 2 \<or> i = 3" using c(3) by linarith
  have low: "e div 2 ^ n \<noteq> c div 2 ^ n" if "n \<le> ?m" for n
    using block_end [OF e(1) c(1) _ that] c(3) by simp
  have "Suc c mod 2 ^ (14 + 6 * i) \<noteq> 0"
  proof
    assume "Suc c mod 2 ^ (14 + 6 * i) = 0"
    then have "2 ^ ?m * 64 dvd Suc c" by (simp add: power_add dvd_eq_mod_eq_0)
    then have "Suc c div 2 ^ ?m mod 64 = 0" by (metis dvd_eq_mod_eq_0 dvd_mult_imp_div mult.commute)
    with c(2) show False by simp
  qed
  then have high: "Suc c div 2 ^ n = c div 2 ^ n" if "14 + 6 * i \<le> n" for n
    using same_block that by blast
  have "e div 2 ^ ?m \<noteq> Suc c div 2 ^ ?m"
  proof
    assume eq: "e div 2 ^ ?m = Suc c div 2 ^ ?m"
    then have "e div 2 ^ (14 + 6 * i) = c div 2 ^ (14 + 6 * i)"
      using div_pow_mono [OF eq, of "14 + 6 * i"] high by simp
    then have "level_of c e = i"
      using i low [of 14] low [of 20] low [of 26] by (elim disjE) (simp_all add: level_of_def)
    with low [of 8] eq other show False by (simp add: node_loc_def)
  qed
  then have low': "e div 2 ^ n \<noteq> Suc c div 2 ^ n" if "n \<le> ?m" for n
    using div_pow_mono that by blast
  have "level_of (Suc c) e = level_of c e"
    using i low [of 14] low [of 20] low [of 26] low' [of 14] low' [of 20] low' [of 26]
      high [of 14] high [of 20] high [of 26]
    by (elim disjE) (simp_all add: level_of_def)
  with low [of 8] low' [of 8] show ?thesis by (simp add: node_loc_def)
qed

lemma loc_step_nat:
  assumes e: "ahead c e" "e < 2 ^ 32" "Suc c < 2 ^ 32" and other: "moved (Suc c) \<noteq> Some (node_loc c e)"
  shows "node_loc (Suc c) e = node_loc c e"
proof (cases "Suc c mod 2 ^ 8 = 0")
  case False
  have "Suc c div 2 ^ 8 = c div 2 ^ 8" "Suc c div 2 ^ 14 = c div 2 ^ 14" "Suc c div 2 ^ 20 = c div 2 ^ 20"
    "Suc c div 2 ^ 26 = c div 2 ^ 26" by (rule same_block [OF False]; simp)+
  then show ?thesis by (simp only: node_loc_def level_of_def)
next
  case True
  from moved_exists [OF Suc_not_Zero e(3) True] obtain i where
    i: "i \<le> 3" "Suc c mod 2 ^ (8 + 6 * i) = 0" "Suc c div 2 ^ (8 + 6 * i) mod 64 \<noteq> 0"
    by (elim exE conjE)
  have "node_loc c e \<noteq> Level i (Suc c div 2 ^ (8 + 6 * i) mod 64)"
    using moved_level [OF i(2,3,1)] other by metis
  then show ?thesis by (rule boundary_step [OF i(2,3,1) e])
qed

lemma node_loc_far:
  assumes "e div 2 ^ 26 \<noteq> c div 2 ^ 26"
  shows "node_loc c e = Level 3 (e div 2 ^ 26 mod 64)"
proof -
  have ne: "e div 2 ^ m \<noteq> c div 2 ^ m" if "m \<le> 26" for m using div_pow_mono that assms by blast
  then have "e div 2 ^ 14 \<noteq> c div 2 ^ 14" "e div 2 ^ 20 \<noteq> c div 2 ^ 20" "e div 2 ^ 8 \<noteq> c div 2 ^ 8"
    by (metis numeral_le_iff semiring_norm)+
  then have "level_of c e = 3" "e div 2 ^ 8 \<noteq> c div 2 ^ 8"
    unfolding level_of_def using assms by (simp_all only: if_False simp_thms)
  moreover have "8 + 6 * 3 = (26 :: nat)" by simp
  ultimately show ?thesis
    unfolding node_loc_def by (simp only: if_False simp_thms)
qed

lemma loc_step:
  fixes c e :: u32
  assumes e: "ahead (unat c) (unat e)" and other: "moved (unat (c + 1)) \<noteq> Some (node_loc (unat c) (unat e))"
  shows "node_loc (unat (c + 1)) (unat e) = node_loc (unat c) (unat e)"
proof (cases "c + 1 = 0")
  case False
  then have "unat (c + 1) = Suc (unat c)" using unatSuc [of c] by (simp add: add.commute)
  moreover have "unat (c + 1) < 2 ^ 32" "unat e < 2 ^ 32" using unsigned_less [of "c + 1"] unsigned_less [of e] by simp_all
  ultimately show ?thesis using loc_step_nat [OF e] other by simp
next
  case True
  then have "c = - 1" by (simp add: eq_neg_iff_add_eq_0)
  then have c: "unat c = 2 ^ 32 - 1" by (simp add: unsigned_minus_1_eq_mask mask_eq_exp_minus_1)
  have e32: "unat e < 2 ^ 32" using unsigned_less [of e] by simp
  have "Suc (unat c) mod 2 ^ 26 = 0" using c by simp
  from block_end [OF e this, of 26] have loc: "node_loc (unat c) (unat e) = Level 3 (unat e div 2 ^ 26 mod 64)"
    by (intro node_loc_far) auto
  have "moved (unat (c + 1)) = Some (Level 3 0)" by (simp only: True moved_def) simp
  with other loc have "unat e div 2 ^ 26 mod 64 \<noteq> 0" by metis
  then have "unat e div 2 ^ 26 \<noteq> 0 div 2 ^ 26" by auto
  then have "node_loc 0 (unat e) = Level 3 (unat e div 2 ^ 26 mod 64)" by (rule node_loc_far)
  with True loc show ?thesis by simp
qed

subsection \<open>The wheel as a list of countdowns\<close>

text \<open>The specification: the pending timeouts in the order in which they were added, each
  with the number of ticks that are left. A tick takes one from each of them and fires those
  that reach 0; what other threads add while a nonempty list is dispatched comes after.\<close>

type_synonym countdown = "(nat \<times> timer_event) list"

definition countdown_add :: "timer_event \<Rightarrow> int \<Rightarrow> countdown \<Rightarrow> countdown" where
  "countdown_add ev tm cs = cs @ [(nat tm, ev)]"

definition tick_down :: "countdown \<Rightarrow> countdown" where
  "tick_down cs = map (\<lambda>c. (fst c - 1, snd c)) cs"

definition due :: "countdown \<Rightarrow> timer_event list" where
  "due cs = map snd (filter (\<lambda>c. fst c = 0) cs)"

definition not_due :: "countdown \<Rightarrow> countdown" where
  "not_due cs = filter (\<lambda>c. fst c \<noteq> 0) cs"

definition event_message :: "timer_event \<Rightarrow> u32 \<times> skynet_message" where
  "event_message ev = (ev_handle ev, timer_message (ev_session ev))"

primrec countdown_add_all :: "(timer_event \<times> int) list \<Rightarrow> countdown \<Rightarrow> countdown" where
  "countdown_add_all [] cs = cs"
| "countdown_add_all (a # as) cs = countdown_add_all as (countdown_add (fst a) (snd a) cs)"

definition countdown_fire :: "(timer_event \<times> int) list list \<Rightarrow> countdown \<Rightarrow> (u32 \<times> skynet_message) list \<times> countdown" where
  "countdown_fire env cs = (map event_message (due cs),
     if due cs = [] then cs else countdown_add_all (concat (take 1 env)) (not_due cs))"

definition valid_add :: "timer_event \<times> int \<Rightarrow> bool" where
  "valid_add a \<longleftrightarrow> 0 < snd a \<and> snd a < 2 ^ 31"

text \<open>The abstraction: the nodes of the wheel that expire at \<open>e\<close>, in order, are the
  pending timeouts that reach 0 at \<open>e\<close>, in order, and every node is in its place.\<close>

definition placed :: "timer \<Rightarrow> bool" where
  "placed T \<longleftrightarrow> (\<forall>l. \<forall>n \<in> set (wheel T l). node_loc (unat (time T)) (unat (expire n)) = l)"

definition bucket :: "timer \<Rightarrow> u32 \<Rightarrow> timer_node list" where
  "bucket T e = filter (\<lambda>n. expire n = e) (wheel T (node_loc (unat (time T)) (unat e)))"

definition timer_rel :: "countdown \<Rightarrow> timer \<Rightarrow> bool" where
  "timer_rel cs T \<longleftrightarrow> placed T \<and> (\<forall>c \<in> set cs. fst c < 2 ^ 31)
     \<and> (\<forall>e. map event (bucket T e) = map snd (filter (\<lambda>c. of_nat (fst c) + time T = e) cs))"

lemma placed_bucket: "placed T \<Longrightarrow> n \<in> set (wheel T l) \<Longrightarrow> n \<in> set (bucket T (expire n))"
  by (auto simp: placed_def bucket_def)

lemma timer_rel_node:
  assumes "timer_rel cs T" "n \<in> set (wheel T l)"
  shows "\<exists>c \<in> set cs. expire n = of_nat (fst c) + time T"
proof -
  from assms have "bucket T (expire n) \<noteq> []" using placed_bucket by (fastforce simp: timer_rel_def)
  then have "filter (\<lambda>c. of_nat (fst c) + time T = expire n) cs \<noteq> []"
    using assms(1) by (metis list.map_disc_iff timer_rel_def)
  then show ?thesis by (metis (mono_tags, lifting) filter_empty_conv)
qed

lemma bucket_add_node:
  "bucket (add_node n T) e = bucket T e @ (if expire n = e then [n] else [])"
  by (auto simp: bucket_def wheel_add_node)

lemma placed_add_node: "placed T \<Longrightarrow> placed (add_node n T)"
  by (auto simp: placed_def wheel_add_node split: if_splits)

lemma timer_rel_add:
  assumes "timer_rel cs T" "valid_add (ev, tm)"
  shows "timer_rel (countdown_add ev tm cs) (timer_add ev tm T)"
proof -
  have "(word_of_int tm :: u32) = of_nat (nat tm)" using assms(2) by (simp add: valid_add_def)
  then show ?thesis
    using assms placed_add_node
    by (auto simp: timer_rel_def timer_add_def countdown_add_def bucket_add_node valid_add_def)
qed

lemma timer_rel_add_all:
  "timer_rel cs T \<Longrightarrow> list_all valid_add as \<Longrightarrow> timer_rel (countdown_add_all as cs) (add_all as T)"
proof (induction as arbitrary: cs T)
  case (Cons a as)
  then have "timer_rel (countdown_add (fst a) (snd a) cs) (timer_add (fst a) (snd a) T)"
    by (intro timer_rel_add) auto
  with Cons show ?case by simp
qed simp

subsection \<open>A tick\<close>

lemma of_nat_add_eq_self: "r < 2 ^ 31 \<Longrightarrow> of_nat r + t = (t :: u32) \<longleftrightarrow> r = 0"
proof
  assume "r < 2 ^ 31" "of_nat r + t = t"
  then have "unat (of_nat r :: u32) = 0" "r < 2 ^ 32" by simp_all
  then show "r = 0" by (simp add: unsigned_of_nat take_bit_nat_eq_self)
qed simp

lemma ahead_of_nat:
  fixes t :: u32
  assumes "0 < r" "r < 2 ^ 31"
  shows "ahead (unat t) (unat (of_nat r + t))"
proof -
  have r: "unat (of_nat r :: u32) = r" using assms(2) by (simp add: unsigned_of_nat take_bit_nat_eq_self)
  have "unat t < 2 ^ 32" using unsigned_less [of t] by simp
  moreover have "unat (of_nat r + t) = (r + unat t) mod 2 ^ 32"
    using unat_word_ariths(1) [of "of_nat r" t] r by simp
  ultimately show ?thesis
    using assms by (cases "r + unat t < 2 ^ 32") (auto simp: ahead_def mod_if le_mod_geq)
qed

lemma wheel_move_loc:
  "src = Level i k \<Longrightarrow> wheel (move_loc (Some src) T) l = (if l = src then [] else wheel T l)
     @ filter (\<lambda>n. node_loc (unat (time T)) (unat (expire n)) = l) (wheel T src)"
  by (simp only: move_loc_def option.case timer_loc.case wheel_move_list)

lemma move_loc_time [simp]: "time (move_loc src T) = time T"
  by (simp add: move_loc_def split: option.splits timer_loc.splits)

lemma wheel_time_upd [simp]: "wheel (T\<lparr>time := t\<rparr>) l = wheel T l"
  by (cases l) simp_all

lemma moved_is_level: "moved c = Some l \<Longrightarrow> \<exists>i k. l = Level i k"
  by (auto simp: moved_def split: if_splits)

text \<open>Advancing the time keeps every node in its place and every bucket as it was.\<close>

lemma shift_places:
  fixes T :: timer
  defines "T' \<equiv> move_loc (moved (unat (time T + 1))) (T\<lparr>time := time T + 1\<rparr>)"
  assumes "placed T" and ahead: "\<And>l n. n \<in> set (wheel T l) \<Longrightarrow> ahead (unat (time T)) (unat (expire n))"
  shows "placed T' \<and> bucket T' e = bucket T e"
proof (cases "moved (unat (time T + 1))")
  case None
  then have T': "T' = T\<lparr>time := time T + 1\<rparr>" by (simp add: T'_def move_loc_def)
  have same: "node_loc (unat (time T + 1)) (unat (expire n)) = node_loc (unat (time T)) (unat (expire n))"
    if "n \<in> set (wheel T l)" for n l using loc_step [OF ahead [OF that]] None by simp
  have "bucket T' e = bucket T e"
  proof (cases "\<exists>l. \<exists>n \<in> set (wheel T l). expire n = e")
    case True
    with same show ?thesis by (auto simp: T' bucket_def)
  next
    case False
    then show ?thesis by (auto simp: T' bucket_def filter_empty_conv)
  qed
  with \<open>placed T\<close> same show ?thesis by (simp add: T' placed_def)
next
  case (Some src)
  from moved_is_level [OF Some] obtain i k where lev: "src = Level i k" by blast
  let ?new = "\<lambda>n. node_loc (unat (time T + 1)) (unat (expire n))"
  let ?old = "\<lambda>n. node_loc (unat (time T)) (unat (expire n))"
  have T': "wheel T' l = (if l = src then [] else wheel T l) @ filter (\<lambda>n. ?new n = l) (wheel T src)" for l
    unfolding T'_def Some by (simp only: wheel_move_loc [OF lev] wheel_time_upd) simp
  have time: "time T' = time T + 1" by (simp add: T'_def)
  have same: "?new n = ?old n" if "n \<in> set (wheel T l)" "?old n \<noteq> src" for n l
    using loc_step [OF ahead [OF that(1)]] that(2) Some by simp
  have at: "?old n = l" if "n \<in> set (wheel T l)" for n l using that \<open>placed T\<close> by (simp add: placed_def)
  have "placed T'" using same at by (fastforce simp: placed_def T' time split: if_splits)
  moreover have "bucket T' e = bucket T e"
  proof (cases "\<exists>l. \<exists>n \<in> set (wheel T l). expire n = e")
    case False
    then show ?thesis by (simp add: bucket_def T' filter_empty_conv)
  next
    case True
    then obtain l0 n0 where n0: "n0 \<in> set (wheel T l0)" "expire n0 = e" by blast
    let ?l = "node_loc (unat (time T + 1)) (unat e)" and ?o = "node_loc (unat (time T)) (unat e)"
    have none: "filter (\<lambda>n. expire n = e) (wheel T l) = []" if "l \<noteq> ?o" for l
      using at that by (auto simp: filter_empty_conv)
    have mv: "filter (\<lambda>n. expire n = e) (filter (\<lambda>n. ?new n = ?l) (wheel T src))
        = filter (\<lambda>n. expire n = e) (wheel T src)" by (auto intro: filter_cong)
    show ?thesis
    proof (cases "?o = src")
      case True
      then show ?thesis
        using none [of ?l] by (simp add: bucket_def time T' mv del: filter_filter)
    next
      case False
      with same [OF n0(1)] n0(2) have "?l = ?o" by simp
      with False none [of src] show ?thesis by (simp add: bucket_def time T' filter_empty_conv)
    qed
  qed
  ultimately show ?thesis ..
qed

lemma timer_rel_shift:
  assumes rel: "timer_rel cs T" and pos: "\<forall>c \<in> set cs. 0 < fst c"
  shows "\<exists>T'. timer_shift T = Some T' \<and> timer_rel (tick_down cs) T'"
proof -
  let ?T' = "move_loc (moved (unat (time T + 1))) (T\<lparr>time := time T + 1\<rparr>)"
  have "ahead (unat (time T)) (unat (expire n))" if n: "n \<in> set (wheel T l)" for n l
  proof -
    from timer_rel_node [OF rel n] obtain c where "c \<in> set cs" "expire n = of_nat (fst c) + time T" by blast
    with rel pos ahead_of_nat [of "fst c" "time T"] show ?thesis by (simp add: timer_rel_def)
  qed
  then have b: "placed ?T' \<and> bucket ?T' e = bucket T e" for e
    using shift_places [of T e] rel by (simp add: timer_rel_def)
  have step: "of_nat (fst c - 1) + (time T + 1) = e \<longleftrightarrow> of_nat (fst c) + time T = e"
    if "c \<in> set cs" for c and e :: u32
  proof -
    have "Suc (fst c - 1) = fst c" using pos that by auto
    then have "(of_nat (fst c) :: u32) = 1 + of_nat (fst c - 1)" by (metis of_nat_Suc)
    then show ?thesis by (simp add: algebra_simps)
  qed
  have "map snd (filter (\<lambda>c. of_nat (fst c) + time ?T' = e) (tick_down cs))
      = map snd (filter (\<lambda>c. of_nat (fst c) + time T = e) cs)" for e
    unfolding tick_down_def filter_map by (simp add: comp_def step [unfolded One_nat_def] cong: filter_cong)
  moreover have "\<forall>c \<in> set (tick_down cs). fst c < 2 ^ 31"
    using rel by (auto simp: tick_down_def timer_rel_def)
  ultimately have "timer_rel (tick_down cs) ?T'"
    using b rel by (simp add: timer_rel_def)
  then show ?thesis using timer_shift_moved [of T] by blast
qed

lemma near_bucket:
  assumes "placed T"
  shows "near T (unat (time T AND TIME_NEAR_MASK)) = bucket T (time T)"
proof -
  let ?k = "unat (time T) mod 2 ^ 8"
  have loc: "node_loc (unat (time T)) (unat (time T)) = Near ?k" by (simp add: node_loc_def)
  have "expire n = time T" if "n \<in> set (wheel T (Near ?k))" for n
  proof -
    from that assms have "node_loc (unat (time T)) (unat (expire n)) = Near ?k" by (simp add: placed_def)
    then have "unat (expire n) div 2 ^ 8 = unat (time T) div 2 ^ 8" "unat (expire n) mod 2 ^ 8 = ?k"
      by (auto simp: node_loc_def split: if_splits)
    then have "unat (expire n) = unat (time T)" by (metis mult_div_mod_eq)
    then show ?thesis by (simp add: word_eq_iff_unat_eq)
  qed
  then have "bucket T (time T) = wheel T (Near ?k)" unfolding bucket_def loc by (simp add: filter_id_conv)
  then show ?thesis by (simp only: timer_masks unat_and_mask wheel.simps)
qed

lemma timer_rel_due:
  assumes "timer_rel cs T"
  shows "map event (bucket T (time T)) = due cs"
proof -
  have "filter (\<lambda>c. of_nat (fst c) + time T = time T) cs = filter (\<lambda>c. fst c = 0) cs"
    by (rule filter_cong) (use assms of_nat_add_eq_self in \<open>auto simp: timer_rel_def\<close>)
  then show ?thesis using assms by (simp add: timer_rel_def due_def)
qed

lemma dispatch_list_map: "dispatch_list ns = map (\<lambda>n. event_message (event n)) ns"
  by (induction ns) (simp_all add: event_message_def)

text \<open>Taking the list of the current time off the wheel removes exactly what is due.\<close>

lemma timer_rel_clear:
  assumes rel: "timer_rel cs T"
  shows "timer_rel (not_due cs) (set_list (Near (unat (time T AND TIME_NEAR_MASK))) [] T)"
    (is "timer_rel _ ?T'")
proof -
  have wheel: "wheel ?T' l = (if l = Near (unat (time T AND TIME_NEAR_MASK)) then [] else wheel T l)" for l
    by (simp)
  have time: "time ?T' = time T" by simp
  have loc: "node_loc (unat (time T)) (unat (time T)) = Near (unat (time T AND TIME_NEAR_MASK))"
    by (simp only: node_loc_def timer_masks unat_and_mask if_True refl)
  have only: "bucket T e = []" if "node_loc (unat (time T)) (unat e) = Near (unat (time T AND TIME_NEAR_MASK))"
    "e \<noteq> time T" for e
    using near_bucket [of T] rel that by (auto simp: timer_rel_def bucket_def filter_empty_conv)
  have "bucket ?T' e = (if e = time T then [] else bucket T e)" for e
    using only [of e] loc by (simp add: bucket_def wheel time)
  moreover have "filter (\<lambda>c. of_nat (fst c) + time T = e) (not_due cs)
      = (if e = time T then [] else filter (\<lambda>c. of_nat (fst c) + time T = e) cs)" for e
    using rel of_nat_add_eq_self unfolding not_due_def filter_filter
    by (auto simp: timer_rel_def filter_empty_conv intro!: filter_cong)
  moreover have "placed ?T'" using rel by (auto simp: timer_rel_def placed_def wheel time)
  ultimately show ?thesis using rel by (auto simp: timer_rel_def time not_due_def)
qed

lemma countdown_add_all_append: "countdown_add_all as cs = cs @ map (\<lambda>a. (nat (snd a), fst a)) as"
  by (induction as arbitrary: cs) (simp_all add: countdown_add_def)

lemma due_countdown_add_all:
  "list_all valid_add as \<Longrightarrow> due (countdown_add_all as cs) = due cs"
  by (auto simp: countdown_add_all_append due_def valid_add_def list_all_iff filter_empty_conv)

lemma timer_execute_fires:
  assumes rel: "timer_rel cs T" and env: "list_all (list_all valid_add) env"
  shows "\<exists>T'. timer_execute env T = (fst (countdown_fire env cs), T')
    \<and> timer_rel (snd (countdown_fire env cs)) T'"
proof (cases "due cs = []")
  case True
  with timer_rel_due [OF rel] near_bucket [of T] rel have "near T (unat (time T AND TIME_NEAR_MASK)) = []"
    by (simp add: timer_rel_def)
  with True rel show ?thesis by (simp add: timer_execute.simps [of env] countdown_fire_def)
next
  case False
  let ?idx = "unat (time T AND TIME_NEAR_MASK)"
  let ?as = "concat (take 1 env)"
  define T2 where "T2 = add_all ?as (set_list (Near ?idx) [] T)"
  have near: "near T ?idx = bucket T (time T)" using near_bucket rel by (simp add: timer_rel_def)
  with False timer_rel_due [OF rel] have ne: "near T ?idx \<noteq> []" by auto
  have as: "list_all valid_add ?as" using env by (cases env) auto
  have rel2: "timer_rel (countdown_add_all ?as (not_due cs)) T2"
    unfolding T2_def by (rule timer_rel_add_all [OF timer_rel_clear [OF rel] as])
  have none: "due (countdown_add_all ?as (not_due cs)) = []"
    unfolding due_countdown_add_all [OF as] by (auto simp: due_def not_due_def filter_empty_conv)
  then have "near T2 (unat (time T2 AND TIME_NEAR_MASK)) = []"
    using timer_rel_due [OF rel2] near_bucket [of T2] rel2 by (simp add: timer_rel_def)
  then have "timer_execute (tl env) T2 = ([], T2)" by (simp add: timer_execute.simps [of "tl env"])
  moreover have "(case env of [] \<Rightarrow> set_list (Near ?idx) [] T
      | as # env' \<Rightarrow> add_all as (set_list (Near ?idx) [] T)) = T2"
    by (cases env) (simp_all add: T2_def)
  ultimately have "timer_execute env T = (dispatch_list (near T ?idx), T2)"
    using ne by (simp only: timer_execute.simps [of env T] link_clear_def Let_def wheel.simps prod.case
        if_False append_Nil2)
  moreover have "dispatch_list (near T ?idx) = map event_message (due cs)"
    unfolding dispatch_list_map near
    using arg_cong [OF timer_rel_due [OF rel], of "map event_message"] by (simp add: comp_def)
  ultimately show ?thesis using rel2 False by (simp add: countdown_fire_def)
qed

definition pending :: "countdown \<Rightarrow> timer \<Rightarrow> bool" where
  "pending cs T \<longleftrightarrow> timer_rel cs T \<and> (\<forall>c \<in> set cs. 0 < fst c)"

lemma pending_add_all_pos:
  "list_all valid_add as \<Longrightarrow> \<forall>c \<in> set cs. 0 < fst c \<Longrightarrow> \<forall>c \<in> set (countdown_add_all as cs). 0 < fst c"
  by (auto simp: countdown_add_all_append valid_add_def list_all_iff)

lemma countdown_fire_pos:
  assumes "list_all (list_all valid_add) env" "c \<in> set (snd (countdown_fire env cs))"
  shows "0 < fst c"
proof (cases "due cs = []")
  case True
  with assms(2) show ?thesis by (auto simp: countdown_fire_def due_def filter_empty_conv)
next
  case False
  have "list_all valid_add (concat (take 1 env))" using assms(1) by (cases env) auto
  then have "\<forall>c \<in> set (countdown_add_all (concat (take 1 env)) (not_due cs)). 0 < fst c"
    by (rule pending_add_all_pos) (simp add: not_due_def)
  with False assms(2) show ?thesis by (simp add: countdown_fire_def)
qed

definition countdown_tick ::
  "(timer_event \<times> int) list list \<Rightarrow> countdown \<Rightarrow> (u32 \<times> skynet_message) list \<times> countdown" where
  "countdown_tick env cs = countdown_fire env (tick_down cs)"

lemma timer_update_tick:
  assumes "pending cs T" "list_all (list_all valid_add) env1" "list_all (list_all valid_add) env2"
  shows "\<exists>T'. timer_update env1 env2 T = Some (fst (countdown_tick env2 cs), T')
    \<and> pending (snd (countdown_tick env2 cs)) T'"
proof -
  have rel: "timer_rel cs T" and pos: "\<forall>c \<in> set cs. 0 < fst c" using assms(1) by (simp_all add: pending_def)
  have "due cs = []" using pos by (auto simp: due_def filter_empty_conv)
  then have fire: "countdown_fire env1 cs = ([], cs)" by (simp add: countdown_fire_def)
  from timer_execute_fires [OF rel assms(2)] fire obtain T1 where
    T1: "timer_execute env1 T = ([], T1)" "timer_rel cs T1" by auto
  from timer_rel_shift [OF T1(2) pos] obtain T2 where
    T2: "timer_shift T1 = Some T2" "timer_rel (tick_down cs) T2" by blast
  from timer_execute_fires [OF T2(2) assms(3)] obtain T3 where
    T3: "timer_execute env2 T2 = (fst (countdown_tick env2 cs), T3)"
    "timer_rel (snd (countdown_tick env2 cs)) T3" by (auto simp: countdown_tick_def)
  with T1 T2 show ?thesis
    using countdown_fire_pos [OF assms(3)] by (auto simp: timer_update_def pending_def countdown_tick_def)
qed

lemma pending_add:
  "pending cs T \<Longrightarrow> valid_add (ev, tm) \<Longrightarrow> pending (countdown_add ev tm cs) (timer_add ev tm T)"
  using timer_rel_add by (auto simp: pending_def countdown_add_def valid_add_def)

lemma pending_fresh: "pending [] (timer_create_timer\<lparr>time := t\<rparr>)"
proof -
  have "wheel timer_create_timer l = []" for l by (cases l) (simp_all add: timer_create_timer_def)
  then show ?thesis by (simp add: pending_def timer_rel_def placed_def bucket_def)
qed

subsection \<open>Properties of the timer\<close>

text \<open>What is done to a timer: timeouts are added, and the time advances, while other
  threads add timeouts in the windows in which the lock is free.\<close>

datatype timer_op =
    Timeout timer_event int
  | Tick "(timer_event \<times> int) list list" "(timer_event \<times> int) list list"

fun valid_op :: "timer_op \<Rightarrow> bool" where
  "valid_op (Timeout ev tm) \<longleftrightarrow> valid_add (ev, tm)"
| "valid_op (Tick env1 env2) \<longleftrightarrow> list_all (list_all valid_add) env1 \<and> list_all (list_all valid_add) env2"

fun run_timer :: "timer_op list \<Rightarrow> timer \<Rightarrow> ((u32 \<times> skynet_message) list list \<times> timer) option" where
  "run_timer [] T = Some ([], T)"
| "run_timer (Timeout ev tm # ops) T = run_timer ops (timer_add ev tm T)"
| "run_timer (Tick env1 env2 # ops) T = do {
     (out, T1) \<leftarrow> timer_update env1 env2 T;
     (outs, T2) \<leftarrow> run_timer ops T1;
     Some (out # outs, T2) }"

fun run_countdown :: "timer_op list \<Rightarrow> countdown \<Rightarrow> (u32 \<times> skynet_message) list list" where
  "run_countdown [] cs = []"
| "run_countdown (Timeout ev tm # ops) cs = run_countdown ops (countdown_add ev tm cs)"
| "run_countdown (Tick env1 env2 # ops) cs =
     (let (out, cs') = countdown_tick env2 cs in out # run_countdown ops cs')"

lemma run_timer_countdown:
  "pending cs T \<Longrightarrow> list_all valid_op ops \<Longrightarrow> \<exists>T'. run_timer ops T = Some (run_countdown ops cs, T')"
proof (induction ops arbitrary: cs T)
  case (Cons op ops)
  show ?case
  proof (cases op)
    case (Timeout ev tm)
    with Cons show ?thesis using pending_add by simp
  next
    case (Tick env1 env2)
    with Cons.prems timer_update_tick [of cs T env1 env2] obtain T1 where
      "timer_update env1 env2 T = Some (fst (countdown_tick env2 cs), T1)"
      "pending (snd (countdown_tick env2 cs)) T1" by auto
    with Cons Tick show ?thesis by (fastforce simp: case_prod_beta Let_def)
  qed
qed simp

text \<open>C1. The timer wheel implements a plain list of countdowns. From an empty wheel at any
  value of the 32-bit clock, whatever sequence of timeouts (between 1 and \<open>2 ^ 31 - 1\<close>
  ticks) and ticks is run, and whatever other threads add while a list is dispatched, no
  tick fails or runs forever, and each tick sends exactly the messages whose countdown has
  reached 0, in the order in which their timeouts were added. In particular the timeouts
  survive the moves between the levels and the wrap-around of the clock.\<close>

theorem timer_wheel_refines:
  assumes "list_all valid_op ops"
  shows "\<exists>T. run_timer ops (timer_create_timer\<lparr>time := t\<rparr>) = Some (run_countdown ops [], T)"
  by (rule run_timer_countdown [OF pending_fresh assms])

theorem timer_wheel_refines_witness:
  "\<exists>T. run_timer [Timeout \<lparr>ev_handle = 5, ev_session = 1\<rparr> 2, Tick [] [], Tick [] []]
      (timer_create_timer\<lparr>time := 0xffffffff\<rparr>) = Some ([[], [(5, timer_message 1)]], T)"
  using timer_wheel_refines [of "[Timeout \<lparr>ev_handle = 5, ev_session = 1\<rparr> 2, Tick [] [], Tick [] []]" "0xffffffff"]
  by (simp add: valid_add_def countdown_add_def countdown_tick_def countdown_fire_def tick_down_def due_def
      event_message_def)

definition same_clock :: "timer \<Rightarrow> timer \<Rightarrow> bool" where
  "same_clock T T' \<longleftrightarrow> starttime T' = starttime T \<and> current T' = current T \<and> current_point T' = current_point T"

lemma same_clock_trans: "same_clock T T1 \<Longrightarrow> same_clock T1 T2 \<Longrightarrow> same_clock T T2"
  by (simp add: same_clock_def)

lemma same_clock_add_all: "same_clock T (add_all as T)"
  by (induction as arbitrary: T) (auto simp: same_clock_def timer_add_def)

lemma same_clock_execute: "same_clock T (snd (timer_execute env T))"
proof (induction env T rule: timer_execute.induct)
  case (1 env T)
  let ?idx = "unat (time T AND TIME_NEAR_MASK)"
  let ?T1 = "set_list (Near ?idx) [] T"
  let ?T2 = "case env of [] \<Rightarrow> ?T1 | as # env' \<Rightarrow> add_all as ?T1"
  have T1: "same_clock T ?T1" by (simp add: same_clock_def)
  then have T2: "same_clock T ?T2"
    using same_clock_add_all same_clock_trans by (cases env) (simp, fastforce)
  show ?case
  proof (cases "near T ?idx = []")
    case True
    then show ?thesis by (simp add: timer_execute.simps [of env T] same_clock_def)
  next
    case False
    with 1 have "same_clock ?T2 (snd (timer_execute (tl env) ?T2))"
      by (simp add: link_clear_def split: list.splits)
    with T2 have "same_clock T (snd (timer_execute (tl env) ?T2))" by (rule same_clock_trans)
    with False show ?thesis
      by (simp add: timer_execute.simps [of env T] link_clear_def Let_def case_prod_beta)
  qed
qed

lemma same_clock_update:
  assumes "timer_update env1 env2 T = Some (out, T')"
  shows "same_clock T T'"
proof -
  let ?T1 = "snd (timer_execute env1 T)"
  let ?T2 = "move_loc (moved (unat (time ?T1 + 1))) (?T1\<lparr>time := time ?T1 + 1\<rparr>)"
  have "T' = snd (timer_execute env2 ?T2)"
    using assms timer_shift_moved [of ?T1] by (auto simp: timer_update_def case_prod_beta)
  moreover have "same_clock ?T1 ?T2"
    by (simp add: same_clock_def move_loc_def split: option.splits timer_loc.splits)
  ultimately show ?thesis using same_clock_execute same_clock_trans by blast
qed

lemma update_loop_run:
  "update_loop n T = run_timer (replicate n (Tick [] [])) T"
  by (induction n arbitrary: T) simp_all

lemma same_clock_loop: "update_loop n T = Some (outs, T') \<Longrightarrow> same_clock T T'"
proof (induction n arbitrary: T outs)
  case 0
  then show ?case by (simp add: same_clock_def)
next
  case (Suc n)
  then show ?case by (auto simp: bind_Some_iff intro: same_clock_trans dest: same_clock_update)
qed

definition due_at :: "nat \<Rightarrow> countdown \<Rightarrow> (u32 \<times> skynet_message) list" where
  "due_at k cs = map (\<lambda>c. event_message (snd c)) (filter (\<lambda>c. fst c = k) cs)"

lemma run_countdown_ticks:
  "\<forall>c \<in> set cs. 0 < fst c \<Longrightarrow>
     run_countdown (replicate n (Tick [] [])) cs = map (\<lambda>i. due_at (Suc i) cs) [0..<n]"
proof (induction n arbitrary: cs)
  case (Suc n)
  let ?cs = "not_due (tick_down cs)"
  have tick: "countdown_tick [] cs = (due_at (Suc 0) cs, ?cs)"
  proof -
    have "filter (\<lambda>c. fst c - 1 = 0) cs = filter (\<lambda>c. fst c = Suc 0) cs"
      using Suc.prems by (intro filter_cong) auto
    moreover have "due (tick_down cs) = [] \<Longrightarrow> ?cs = tick_down cs"
      by (auto simp: due_def not_due_def filter_empty_conv filter_id_conv)
    ultimately show ?thesis
      by (auto simp: countdown_tick_def countdown_fire_def due_at_def due_def tick_down_def filter_map comp_def)
  qed
  have "due_at (Suc i) ?cs = due_at (Suc (Suc i)) cs" for i
  proof -
    have "filter (\<lambda>c. Suc 0 < fst c \<and> fst c - Suc 0 = Suc i) cs = filter (\<lambda>c. fst c = Suc (Suc i)) cs"
      by (intro filter_cong) auto
    then show ?thesis by (simp add: due_at_def not_due_def tick_down_def filter_map comp_def)
  qed
  moreover have "\<forall>c \<in> set ?cs. 0 < fst c" by (simp add: not_due_def)
  ultimately show ?case
    using Suc.IH [of ?cs] tick by (simp add: upt_conv_Cons0 comp_def del: upt_Suc)
qed simp

text \<open>C2. \<open>skynet_updatetime\<close> never loses or repeats a tick: when the monotonic clock has
  moved on by fewer than \<open>2 ^ 32\<close> centiseconds, the node's clock advances by exactly that
  amount, and of the timeouts pending before, the one with \<open>k\<close> ticks left fires in tick
  number \<open>k\<close> of the call, and in no other; a clock that went backwards or stood still
  fires nothing.\<close>

theorem updatetime_exact:
  assumes "pending cs T" "uint (cp - current_point T) < 2 ^ 32"
  shows "\<exists>T'. skynet_updatetime cp T = Some (
      if cp \<le> current_point T then []
      else map (\<lambda>i. due_at (Suc i) cs) [0..<unat (cp - current_point T)], T')
    \<and> current_point T' = cp
    \<and> skynet_now T' = skynet_now T + (if cp \<le> current_point T then 0 else cp - current_point T)"
proof (cases "cp \<le> current_point T")
  case True
  then show ?thesis by (auto simp: skynet_updatetime_def skynet_now_def not_less)
next
  case False
  let ?d = "cp - current_point T"
  have d: "ucast (ucast ?d :: u32) = ?d" "unat (ucast ?d :: u32) = unat ?d"
  proof -
    have "unat ?d < 2 ^ 32" using assms(2) by (simp flip: of_nat_less_iff [where 'a = int])
    then show u: "unat (ucast ?d :: u32) = unat ?d" by (simp add: unsigned_ucast_eq take_bit_nat_eq_self)
    have "unat (ucast (ucast ?d :: u32) :: u64) = take_bit 64 (unat (ucast ?d :: u32))"
      by (subst unsigned_ucast_eq) simp
    also have "\<dots> = unat ?d" unfolding u using \<open>unat ?d < 2 ^ 32\<close> by (simp add: take_bit_nat_eq_self)
    finally show "ucast (ucast ?d :: u32) = ?d" by (simp only: word_eq_iff_unat_eq)
  qed
  let ?T = "T\<lparr>current_point := cp, current := current T + ?d\<rparr>"
  have wheel: "wheel ?T l = wheel T l" for l by (cases l) simp_all
  have "pending cs ?T"
    using assms(1) by (simp add: pending_def timer_rel_def placed_def bucket_def wheel)
  from run_timer_countdown [OF this, of "replicate (unat ?d) (Tick [] [])"] obtain T' where
    T': "update_loop (unat ?d) ?T = Some (run_countdown (replicate (unat ?d) (Tick [] [])) cs, T')"
    by (auto simp: update_loop_run list_all_iff)
  moreover have "same_clock ?T T'" by (rule same_clock_loop [OF T'])
  ultimately show ?thesis
    using False assms(1) run_countdown_ticks [of cs "unat ?d"] d
    by (auto simp: skynet_updatetime_def pending_def same_clock_def skynet_now_def Let_def not_less)
qed

theorem updatetime_exact_witness:
  "\<exists>T'. skynet_updatetime 3 (timer_add \<lparr>ev_handle = 5, ev_session = 1\<rparr> 2 timer_create_timer)
     = Some ([[], [(5, timer_message 1)], []], T') \<and> skynet_now T' = 3"
proof -
  have "pending [(2, \<lparr>ev_handle = 5, ev_session = 1\<rparr>)]
      (timer_add \<lparr>ev_handle = 5, ev_session = 1\<rparr> 2 timer_create_timer)"
    using pending_add [of "[]" timer_create_timer "\<lparr>ev_handle = 5, ev_session = 1\<rparr>" 2] pending_fresh [of 0]
    by (simp add: valid_add_def countdown_add_def timer_create_timer_def)
  moreover have "[0..<3] = [0, 1, 2 :: nat]" by code_simp
  ultimately show ?thesis
    using updatetime_exact [of _ _ 3]
    by (fastforce simp: timer_add_def timer_create_timer_def skynet_now_def due_at_def event_message_def)
qed

end
