(* ===== verification/Cstring.thy ===== *)
theory Cstring
  imports Prelude
begin

section \<open>Numbers and words in C strings\<close>

text \<open>
  The service layer exchanges numbers, handles and commands as C strings. This theory holds
  the conversions of the C library it uses, with the behaviour the C standard gives them:
  \<open>strtoul\<close> and \<open>strtol\<close> (white space, sign, prefix, saturation), the formats
  \<open>%x\<close>, \<open>%08x\<close> and \<open>%d\<close>, \<open>strsep\<close>, \<open>strchr\<close> and the words
  that \<open>sscanf\<close> reads, and \<open>id_to_hex\<close> of \<open>skynet_server.c\<close>. A string is the
  list of its characters without the terminator. The result is that a handle printed in
  either form is read back as the same handle.
\<close>

subsection \<open>Digits\<close>

definition hex_char :: "nat \<Rightarrow> char" where
  "hex_char d = ''0123456789abcdef'' ! d"

definition hex_char_upper :: "nat \<Rightarrow> char" where
  "hex_char_upper d = ''0123456789ABCDEF'' ! d"

definition digit_value :: "char \<Rightarrow> nat option" where
  "digit_value c =
     (let n = (of_char c :: nat)
      in if 48 \<le> n \<and> n \<le> 57 then Some (n - 48)
         else if 97 \<le> n \<and> n \<le> 122 then Some (n - 87)
         else if 65 \<le> n \<and> n \<le> 90 then Some (n - 55)
         else None)"

definition isspace :: "char \<Rightarrow> bool" where
  "isspace c \<longleftrightarrow> c \<in> {CHR 0x20, CHR 0x09, CHR 0x0a, CHR 0x0b, CHR 0x0c, CHR 0x0d}"

text \<open>The value of the longest prefix of digits of the given base, and whether it is
  non-empty.\<close>

fun read_digits :: "nat \<Rightarrow> nat \<Rightarrow> string \<Rightarrow> nat" where
  "read_digits base acc [] = acc"
| "read_digits base acc (c # cs) =
     (case digit_value c of
        Some d \<Rightarrow> (if d < base then read_digits base (acc * base + d) cs else acc)
      | None \<Rightarrow> acc)"

fun read_sign :: "string \<Rightarrow> bool \<times> string" where
  "read_sign [] = (False, [])"
| "read_sign (c # cs) =
     (if c = CHR ''-'' then (True, cs) else if c = CHR ''+'' then (False, cs) else (False, c # cs))"

text \<open>A prefix \<open>0x\<close> counts only before a hexadecimal digit.\<close>

fun hex_prefix :: "string \<Rightarrow> string option" where
  "hex_prefix (z # x # c # cs) =
     (if z = CHR ''0'' \<and> (x = CHR ''x'' \<or> x = CHR ''X'')
       \<and> (case digit_value c of Some d \<Rightarrow> d < 16 | None \<Rightarrow> False) then Some (c # cs) else None)"
| "hex_prefix _ = None"

definition read_base :: "nat \<Rightarrow> string \<Rightarrow> nat \<times> string" where
  "read_base base s =
     (case (if base = 0 \<or> base = 16 then hex_prefix s else None) of
        Some s' \<Rightarrow> (16, s')
      | None \<Rightarrow> (if base \<noteq> 0 then (base, s)
                 else if s \<noteq> [] \<and> hd s = CHR ''0'' then (8, s) else (10, s)))"

definition read_number :: "nat \<Rightarrow> string \<Rightarrow> bool \<times> nat" where
  "read_number base str =
     (let (neg, s1) = read_sign (dropWhile isspace str);
          (b, s2) = read_base base s1
      in (neg, read_digits b 0 s2))"

definition strtoul :: "nat \<Rightarrow> string \<Rightarrow> u64" where
  "strtoul base str =
     (let (neg, v) = read_number base str
      in if v \<ge> 2 ^ 64 then - 1 else if neg then - of_nat v else of_nat v)"

definition strtol :: "nat \<Rightarrow> string \<Rightarrow> int" where
  "strtol base str =
     (let (neg, v) = read_number base str
      in if neg then max (- (2 ^ 63)) (- int v) else min (2 ^ 63 - 1) (int v))"

subsection \<open>Formats\<close>

fun print_base :: "nat \<Rightarrow> nat \<Rightarrow> string" where
  "print_base b n = (if b < 2 \<or> n < b then [hex_char n] else print_base b (n div b) @ [hex_char (n mod b)])"

declare print_base.simps [simp del]

definition print_hex :: "u32 \<Rightarrow> string" where
  "print_hex h = print_base 16 (unat h)"

definition pad_left :: "nat \<Rightarrow> string \<Rightarrow> string" where
  "pad_left n s = replicate (n - length s) CHR ''0'' @ s"

definition print_dec :: "int \<Rightarrow> string" where
  "print_dec i = (if i < 0 then CHR ''-'' # print_base 10 (nat (- i)) else print_base 10 (nat i))"

definition id_to_hex :: "u32 \<Rightarrow> string" where
  "id_to_hex h = CHR '':'' # map (\<lambda>i. hex_char_upper (unat (drop_bit ((7 - i) * 4) h AND 0xf))) [0..<8]"

subsection \<open>Splitting\<close>

text \<open>\<open>strsep\<close>: the token before the first delimiter and what follows it, \<open>None\<close>
  for the null pointer it leaves when there is none.\<close>

definition strsep :: "char set \<Rightarrow> string option \<Rightarrow> string option \<times> string option" where
  "strsep delim str =
     (case str of
        None \<Rightarrow> (None, None)
      | Some s \<Rightarrow> (Some (takeWhile (\<lambda>c. c \<notin> delim) s),
                  (case dropWhile (\<lambda>c. c \<notin> delim) s of [] \<Rightarrow> None | c # cs \<Rightarrow> Some cs)))"

text \<open>\<open>sscanf(str, "%s %s", a, b)\<close>: a word that is not there leaves its array as it was.\<close>

definition scan_words :: "string \<Rightarrow> string option \<times> string option" where
  "scan_words str =
     (let s1 = dropWhile isspace str;
          a = takeWhile (\<lambda>c. \<not> isspace c) s1;
          s2 = dropWhile isspace (dropWhile (\<lambda>c. \<not> isspace c) s1);
          b = takeWhile (\<lambda>c. \<not> isspace c) s2
      in (if a = [] then None else Some a, if b = [] then None else Some b))"

definition strchr :: "string \<Rightarrow> char \<Rightarrow> string option" where
  "strchr s c = (case dropWhile (\<lambda>x. x \<noteq> c) s of [] \<Rightarrow> None | t \<Rightarrow> Some t)"

subsection \<open>Printed numbers are read back\<close>

lemma digit_value_hex_char: "d < 16 \<Longrightarrow> digit_value (hex_char d) = Some d"
  and digit_value_upper: "d < 16 \<Longrightarrow> digit_value (hex_char_upper d) = Some d"
proof -
  have "\<forall>d \<in> set [0..<16]. digit_value (hex_char d) = Some d \<and> digit_value (hex_char_upper d) = Some d"
    by code_simp
  then show "d < 16 \<Longrightarrow> digit_value (hex_char d) = Some d" "d < 16 \<Longrightarrow> digit_value (hex_char_upper d) = Some d"
    by auto
qed

text \<open>The value of a list of digits, most significant first.\<close>

definition digits_value :: "nat \<Rightarrow> nat \<Rightarrow> nat list \<Rightarrow> nat" where
  "digits_value b = foldl (\<lambda>v d. v * b + d)"

lemma read_digits_map:
  assumes "\<And>d. d < b \<Longrightarrow> digit_value (f d) = Some d" "\<forall>d \<in> set ds. d < b"
  shows "read_digits b acc (map f ds) = digits_value b acc ds"
  using assms(2) by (induction ds arbitrary: acc) (simp_all add: digits_value_def assms(1))

fun base_digits :: "nat \<Rightarrow> nat \<Rightarrow> nat list" where
  "base_digits b n = (if b < 2 \<or> n < b then [n] else base_digits b (n div b) @ [n mod b])"

declare base_digits.simps [simp del]

lemma print_base_digits: "print_base b n = map hex_char (base_digits b n)"
proof (induction b n rule: print_base.induct)
  case (1 b n)
  then show ?case by (simp add: print_base.simps [of b n] base_digits.simps [of b n])
qed

lemma base_digits_nonempty: "base_digits b n \<noteq> []"
  by (subst base_digits.simps) simp

lemma base_digits_less: "2 \<le> b \<Longrightarrow> \<forall>d \<in> set (base_digits b n). d < b"
proof (induction b n rule: base_digits.induct)
  case (1 b n)
  then show ?case by (auto simp: base_digits.simps [of b n])
qed

lemma base_digits_value: "2 \<le> b \<Longrightarrow> digits_value b 0 (base_digits b n) = n"
proof (induction b n rule: base_digits.induct)
  case (1 b n)
  then show ?case by (auto simp: base_digits.simps [of b n] digits_value_def)
qed

lemma read_digits_print:
  assumes "2 \<le> b" "b \<le> 16"
  shows "read_digits b 0 (print_base b n) = n"
  using assms read_digits_map [of b hex_char "base_digits b n" 0] base_digits_less [of b n]
  by (simp add: print_base_digits digit_value_hex_char base_digits_value)

lemma read_number_digits:
  assumes f: "\<And>d. d < b \<Longrightarrow> digit_value (f d) = Some d" and ds: "\<forall>d \<in> set ds. d < b" "ds \<noteq> []"
    and b: "b = 10 \<or> b = 16"
  shows "read_number b (map f ds) = (False, digits_value b 0 ds)"
proof -
  obtain d ds' where d: "ds = d # ds'" "d < b" using ds by (cases ds) auto
  have "\<not> isspace (f d)" "f d \<noteq> CHR ''-''" "f d \<noteq> CHR ''+''"
    using f [OF d(2)] by (auto simp: isspace_def digit_value_def Let_def)
  then have "read_sign (dropWhile isspace (map f ds)) = (False, map f ds)" using d by simp
  moreover have "hex_prefix (map f ds) = None"
  proof (cases ds')
    case (Cons e es)
    have "e < b" using ds d Cons by simp
    from f [OF this] have "f e \<noteq> CHR ''x''" "f e \<noteq> CHR ''X''"
      using b \<open>e < b\<close> by (auto simp: digit_value_def Let_def)
    then show ?thesis using d Cons by (cases "map f es") simp_all
  qed (use d in simp)
  ultimately show ?thesis
    using read_digits_map [OF f ds(1), of 0] b by (auto simp: read_number_def read_base_def)
qed

lemma strtoul_hex:
  assumes "\<And>d. d < 16 \<Longrightarrow> digit_value (f d) = Some d" "\<forall>d \<in> set ds. d < 16" "ds \<noteq> []"
    "digits_value 16 0 ds = unat (h :: u32)"
  shows "ucast (strtoul 16 (map f ds)) = h"
proof -
  have "unat h < 2 ^ 32" using unsigned_less [of h, where 'a = nat] by simp
  then have "strtoul 16 (map f ds) = of_nat (unat h)"
    using read_number_digits [of 16 f ds] assms by (simp add: strtoul_def del: of_nat_unat)
  moreover have "(ucast (of_nat (unat h) :: u64) :: u32) = h"
    by (rule bit_word_eqI) (simp add: bit_simps)
  ultimately show ?thesis by simp
qed

text \<open>The two ways of printing a handle: both are read back as the handle.\<close>

lemma strtoul_print_hex: "ucast (strtoul 16 (print_hex h)) = h"
  unfolding print_hex_def print_base_digits
  by (rule strtoul_hex)
    (use base_digits_less [of 16 "unat h"] in \<open>simp_all add: digit_value_hex_char base_digits_value base_digits_nonempty\<close>)

lemma digits_value_fixed:
  "digits_value 16 0 (map (\<lambda>i. n div 16 ^ (k - 1 - i) mod 16) [0..<k]) = n mod 16 ^ k"
proof (induction k arbitrary: n)
  case (Suc k)
  have "n div 16 ^ (Suc k - 1 - i) mod 16 = (n div 16) div 16 ^ (k - 1 - i) mod 16" if "i < k" for i
  proof -
    from that have "Suc k - 1 - i = Suc (k - 1 - i)" by simp
    then show ?thesis by (simp only: power_Suc div_mult2_eq)
  qed
  then have "map (\<lambda>i. n div 16 ^ (Suc k - 1 - i) mod 16) [0..<Suc k]
      = map (\<lambda>i. (n div 16) div 16 ^ (k - 1 - i) mod 16) [0..<k] @ [n mod 16]" by simp
  then have "digits_value 16 0 (map (\<lambda>i. n div 16 ^ (Suc k - 1 - i) mod 16) [0..<Suc k])
      = digits_value 16 0 (map (\<lambda>i. (n div 16) div 16 ^ (k - 1 - i) mod 16) [0..<k]) * 16 + n mod 16"
    by (simp only: digits_value_def foldl_append foldl.simps)
  also have "\<dots> = (n div 16 mod 16 ^ k) * 16 + n mod 16" by (simp only: Suc)
  also have "\<dots> = n mod 16 ^ Suc k" by (simp add: mod_mult2_eq)
  finally show ?case .
qed (simp add: digits_value_def)

lemma strtoul_id_to_hex: "ucast (strtoul 16 (tl (id_to_hex h))) = h"
proof -
  have "unat (drop_bit ((7 - i) * 4) h AND 0xf) = unat h div 16 ^ (8 - 1 - i) mod 16" for i
  proof -
    have "(0xf :: u32) = mask 4" by (simp add: mask_eq_exp_minus_1)
    then have "unat (drop_bit ((7 - i) * 4) h AND 0xf) = unat h div 2 ^ ((7 - i) * 4) mod 2 ^ 4"
      by (simp only: unat_and_mask unat_drop_bit)
    then show ?thesis by (simp add: power_mult mult.commute [of _ 4])
  qed
  then have "tl (id_to_hex h) = map hex_char_upper (map (\<lambda>i. unat h div 16 ^ (8 - 1 - i) mod 16) [0..<8])"
    unfolding id_to_hex_def by (simp only: list.sel map_map comp_def)
  moreover have "unat h mod 16 ^ 8 = unat h" using unsigned_less [of h, where 'a = nat] by simp
  then have "digits_value 16 0 (map (\<lambda>i. unat h div 16 ^ (8 - 1 - i) mod 16) [0..<8]) = unat h"
    unfolding digits_value_fixed .
  ultimately show ?thesis
    by (simp only:, intro strtoul_hex) (auto simp: digit_value_upper)
qed

end
