(* ===== verification/Module.thy ===== *)
theory Module
  imports Cstring
begin

section \<open>C modules and the environment (\<open>skynet_module.c\<close>, \<open>skynet_env.c\<close>)\<close>

text \<open>
  A service type is a shared object with up to four entry points, found through a search
  path with \<open>?\<close> patterns and kept in a table of 32 entries. The loader of the operating
  system is a parameter: \<open>dlopen\<close> maps a file name to a library, and \<open>dlsym\<close> a library
  and a symbol to the address of a function. A pointer into the table is the index of its
  entry. The environment is a table of strings whose entries are set once.
\<close>

type_synonym dl_ptr = nat
type_synonym fun_ptr = nat

record skynet_module =
  md_name :: string
  md_module :: dl_ptr
  md_create :: "fun_ptr option"
  md_init :: "fun_ptr option"
  md_release :: "fun_ptr option"
  md_signal :: "fun_ptr option"

definition MAX_MODULE_TYPE :: nat where
  "MAX_MODULE_TYPE = 32"

record modules =
  md_count :: nat
  md_path :: string
  md_m :: "skynet_module list"

text \<open>The entries of the table before they are first written are indeterminate in C.\<close>

definition blank_module :: skynet_module where
  "blank_module = \<lparr>md_name = [], md_module = 0, md_create = None, md_init = None, md_release = None,
     md_signal = None\<rparr>"

subsection \<open>Loading\<close>

lemma drop_segment_less:
  "dropWhile (\<lambda>c. c = sep) path \<noteq> [] \<Longrightarrow>
     length (dropWhile (\<lambda>c. c \<noteq> sep) (dropWhile (\<lambda>c. c = sep) path)) < length path"
  by (induction path) (auto simp: less_Suc_eq_le length_dropWhile_le split: if_splits)

text \<open>The loop of \<open>_try_open\<close>. A pattern without \<open>?\<close> ends the process.\<close>

function try_path :: "(string \<Rightarrow> dl_ptr option) \<Rightarrow> string \<Rightarrow> string \<Rightarrow> dl_ptr option option" where
  "try_path dlopen path nm =
     (let path1 = dropWhile (\<lambda>c. c = CHR '';'') path;
          seg = takeWhile (\<lambda>c. c \<noteq> CHR '';'') path1;
          rest = dropWhile (\<lambda>c. c \<noteq> CHR '';'') path1;
          i = length (takeWhile (\<lambda>c. c \<noteq> CHR ''?'') seg)
      in if path1 = [] then Some None
         else if i = length seg then None
         else case dlopen (take i seg @ nm @ drop (i + 1) seg) of
                Some dl \<Rightarrow> Some (Some dl)
              | None \<Rightarrow> try_path dlopen rest nm)"
  by pat_completeness auto
termination
  by (relation "measure (\<lambda>(dlopen, path, nm). length path)") (simp_all add: drop_segment_less del: dropWhile_eq_Nil_conv)

declare try_path.simps [simp del]

definition try_open :: "(string \<Rightarrow> dl_ptr option) \<Rightarrow> modules \<Rightarrow> string \<Rightarrow> dl_ptr option option" where
  "try_open dlopen M nm = try_path dlopen (md_path M) nm"

text \<open>The search of \<open>_query\<close> through the first \<open>count\<close> entries.\<close>

fun query_from :: "modules \<Rightarrow> string \<Rightarrow> nat \<Rightarrow> nat \<Rightarrow> nat option" where
  "query_from M nm i 0 = None"
| "query_from M nm i (Suc n) =
     (if strcmp (md_name (md_m M ! i)) nm = 0 then Some i else query_from M nm (Suc i) n)"

definition module_query :: "modules \<Rightarrow> string \<Rightarrow> nat option" where
  "module_query M nm = query_from M nm 0 (md_count M)"

definition open_sym :: "(dl_ptr \<Rightarrow> string \<Rightarrow> fun_ptr option) \<Rightarrow> skynet_module \<Rightarrow> bool \<times> skynet_module" where
  "open_sym dlsym mod' =
     (let sym = (\<lambda>suffix. dlsym (md_module mod') (md_name mod' @ suffix));
          mod'' = mod'\<lparr>md_create := sym ''_create'', md_init := sym ''_init'',
                      md_release := sym ''_release'', md_signal := sym ''_signal''\<rparr>
      in (md_init mod'' = None, mod''))"

definition skynet_module_query ::
  "(string \<Rightarrow> dl_ptr option) \<Rightarrow> (dl_ptr \<Rightarrow> string \<Rightarrow> fun_ptr option) \<Rightarrow> string \<Rightarrow> modules
     \<Rightarrow> (nat option \<times> modules) option" where
  "skynet_module_query dlopen dlsym nm M =
     (case module_query M nm of
        Some result \<Rightarrow> Some (Some result, M)
      | None \<Rightarrow>
          (if md_count M < MAX_MODULE_TYPE then do {
             dl \<leftarrow> try_open dlopen M nm;
             case dl of
               None \<Rightarrow> Some (None, M)
             | Some d \<Rightarrow>
                 (let (failed, e) = open_sym dlsym ((md_m M ! md_count M)\<lparr>md_name := nm, md_module := d\<rparr>);
                      M1 = M\<lparr>md_m := (md_m M)[md_count M := e]\<rparr>
                  in if failed then Some (None, M1)
                     else Some (Some (md_count M), M1\<lparr>md_count := md_count M + 1\<rparr>)) }
           else Some (None, M)))"

definition skynet_module_insert :: "skynet_module \<Rightarrow> modules \<Rightarrow> modules option" where
  "skynet_module_insert mod' M =
     (if module_query M (md_name mod') = None \<and> md_count M < MAX_MODULE_TYPE
      then Some (M\<lparr>md_m := (md_m M)[md_count M := mod'], md_count := md_count M + 1\<rparr>)
      else None)"

definition skynet_module_init :: "string \<Rightarrow> modules" where
  "skynet_module_init path = \<lparr>md_count = 0, md_path = path, md_m = replicate MAX_MODULE_TYPE blank_module\<rparr>"

subsection \<open>The environment\<close>

type_synonym env = "string \<rightharpoonup> string"

definition skynet_getenv :: "env \<Rightarrow> string \<Rightarrow> string option" where
  "skynet_getenv E key = E key"

definition skynet_setenv :: "string \<Rightarrow> string \<Rightarrow> env \<Rightarrow> env option" where
  "skynet_setenv key v E = (if E key = None then Some (E(key \<mapsto> v)) else None)"

definition skynet_env_init :: env where
  "skynet_env_init = Map.empty"

subsection \<open>The table of modules\<close>

text \<open>The invariant: the used entries have distinct names and an \<open>init\<close> function.\<close>

definition modules_ok :: "modules \<Rightarrow> bool" where
  "modules_ok M \<longleftrightarrow> md_count M \<le> MAX_MODULE_TYPE \<and> length (md_m M) = MAX_MODULE_TYPE
     \<and> distinct (map md_name (take (md_count M) (md_m M)))
     \<and> (\<forall>i < md_count M. md_init (md_m M ! i) \<noteq> None)"

lemma modules_init_ok [simp]: "modules_ok (skynet_module_init path)"
  by (simp add: modules_ok_def skynet_module_init_def)

lemma query_from_Some:
  "query_from M nm i n = Some j \<Longrightarrow> i \<le> j \<and> j < i + n \<and> md_name (md_m M ! j) = nm"
  by (induction M nm i n rule: query_from.induct) (auto split: if_splits)

lemma query_from_None:
  "query_from M nm i n = None \<longleftrightarrow> (\<forall>j. i \<le> j \<and> j < i + n \<longrightarrow> md_name (md_m M ! j) \<noteq> nm)"
proof (induction M nm i n rule: query_from.induct)
  case (2 M nm i n)
  have "i \<le> j \<and> j < i + Suc n \<longleftrightarrow> j = i \<or> Suc i \<le> j \<and> j < Suc i + n" for j by auto
  with 2 show ?case by auto
qed auto

lemma module_query_Some:
  "module_query M nm = Some j \<Longrightarrow> j < md_count M \<and> md_name (md_m M ! j) = nm"
  using query_from_Some [of M nm 0 "md_count M" j] by (simp add: module_query_def)

lemma module_query_None: "module_query M nm = None \<longleftrightarrow> (\<forall>j < md_count M. md_name (md_m M ! j) \<noteq> nm)"
  by (simp add: module_query_def query_from_None)

lemma module_query_unique:
  assumes "modules_ok M" "j < md_count M" "md_name (md_m M ! j) = nm"
  shows "module_query M nm = Some j"
proof -
  have "module_query M nm \<noteq> None" using assms by (auto simp: module_query_None)
  then obtain k where k: "module_query M nm = Some k" by auto
  have "distinct (map md_name (take (md_count M) (md_m M)))" "length (take (md_count M) (md_m M)) = md_count M"
    using assms by (auto simp: modules_ok_def)
  then have "k = j"
    using module_query_Some [OF k] assms nth_eq_iff_index_eq [of "map md_name (take (md_count M) (md_m M))" k j] by simp
  with k show ?thesis by simp
qed

text \<open>\<open>M'\<close> has all modules of \<open>M\<close> in place.\<close>

definition modules_le :: "modules \<Rightarrow> modules \<Rightarrow> bool" where
  "modules_le M M' \<longleftrightarrow> md_count M \<le> md_count M' \<and> (\<forall>i < md_count M. md_m M' ! i = md_m M ! i)"

lemma modules_le_refl [simp]: "modules_le M M"
  by (simp add: modules_le_def)

lemma modules_le_trans: "modules_le M M' \<Longrightarrow> modules_le M' M'' \<Longrightarrow> modules_le M M''"
  by (auto simp: modules_le_def)

lemma modules_ok_add:
  assumes ok: "modules_ok M" and room: "md_count M < MAX_MODULE_TYPE" and new: "module_query M (md_name e) = None"
    and init: "md_init e \<noteq> None"
  shows "modules_ok (M\<lparr>md_m := (md_m M)[md_count M := e], md_count := Suc (md_count M)\<rparr>)"
proof -
  have len: "md_count M < length (md_m M)" using ok room by (simp add: modules_ok_def)
  then have "take (Suc (md_count M)) ((md_m M)[md_count M := e]) = take (md_count M) (md_m M) @ [e]"
    by (simp add: take_Suc_conv_app_nth)
  moreover have "md_name e \<notin> set (map md_name (take (md_count M) (md_m M)))"
    using new len unfolding module_query_None by (auto simp: in_set_conv_nth) metis
  ultimately show ?thesis
    using ok room init by (auto simp: modules_ok_def less_Suc_eq nth_list_update)
qed

lemma modules_add_le: "modules_le M (M\<lparr>md_m := (md_m M)[md_count M := e], md_count := Suc (md_count M)\<rparr>)"
  by (simp add: modules_le_def)

lemma open_sym_ok:
  "open_sym dlsym e = (failed, e') \<Longrightarrow> md_name e' = md_name e \<and> (failed \<longleftrightarrow> md_init e' = None)"
  by (auto simp: open_sym_def Let_def)

lemma skynet_module_query_spec:
  assumes ok: "modules_ok M" and q: "skynet_module_query dlopen dlsym nm M = Some (r, M')"
  shows "modules_ok M' \<and> modules_le M M' \<and> (\<forall>j. r = Some j \<longrightarrow> j < md_count M' \<and> md_name (md_m M' ! j) = nm)"
proof (cases "module_query M nm")
  case (Some j)
  with q module_query_Some [OF Some] ok show ?thesis by (auto simp: skynet_module_query_def)
next
  case None
  show ?thesis
  proof (cases "\<exists>d. md_count M < MAX_MODULE_TYPE \<and> try_open dlopen M nm = Some (Some d)")
    case True
    then obtain d where d: "md_count M < MAX_MODULE_TYPE" "try_open dlopen M nm = Some (Some d)" by auto
    obtain failed e where e: "open_sym dlsym ((md_m M ! md_count M)\<lparr>md_name := nm, md_module := d\<rparr>) = (failed, e)"
      by fastforce
    with q None d have M': "M' = (if failed then M\<lparr>md_m := (md_m M)[md_count M := e]\<rparr>
         else M\<lparr>md_m := (md_m M)[md_count M := e], md_count := Suc (md_count M)\<rparr>)"
      "r = (if failed then None else Some (md_count M))"
      by (auto simp: skynet_module_query_def Let_def)
    have nm: "md_name e = nm" "failed \<longleftrightarrow> md_init e = None" using open_sym_ok [OF e] by simp_all
    show ?thesis
    proof (cases failed)
      case True
      then show ?thesis using M' ok d by (auto simp: modules_ok_def modules_le_def)
    next
      case False
      then show ?thesis
        using M' ok d nm None modules_ok_add [OF ok d(1), of e] modules_add_le [of M e]
        by (auto simp: modules_ok_def)
    qed
  qed (use q None ok in \<open>auto simp: skynet_module_query_def bind_Some_iff split: if_splits option.splits\<close>)
qed

text \<open>A sequence of queries, with the results in order.\<close>

fun query_all :: "(string \<Rightarrow> dl_ptr option) \<Rightarrow> (dl_ptr \<Rightarrow> string \<Rightarrow> fun_ptr option) \<Rightarrow> string list \<Rightarrow> modules
    \<Rightarrow> (nat option list \<times> modules) option" where
  "query_all dlopen dlsym [] M = Some ([], M)"
| "query_all dlopen dlsym (nm # nms) M = do {
     (r, M1) \<leftarrow> skynet_module_query dlopen dlsym nm M;
     (rs, M2) \<leftarrow> query_all dlopen dlsym nms M1;
     Some (r # rs, M2) }"

lemma query_all_spec:
  assumes "modules_ok M" "query_all dlopen dlsym nms M = Some (rs, M')"
  shows "modules_ok M' \<and> modules_le M M'
    \<and> (\<forall>k < length nms. \<forall>j. rs ! k = Some j \<longrightarrow> j < md_count M' \<and> md_name (md_m M' ! j) = nms ! k)
    \<and> length rs = length nms"
  using assms
proof (induction nms arbitrary: M rs)
  case (Cons nm nms)
  from Cons.prems(2) obtain r M1 rs1 where r: "skynet_module_query dlopen dlsym nm M = Some (r, M1)"
    "query_all dlopen dlsym nms M1 = Some (rs1, M')" "rs = r # rs1"
    by (auto simp: bind_Some_iff)
  note first = skynet_module_query_spec [OF Cons.prems(1) r(1)]
  with Cons.IH [OF _ r(2)] have later: "modules_ok M' \<and> modules_le M1 M'
    \<and> (\<forall>k < length nms. \<forall>j. rs1 ! k = Some j \<longrightarrow> j < md_count M' \<and> md_name (md_m M' ! j) = nms ! k)
    \<and> length rs1 = length nms" by blast
  have "j < md_count M' \<and> md_name (md_m M' ! j) = nm" if "r = Some j" for j
    using first later that by (auto simp: modules_le_def)
  with first later r(3) show ?case
    by (auto simp: less_Suc_eq_0_disj intro: modules_le_trans)
qed simp

text \<open>C22. Modules are loaded once: in any sequence of queries that starts with an empty
  table, two queries for the same name that succeed return the same entry, queries for
  different names different ones, a name that was found once is found without loading it
  again, and there are never more than 32 modules, each with an \<open>init\<close> function.\<close>

theorem module_query_once:
  assumes "query_all dlopen dlsym nms (skynet_module_init path) = Some (rs, M)"
    and "i < length nms" "k < length nms" "rs ! i = Some a" "rs ! k = Some b"
  shows "(a = b \<longleftrightarrow> nms ! i = nms ! k) \<and> skynet_module_query dlopen' dlsym' (nms ! i) M = Some (Some a, M)
    \<and> md_count M \<le> 32 \<and> md_init (md_m M ! a) \<noteq> None"
proof -
  have spec: "modules_ok M" "a < md_count M" "md_name (md_m M ! a) = nms ! i"
    "b < md_count M" "md_name (md_m M ! b) = nms ! k"
    using query_all_spec [OF modules_init_ok assms(1)] assms(2-5) by blast+
  then have "module_query M (nms ! i) = Some a" "module_query M (nms ! k) = Some b"
    by (auto intro: module_query_unique)
  with spec show ?thesis
    by (auto simp: skynet_module_query_def modules_ok_def MAX_MODULE_TYPE_def)
qed

theorem module_query_once_witness:
  "skynet_module_query (\<lambda>f. None) (\<lambda>d s. None) ''gate''
     (snd (the (query_all (\<lambda>f. if f = ''./cservice/gate.so'' then Some 7 else None)
        (\<lambda>d s. if s = ''gate_init'' then Some 9 else None) [''gate'', ''x'', ''gate'']
        (skynet_module_init ''./?.so;./cservice/?.so''))))
     = Some (Some 0, snd (the (query_all (\<lambda>f. if f = ''./cservice/gate.so'' then Some 7 else None)
        (\<lambda>d s. if s = ''gate_init'' then Some 9 else None) [''gate'', ''x'', ''gate'']
        (skynet_module_init ''./?.so;./cservice/?.so''))))"
proof -
  let ?q = "query_all (\<lambda>f. if f = ''./cservice/gate.so'' then Some 7 else None)
        (\<lambda>d s. if s = ''gate_init'' then Some 9 else None) [''gate'', ''x'', ''gate'']
        (skynet_module_init ''./?.so;./cservice/?.so'')"
  have "fst (the ?q) = [Some 0, None, Some 0]" "?q \<noteq> None" by code_simp+
  then have "?q = Some ([Some 0, None, Some 0], snd (the ?q))" by (metis option.collapse prod.collapse)
  from module_query_once [OF this, of 0 2 0 0] show ?thesis by simp
qed

end
