(* ===== verification/Node.thy ===== *)
theory Node
  imports Mq Handle Timer Module
begin

section \<open>Services of a node (\<open>skynet_server.c\<close>, \<open>skynet_harbor.c\<close>, \<open>skynet_error.c\<close>)\<close>

text \<open>
  A node is the handle table, the contexts of its services, their message queues, and the
  global variables of the C files. Contexts and queues live in heaps (partial maps from
  pointers), so that a read through a freed pointer is \<open>None\<close>. The code of the services is
  a parameter: a \<open>services\<close> record gives the meaning of the function pointers of modules
  and callbacks as functions on nodes. A C function that may call service code therefore
  takes this record. Freed message buffers leave no trace, because a buffer is modelled by
  its content.
\<close>

subsection \<open>State\<close>

type_synonym inst_ptr = u64
type_synonym file_ptr = nat

record skynet_context =
  cx_instance :: inst_ptr
  cx_mod :: nat
  cx_cb_ud :: u64
  cx_cb :: "fun_ptr option"
  cx_queue :: mq_ptr
  cx_logfile :: "file_ptr option"
  cx_result :: string
  cx_handle :: u32
  cx_session_id :: int
  cx_ref :: int
  cx_init :: bool
  cx_endless :: bool

text \<open>\<open>brk\<close> is the allocator: pointers below it may be in use. \<open>files\<close> are the open
  streams with the text written to them, and \<open>handle_key\<close> is the thread-specific value of
  the running thread.\<close>

record node =
  hs :: handle_storage
  ctxs :: "ctx_ptr \<rightharpoonup> skynet_context"
  mqst :: mq_state
  total :: int
  monitor_exit :: u32
  handle_key :: u32
  REMOTE :: "ctx_ptr option"
  HARBOR :: u32
  logger :: u32
  nd_env :: env
  nd_modules :: modules
  nd_timer :: timer
  files :: "file_ptr \<rightharpoonup> string"
  brk :: nat

text \<open>The code that the node calls: the entry points of the modules, the callbacks of the
  services, the loader, whether a log file can be opened, the text of a time, and the
  bytes of a structure in memory.\<close>

record services =
  sv_create :: "fun_ptr \<Rightarrow> node \<Rightarrow> (inst_ptr \<times> node) option"
  sv_init :: "fun_ptr \<Rightarrow> inst_ptr \<Rightarrow> ctx_ptr \<Rightarrow> string option \<Rightarrow> node \<Rightarrow> (int \<times> node) option"
  sv_release :: "fun_ptr \<Rightarrow> inst_ptr \<Rightarrow> node \<Rightarrow> node option"
  sv_signal :: "fun_ptr \<Rightarrow> inst_ptr \<Rightarrow> int \<Rightarrow> node \<Rightarrow> node option"
  sv_cb :: "fun_ptr \<Rightarrow> ctx_ptr \<Rightarrow> u64 \<Rightarrow> int \<Rightarrow> int \<Rightarrow> u32 \<Rightarrow> payload option \<Rightarrow> u64 \<Rightarrow> node \<Rightarrow> (int \<times> node) option"
  sv_dlopen :: "string \<Rightarrow> dl_ptr option"
  sv_dlsym :: "dl_ptr \<Rightarrow> string \<Rightarrow> fun_ptr option"
  sv_fopen :: "string \<Rightarrow> bool"
  sv_ctime :: "int \<Rightarrow> string"
  sv_bytes :: "payload \<Rightarrow> byte list"

definition PTYPE_TEXT :: u32 where "PTYPE_TEXT = 0"
definition PTYPE_CLIENT :: u32 where "PTYPE_CLIENT = 3"
definition PTYPE_SYSTEM :: u32 where "PTYPE_SYSTEM = 4"
definition PTYPE_HARBOR :: u32 where "PTYPE_HARBOR = 5"
definition PTYPE_SOCKET :: u32 where "PTYPE_SOCKET = 6"
definition PTYPE_ERROR :: u32 where "PTYPE_ERROR = 7"
definition PTYPE_TAG_DONTCOPY :: u32 where "PTYPE_TAG_DONTCOPY = 0x10000"
definition PTYPE_TAG_ALLOCSESSION :: u32 where "PTYPE_TAG_ALLOCSESSION = 0x20000"

definition GLOBALNAME_LENGTH :: nat where
  "GLOBALNAME_LENGTH = 16"

text \<open>The bytes of a C string.\<close>

definition cbytes :: "string \<Rightarrow> byte list" where
  "cbytes s = map of_char s"

text \<open>The handle stored in a context, for the code of the handle table.\<close>

definition context_handle :: "node \<Rightarrow> ctx_ptr \<Rightarrow> u32" where
  "context_handle n c = (case ctxs n c of Some cx \<Rightarrow> cx_handle cx | None \<Rightarrow> 0)"

definition skynet_context_handle :: "ctx_ptr \<Rightarrow> node \<Rightarrow> u32 option" where
  "skynet_context_handle c n = map_option cx_handle (ctxs n c)"

subsection \<open>Contexts and their references\<close>

definition context_inc :: "node \<Rightarrow> node" where
  "context_inc n = n\<lparr>total := total n + 1\<rparr>"

definition context_dec :: "node \<Rightarrow> node" where
  "context_dec n = n\<lparr>total := total n - 1\<rparr>"

definition skynet_context_total :: "node \<Rightarrow> int" where
  "skynet_context_total n = total n"

definition skynet_current_handle :: "node \<Rightarrow> u32" where
  "skynet_current_handle n = handle_key n"

text \<open>The increment wraps around at the width of an \<open>int\<close>, which is what the test for a
  session that is not positive is there for.\<close>

definition skynet_context_newsession :: "ctx_ptr \<Rightarrow> node \<Rightarrow> (int \<times> node) option" where
  "skynet_context_newsession c n = do {
     cx \<leftarrow> ctxs n c;
     let session = signed_take_bit 31 (cx_session_id cx + 1);
     let session = (if session \<le> 0 then 1 else session);
     Some (session, n\<lparr>ctxs := (ctxs n)(c \<mapsto> cx\<lparr>cx_session_id := session\<rparr>)\<rparr>) }"

definition skynet_context_grab :: "ctx_ptr \<Rightarrow> node \<Rightarrow> node option" where
  "skynet_context_grab c n = do {
     cx \<leftarrow> ctxs n c;
     Some (n\<lparr>ctxs := (ctxs n)(c \<mapsto> cx\<lparr>cx_ref := cx_ref cx + 1\<rparr>)\<rparr>) }"

definition skynet_context_reserve :: "ctx_ptr \<Rightarrow> node \<Rightarrow> node option" where
  "skynet_context_reserve c n = do {
     n1 \<leftarrow> skynet_context_grab c n;
     Some (context_dec n1) }"

definition fclose :: "file_ptr \<Rightarrow> node \<Rightarrow> node option" where
  "fclose f n = (if files n f = None then None else Some (n\<lparr>files := (files n)(f := None)\<rparr>))"

definition skynet_module_instance_create :: "services \<Rightarrow> nat \<Rightarrow> node \<Rightarrow> (inst_ptr \<times> node) option" where
  "skynet_module_instance_create sv m n =
     (case md_create (md_m (nd_modules n) ! m) of
        Some f \<Rightarrow> sv_create sv f n
      | None \<Rightarrow> Some (- 1, n))"

definition skynet_module_instance_init ::
  "services \<Rightarrow> nat \<Rightarrow> inst_ptr \<Rightarrow> ctx_ptr \<Rightarrow> string option \<Rightarrow> node \<Rightarrow> (int \<times> node) option" where
  "skynet_module_instance_init sv m inst c parm n = do {
     f \<leftarrow> md_init (md_m (nd_modules n) ! m);
     sv_init sv f inst c parm n }"

definition skynet_module_instance_release :: "services \<Rightarrow> nat \<Rightarrow> inst_ptr \<Rightarrow> node \<Rightarrow> node option" where
  "skynet_module_instance_release sv m inst n =
     (case md_release (md_m (nd_modules n) ! m) of
        Some f \<Rightarrow> sv_release sv f inst n
      | None \<Rightarrow> Some n)"

definition skynet_module_instance_signal :: "services \<Rightarrow> nat \<Rightarrow> inst_ptr \<Rightarrow> int \<Rightarrow> node \<Rightarrow> node option" where
  "skynet_module_instance_signal sv m inst signal n =
     (case md_signal (md_m (nd_modules n) ! m) of
        Some f \<Rightarrow> sv_signal sv f inst signal n
      | None \<Rightarrow> Some n)"

definition delete_context :: "services \<Rightarrow> ctx_ptr \<Rightarrow> node \<Rightarrow> node option" where
  "delete_context sv c n = do {
     cx \<leftarrow> ctxs n c;
     n1 \<leftarrow> (case cx_logfile cx of Some f \<Rightarrow> fclose f n | None \<Rightarrow> Some n);
     n2 \<leftarrow> skynet_module_instance_release sv (cx_mod cx) (cx_instance cx) n1;
     cx2 \<leftarrow> ctxs n2 c;
     s \<leftarrow> skynet_mq_mark_release (cx_queue cx2) (mqst n2);
     Some (context_dec (n2\<lparr>mqst := s, ctxs := (ctxs n2)(c := None)\<rparr>)) }"

definition skynet_context_release :: "services \<Rightarrow> ctx_ptr \<Rightarrow> node \<Rightarrow> (ctx_ptr option \<times> node) option" where
  "skynet_context_release sv c n = do {
     cx \<leftarrow> ctxs n c;
     let ref = cx_ref cx - 1;
     let n1 = n\<lparr>ctxs := (ctxs n)(c \<mapsto> cx\<lparr>cx_ref := ref\<rparr>)\<rparr>;
     if ref = 0 then do { n2 \<leftarrow> delete_context sv c n1; Some (None, n2) }
     else Some (Some c, n1) }"

definition skynet_handle_grab :: "u32 \<Rightarrow> node \<Rightarrow> (ctx_ptr option \<times> node) option" where
  "skynet_handle_grab handle n =
     (case handle_lookup (context_handle n) (hs n) handle of
        Some c \<Rightarrow> do { n1 \<leftarrow> skynet_context_grab c n; Some (Some c, n1) }
      | None \<Rightarrow> Some (None, n))"

definition skynet_handle_retire :: "services \<Rightarrow> u32 \<Rightarrow> node \<Rightarrow> (int \<times> node) option" where
  "skynet_handle_retire sv handle n =
     (let (c, h) = retire_table (context_handle n) handle (hs n); n1 = n\<lparr>hs := h\<rparr>
      in case c of
           Some c \<Rightarrow> do { (r, n2) \<leftarrow> skynet_context_release sv c n1; Some (1, n2) }
         | None \<Rightarrow> Some (0, n1))"

text \<open>One pass of \<open>skynet_handle_retireall\<close> over the table, from index \<open>i\<close>, counting
  the retired handles in \<open>k\<close>, and the outer loop. Both read the table anew in each
  round.\<close>

partial_function (option) retire_pass :: "services \<Rightarrow> nat \<Rightarrow> nat \<Rightarrow> node \<Rightarrow> (nat \<times> node) option" where
  "retire_pass sv i k n =
     (if i < slot_size (hs n) then
        (let handle = (case slot (hs n) ! i of Some c \<Rightarrow> context_handle n c | None \<Rightarrow> 0)
         in if handle \<noteq> 0
            then Option.bind (skynet_handle_retire sv handle n)
              (\<lambda>(r, n1). retire_pass sv (i + 1) (if r \<noteq> 0 then k + 1 else k) n1)
            else retire_pass sv (i + 1) k n)
      else Some (k, n))"

partial_function (option) skynet_handle_retireall :: "services \<Rightarrow> node \<Rightarrow> node option" where
  "skynet_handle_retireall sv n =
     Option.bind (retire_pass sv 0 0 n)
       (\<lambda>(k, n1). if k = 0 then Some n1 else skynet_handle_retireall sv n1)"

subsection \<open>Messages\<close>

definition skynet_context_push :: "services \<Rightarrow> u32 \<Rightarrow> skynet_message \<Rightarrow> node \<Rightarrow> (int \<times> node) option" where
  "skynet_context_push sv handle message n = do {
     (ctx, n1) \<leftarrow> skynet_handle_grab handle n;
     case ctx of
       None \<Rightarrow> Some (- 1, n1)
     | Some c \<Rightarrow> do {
         cx \<leftarrow> ctxs n1 c;
         s \<leftarrow> skynet_mq_push (cx_queue cx) message (mqst n1);
         (r, n2) \<leftarrow> skynet_context_release sv c (n1\<lparr>mqst := s\<rparr>);
         Some (0, n2) } }"

definition skynet_context_send ::
  "ctx_ptr \<Rightarrow> payload option \<Rightarrow> u64 \<Rightarrow> u32 \<Rightarrow> u32 \<Rightarrow> int \<Rightarrow> node \<Rightarrow> node option" where
  "skynet_context_send c msg len src type ses n = do {
     cx \<leftarrow> ctxs n c;
     let smsg = \<lparr>source = src, session = ses, data = msg, sz = len OR push_bit MESSAGE_TYPE_SHIFT (ucast type)\<rparr>;
     s \<leftarrow> skynet_mq_push (cx_queue cx) smsg (mqst n);
     Some (n\<lparr>mqst := s\<rparr>) }"

text \<open>\<open>text\<close> is the formatted message, which the code copies to a buffer that is large
  enough for it and its terminator. The cached handle of the logger is part of the node.\<close>

definition skynet_error :: "services \<Rightarrow> ctx_ptr option \<Rightarrow> string \<Rightarrow> node \<Rightarrow> node option" where
  "skynet_error sv context text n =
     (let lg = (if logger n = 0 then skynet_handle_findname (hs n) ''logger'' else logger n);
          n1 = n\<lparr>logger := lg\<rparr>
      in if lg = 0 then Some n1
         else do {
           src \<leftarrow> (case context of None \<Rightarrow> Some 0 | Some c \<Rightarrow> skynet_context_handle c n1);
           (r, n2) \<leftarrow> skynet_context_push sv lg
             \<lparr>source = src, session = 0, data = Some (Bytes (cbytes text @ [0])),
              sz = of_nat (length text) OR push_bit MESSAGE_TYPE_SHIFT (ucast PTYPE_TEXT)\<rparr> n1;
           Some n2 })"

subsection \<open>Other nodes\<close>

definition skynet_harbor_message_isremote :: "node \<Rightarrow> u32 \<Rightarrow> bool option" where
  "skynet_harbor_message_isremote n handle =
     (if HARBOR n = - 1 then None
      else (let h = handle AND NOT HANDLE_MASK in Some (h \<noteq> HARBOR n \<and> h \<noteq> 0)))"

definition skynet_isremote :: "u32 \<Rightarrow> node \<Rightarrow> (bool \<times> u32) option" where
  "skynet_isremote handle n = do {
     r \<leftarrow> skynet_harbor_message_isremote n handle;
     Some (r, drop_bit HANDLE_REMOTE_SHIFT handle) }"

definition REMOTE_MESSAGE_SIZE :: u64 where
  "REMOTE_MESSAGE_SIZE = 40"

definition SOCKET_MESSAGE_SIZE :: u64 where
  "SOCKET_MESSAGE_SIZE = 24"

definition skynet_harbor_send ::
  "string \<Rightarrow> u32 \<Rightarrow> payload option \<Rightarrow> u64 \<Rightarrow> u32 \<Rightarrow> int \<Rightarrow> node \<Rightarrow> node option" where
  "skynet_harbor_send dest_name dest_handle msg len src ses n =
     (let type = (ucast (drop_bit MESSAGE_TYPE_SHIFT len) :: u32)
      in if type = PTYPE_SYSTEM \<or> type = PTYPE_HARBOR then None
         else do {
           remote \<leftarrow> REMOTE n;
           skynet_context_send remote
             (Some (Remote_message dest_name dest_handle msg (len AND MESSAGE_TYPE_MASK)))
             REMOTE_MESSAGE_SIZE src type ses n })"

definition skynet_harbor_init :: "int \<Rightarrow> node \<Rightarrow> node" where
  "skynet_harbor_init harb n = n\<lparr>HARBOR := push_bit HANDLE_REMOTE_SHIFT (word_of_int harb)\<rparr>"

definition skynet_harbor_start :: "ctx_ptr \<Rightarrow> node \<Rightarrow> node option" where
  "skynet_harbor_start c n = do {
     n1 \<leftarrow> skynet_context_reserve c n;
     Some (n1\<lparr>REMOTE := Some c\<rparr>) }"

definition skynet_harbor_exit :: "services \<Rightarrow> node \<Rightarrow> node option" where
  "skynet_harbor_exit sv n =
     (let n1 = n\<lparr>REMOTE := None\<rparr>
      in case REMOTE n of
           None \<Rightarrow> Some n1
         | Some c \<Rightarrow> do { (r, n2) \<leftarrow> skynet_context_release sv c n1; Some n2 })"

text \<open>The name of a remote service is a field of 16 characters, padded with zeros; the
  model keeps the characters before the padding.\<close>

definition copy_name :: "string \<Rightarrow> string" where
  "copy_name addr = take GLOBALNAME_LENGTH addr"

subsection \<open>Sending\<close>

text \<open>Copying a message reads \<open>sz\<close> bytes, which must be there, and adds a zero byte.\<close>

fun copy_data :: "payload \<Rightarrow> u64 \<Rightarrow> payload option" where
  "copy_data (Bytes b) len = (if unat len \<le> length b then Some (Bytes (take (unat len) b @ [0])) else None)"
| "copy_data (Remote_message nm h m s) len =
     (if len = REMOTE_MESSAGE_SIZE then Some (Remote_message nm h m s) else None)"
| "copy_data (Socket_message ty i ud buf pad) len =
     (if SOCKET_MESSAGE_SIZE \<le> len \<and> unat (len - SOCKET_MESSAGE_SIZE) \<le> length pad
      then Some (Socket_message ty i ud buf (take (unat (len - SOCKET_MESSAGE_SIZE)) pad @ [0])) else None)"

definition filter_args ::
  "ctx_ptr option \<Rightarrow> u32 \<Rightarrow> int \<Rightarrow> payload option \<Rightarrow> u64 \<Rightarrow> node
     \<Rightarrow> ((int \<times> payload option \<times> u64) \<times> node) option" where
  "filter_args context type ses msg len n =
     (let needcopy = (type AND PTYPE_TAG_DONTCOPY = 0);
          allocsession = (type AND PTYPE_TAG_ALLOCSESSION \<noteq> 0);
          type1 = type AND 0xff
      in do {
           (ses1, n1) \<leftarrow> (if allocsession then
                (if ses = 0 then Option.bind context (\<lambda>c. skynet_context_newsession c n) else None)
              else Some (ses, n));
           msg1 \<leftarrow> (case msg of
                Some d \<Rightarrow> (if needcopy then map_option Some (copy_data d len) else Some (Some d))
              | None \<Rightarrow> Some None);
           Some ((ses1, msg1, len OR push_bit MESSAGE_TYPE_SHIFT (ucast type1)), n1) })"

definition skynet_send ::
  "services \<Rightarrow> ctx_ptr option \<Rightarrow> u32 \<Rightarrow> u32 \<Rightarrow> u32 \<Rightarrow> int \<Rightarrow> payload option \<Rightarrow> u64 \<Rightarrow> node \<Rightarrow> (int \<times> node) option" where
  "skynet_send sv context src destination type ses msg len n =
     (if len AND MESSAGE_TYPE_MASK \<noteq> len then do {
        n1 \<leftarrow> skynet_error sv context (''The message to '' @ print_hex destination @ '' is too large'') n;
        Some (- 1, n1) }
      else do {
        ((ses1, msg1, len1), n1) \<leftarrow> filter_args context type ses msg len n;
        src1 \<leftarrow> (if src = 0 then Option.bind context (\<lambda>c. skynet_context_handle c n1) else Some src);
        if destination = 0 then Some (ses1, n1)
        else do {
          remote \<leftarrow> skynet_harbor_message_isremote n1 destination;
          if remote then do {
            n2 \<leftarrow> skynet_harbor_send [] destination msg1 len1 src1 ses1 n1;
            Some (ses1, n2) }
          else do {
            (r, n2) \<leftarrow> skynet_context_push sv destination
              \<lparr>source = src1, session = ses1, data = msg1, sz = len1\<rparr> n1;
            Some (if r \<noteq> 0 then - 1 else ses1, n2) } } })"

definition skynet_sendname ::
  "services \<Rightarrow> ctx_ptr option \<Rightarrow> u32 \<Rightarrow> string \<Rightarrow> u32 \<Rightarrow> int \<Rightarrow> payload option \<Rightarrow> u64 \<Rightarrow> node \<Rightarrow> (int \<times> node) option" where
  "skynet_sendname sv context src addr type ses msg len n = do {
     src1 \<leftarrow> (if src = 0 then Option.bind context (\<lambda>c. skynet_context_handle c n) else Some src);
     case addr of
       CHR '':'' # ds \<Rightarrow> skynet_send sv context src1 (ucast (strtoul 16 ds)) type ses msg len n
     | CHR ''.'' # nm \<Rightarrow>
         (let des = skynet_handle_findname (hs n) nm
          in if des = 0 then Some (- 1, n)
             else skynet_send sv context src1 des type ses msg len n)
     | _ \<Rightarrow> do {
         ((ses1, msg1, len1), n1) \<leftarrow> filter_args context type ses msg len n;
         n2 \<leftarrow> skynet_harbor_send (copy_name addr) 0 msg1 len1 src1 ses1 n1;
         Some (ses1, n2) } }"

definition skynet_queryname :: "services \<Rightarrow> ctx_ptr option \<Rightarrow> string \<Rightarrow> node \<Rightarrow> (u32 \<times> node) option" where
  "skynet_queryname sv context nm n =
     (case nm of
        CHR '':'' # ds \<Rightarrow> Some (ucast (strtoul 16 ds), n)
      | CHR ''.'' # s \<Rightarrow> Some (skynet_handle_findname (hs n) s, n)
      | _ \<Rightarrow> do {
          n1 \<leftarrow> skynet_error sv context (''Don'' @ [CHR 0x27] @ ''t support query global name '' @ nm) n;
          Some (0, n1) })"

definition skynet_callback :: "ctx_ptr \<Rightarrow> u64 \<Rightarrow> fun_ptr option \<Rightarrow> node \<Rightarrow> node option" where
  "skynet_callback c ud cb n = do {
     cx \<leftarrow> ctxs n c;
     Some (n\<lparr>ctxs := (ctxs n)(c \<mapsto> cx\<lparr>cx_cb := cb, cx_cb_ud := ud\<rparr>)\<rparr>) }"

definition skynet_context_endless :: "services \<Rightarrow> u32 \<Rightarrow> node \<Rightarrow> node option" where
  "skynet_context_endless sv handle n = do {
     (ctx, n1) \<leftarrow> skynet_handle_grab handle n;
     case ctx of
       None \<Rightarrow> Some n1
     | Some c \<Rightarrow> do {
         cx \<leftarrow> ctxs n1 c;
         (r, n2) \<leftarrow> skynet_context_release sv c (n1\<lparr>ctxs := (ctxs n1)(c \<mapsto> cx\<lparr>cx_endless := True\<rparr>)\<rparr>);
         Some n2 } }"

subsection \<open>Dropping a queue\<close>

definition drop_message :: "services \<Rightarrow> u32 \<Rightarrow> skynet_message \<Rightarrow> node \<Rightarrow> node option" where
  "drop_message sv handle msg n =
     (if handle = 0 then None
      else map_option snd (skynet_send sv None handle (source msg) PTYPE_ERROR 0 None 0 n))"

text \<open>\<open>skynet_mq_pop\<close> on the queue at a pointer.\<close>

definition mq_pop_at :: "mq_ptr \<Rightarrow> node \<Rightarrow> (skynet_message option \<times> node) option" where
  "mq_pop_at p n = do {
     q \<leftarrow> mqs (mqst n) p;
     let (m, q1) = skynet_mq_pop q;
     Some (m, n\<lparr>mqst := (mqst n)\<lparr>mqs := (mqs (mqst n))(p \<mapsto> q1)\<rparr>\<rparr>) }"

partial_function (option) drop_queue :: "services \<Rightarrow> u32 \<Rightarrow> mq_ptr \<Rightarrow> node \<Rightarrow> node option" where
  "drop_queue sv handle p n =
     Option.bind (mq_pop_at p n)
       (\<lambda>(m, n1). case m of
            Some msg \<Rightarrow> Option.bind (drop_message sv handle msg n1) (drop_queue sv handle p)
          | None \<Rightarrow> Option.bind (mq_free p (mqst n1)) (\<lambda>s. Some (n1\<lparr>mqst := s\<rparr>)))"

definition skynet_mq_release :: "services \<Rightarrow> u32 \<Rightarrow> mq_ptr \<Rightarrow> node \<Rightarrow> node option" where
  "skynet_mq_release sv handle p n = do {
     q \<leftarrow> mqs (mqst n) p;
     if mq_release q then drop_queue sv handle p n
     else do { s \<leftarrow> skynet_globalmq_push p (mqst n); Some (n\<lparr>mqst := s\<rparr>) } }"

subsection \<open>New services\<close>

text \<open>The field \<open>queue\<close> is not written before the context is registered.\<close>

definition new_context :: "nat \<Rightarrow> inst_ptr \<Rightarrow> skynet_context" where
  "new_context m inst = \<lparr>cx_instance = inst, cx_mod = m, cx_cb_ud = 0, cx_cb = None, cx_queue = 0,
     cx_logfile = None, cx_result = [], cx_handle = 0, cx_session_id = 0, cx_ref = 2, cx_init = False,
     cx_endless = False\<rparr>"

text \<open>The first half of \<open>skynet_context_new\<close>: the context, its handle and its queue.\<close>

definition context_create :: "nat \<Rightarrow> inst_ptr \<Rightarrow> node \<Rightarrow> (ctx_ptr \<times> node) option" where
  "context_create m inst n =
     (let c = brk n; p = Suc (brk n);
          n1 = n\<lparr>brk := brk n + 2, ctxs := (ctxs n)(c \<mapsto> new_context m inst)\<rparr>
      in do {
           (handle, h) \<leftarrow> skynet_handle_register (context_handle n1) c (hs n1);
           Some (c, context_inc (n1\<lparr>hs := h,
             ctxs := (ctxs n1)(c \<mapsto> (new_context m inst)\<lparr>cx_handle := handle, cx_queue := p\<rparr>),
             mqst := skynet_mq_create p handle (mqst n1)\<rparr>)) })"

text \<open>The two ends of \<open>skynet_context_new\<close>, after the \<open>init\<close> function of the module.\<close>

definition launch_done ::
  "services \<Rightarrow> string \<Rightarrow> string option \<Rightarrow> ctx_ptr \<Rightarrow> mq_ptr \<Rightarrow> node \<Rightarrow> (ctx_ptr option \<times> node) option" where
  "launch_done sv nm param c queue n = do {
     (ret, n1) \<leftarrow> skynet_context_release sv c n;
     n2 \<leftarrow> (case ret of
         Some c \<Rightarrow> map_option (\<lambda>cx. n1\<lparr>ctxs := (ctxs n1)(c \<mapsto> cx\<lparr>cx_init := True\<rparr>)\<rparr>) (ctxs n1 c)
       | None \<Rightarrow> Some n1);
     s \<leftarrow> skynet_globalmq_push queue (mqst n2);
     let n3 = n2\<lparr>mqst := s\<rparr>;
     n4 \<leftarrow> (case ret of
         Some c \<Rightarrow> skynet_error sv ret (''LAUNCH '' @ nm @ '' '' @ (case param of Some s \<Rightarrow> s | None \<Rightarrow> [])) n3
       | None \<Rightarrow> Some n3);
     Some (ret, n4) }"

definition launch_failed ::
  "services \<Rightarrow> string \<Rightarrow> ctx_ptr \<Rightarrow> mq_ptr \<Rightarrow> node \<Rightarrow> (ctx_ptr option \<times> node) option" where
  "launch_failed sv nm c queue n = do {
     n1 \<leftarrow> skynet_error sv (Some c) (''FAILED launch '' @ nm) n;
     handle \<leftarrow> skynet_context_handle c n1;
     (r1, n2) \<leftarrow> skynet_context_release sv c n1;
     (r2, n3) \<leftarrow> skynet_handle_retire sv handle n2;
     n4 \<leftarrow> skynet_mq_release sv handle queue n3;
     Some (None, n4) }"

definition skynet_context_new ::
  "services \<Rightarrow> string \<Rightarrow> string option \<Rightarrow> node \<Rightarrow> (ctx_ptr option \<times> node) option" where
  "skynet_context_new sv nm param n = do {
     (m, M) \<leftarrow> skynet_module_query (sv_dlopen sv) (sv_dlsym sv) nm (nd_modules n);
     let n0 = n\<lparr>nd_modules := M\<rparr>;
     case m of
       None \<Rightarrow> Some (None, n0)
     | Some m \<Rightarrow> do {
         (inst, n1) \<leftarrow> skynet_module_instance_create sv m n0;
         if inst = 0 then Some (None, n1)
         else do {
           (c, n2) \<leftarrow> context_create m inst n1;
           queue \<leftarrow> map_option cx_queue (ctxs n2 c);
           (r, n3) \<leftarrow> skynet_module_instance_init sv m inst c param n2;
           if r = 0 then launch_done sv nm param c queue n3 else launch_failed sv nm c queue n3 } } }"

subsection \<open>Starting a node\<close>

definition THREAD_WORKER :: int where "THREAD_WORKER = 0"
definition THREAD_MAIN :: int where "THREAD_MAIN = 1"
definition THREAD_SOCKET :: int where "THREAD_SOCKET = 2"
definition THREAD_TIMER :: int where "THREAD_TIMER = 3"
definition THREAD_MONITOR :: int where "THREAD_MONITOR = 4"

definition skynet_initthread :: "int \<Rightarrow> node \<Rightarrow> node" where
  "skynet_initthread m n = n\<lparr>handle_key := word_of_int (- m)\<rparr>"

definition skynet_globalinit :: "node \<Rightarrow> node" where
  "skynet_globalinit n = skynet_initthread THREAD_MAIN (n\<lparr>total := 0, monitor_exit := 0\<rparr>)"

text \<open>The node when \<open>skynet_start\<close> has initialised its parts, before the first service:
  \<open>E\<close> is the environment that \<open>main\<close> has read, \<open>path\<close> the search path of the modules and
  \<open>T\<close> the timer. The static variables of the C files start as zero.\<close>

definition node_start :: "int \<Rightarrow> string \<Rightarrow> env \<Rightarrow> timer \<Rightarrow> node" where
  "node_start harb path E T = skynet_harbor_init harb (skynet_globalinit
     \<lparr>hs = skynet_handle_init harb, ctxs = Map.empty, mqst = skynet_mq_init, total = 0, monitor_exit = 0,
      handle_key = 0, REMOTE = None, HARBOR = 0, logger = 0, nd_env = E, nd_modules = skynet_module_init path,
      nd_timer = T, files = Map.empty, brk = 1\<rparr>)"

end
