(* ===== verification/Node_Inv.thy ===== *)
theory Node_Inv
  imports Node
begin

section \<open>The invariant of a node\<close>

text \<open>
  What the C code keeps true between its data structures: every context has as many
  references as the table and the running functions hold, no structure points to a freed
  context or queue, a queue is marked for release exactly when its context is gone, and a
  queue that has something to do is either in the global queue or in the hands of one
  running function, never both. The operations of the theory \<open>Node\<close> keep this, whatever the
  services do, as long as the services keep it too.
\<close>

subsection \<open>Definitions\<close>

text \<open>The ghost state: the references that running functions hold, the queues they have
  taken from the global queue (or just created), and the contexts under deletion.\<close>

record ghost =
  held :: "ctx_ptr \<Rightarrow> nat"
  owned :: "mq_ptr set"
  dying :: "ctx_ptr set"

definition queue_at :: "node \<Rightarrow> mq_ptr \<rightharpoonup> message_queue" where
  "queue_at n = mq_view (mqst n)"

definition remote_handle :: "node \<Rightarrow> u32 \<Rightarrow> bool" where
  "remote_handle n h \<longleftrightarrow> h AND NOT HANDLE_MASK \<noteq> HARBOR n \<and> h AND NOT HANDLE_MASK \<noteq> 0"

definition table_ok :: "node \<Rightarrow> bool" where
  "table_ok n \<longleftrightarrow> slots_ok (context_handle n) (hs n) \<and> names_ok (hs n) \<and> registered (hs n) \<subseteq> dom (ctxs n)
     \<and> harbor (hs n) = HARBOR n
     \<and> (\<forall>c cx. ctxs n c = Some cx \<longrightarrow> cx_handle cx AND NOT HANDLE_MASK = HARBOR n)"

text \<open>The references that do not belong to a running function: the table and the harbor.\<close>

definition fixed_refs :: "node \<Rightarrow> ctx_ptr \<Rightarrow> nat" where
  "fixed_refs n c = (if c \<in> registered (hs n) then 1 else 0) + (if REMOTE n = Some c then 1 else 0)"

definition refs_ok :: "ghost \<Rightarrow> node \<Rightarrow> bool" where
  "refs_ok G n \<longleftrightarrow> (\<forall>c. case ctxs n c of
       None \<Rightarrow> held G c = 0 \<and> c \<notin> dying G
     | Some cx \<Rightarrow> cx_ref cx = int (held G c + fixed_refs n c) \<and> (held G c + fixed_refs n c = 0 \<longleftrightarrow> c \<in> dying G))"

definition links_ok :: "node \<Rightarrow> bool" where
  "links_ok n \<longleftrightarrow>
     (\<forall>c cx. ctxs n c = Some cx \<longrightarrow>
        (\<exists>q. queue_at n (cx_queue cx) = Some q \<and> \<not> mq_release q \<and> mq_handle q = cx_handle cx))
     \<and> (\<forall>c cx d dx. ctxs n c = Some cx \<longrightarrow> ctxs n d = Some dx \<longrightarrow> cx_queue cx = cx_queue dx \<longrightarrow> c = d)
     \<and> (\<forall>p q. queue_at n p = Some q \<longrightarrow> mq_inv q \<and> mq_handle q \<noteq> 0 \<and> mq_handle q AND NOT HANDLE_MASK = HARBOR n
          \<and> (mq_release q \<or> (\<exists>c cx. ctxs n c = Some cx \<and> cx_queue cx = p)))"

text \<open>A context that a worker may dispatch to, or that no worker can find.\<close>

definition ready :: "node \<Rightarrow> ctx_ptr \<Rightarrow> skynet_context \<Rightarrow> bool" where
  "ready n c cx \<longleftrightarrow> cx_init cx \<or> c \<notin> registered (hs n)"

definition sched_ok :: "ghost \<Rightarrow> mq_ptr list \<Rightarrow> node \<Rightarrow> bool" where
  "sched_ok G ps n \<longleftrightarrow> gq_rep (mqst n) ps \<and> set ps \<inter> owned G = {} \<and> owned G \<subseteq> dom (queue_at n)
     \<and> (\<forall>p q. queue_at n p = Some q \<longrightarrow>
          (mq_in_global q \<or> mq_release q \<longleftrightarrow> p \<in> set ps \<union> owned G)
          \<and> (mq_contents q \<noteq> [] \<longrightarrow> mq_in_global q \<or> mq_release q))
     \<and> (\<forall>c cx. ctxs n c = Some cx \<longrightarrow> ready n c cx \<or> cx_queue cx \<in> owned G)"

definition files_ok :: "ghost \<Rightarrow> node \<Rightarrow> bool" where
  "files_ok G n \<longleftrightarrow>
     (\<forall>c cx f. ctxs n c = Some cx \<longrightarrow> cx_logfile cx = Some f \<longrightarrow> c \<notin> dying G \<longrightarrow> files n f \<noteq> None
        \<and> (\<forall>d dx. ctxs n d = Some dx \<longrightarrow> cx_logfile dx = Some f \<longrightarrow> d \<notin> dying G \<longrightarrow> d = c))"

definition alloc_ok :: "node \<Rightarrow> bool" where
  "alloc_ok n \<longleftrightarrow> (\<forall>c \<in> dom (ctxs n). c < brk n) \<and> (\<forall>p \<in> dom (queue_at n). p < brk n)
     \<and> (\<forall>f \<in> dom (files n). f < brk n)"

definition remote_ok :: "node \<Rightarrow> bool" where
  "remote_ok n \<longleftrightarrow> (case REMOTE n of
       Some c \<Rightarrow> ctxs n c \<noteq> None
     | None \<Rightarrow> \<forall>p q m. queue_at n p = Some q \<longrightarrow> m \<in> set (mq_contents q) \<longrightarrow> \<not> remote_handle n (source m))"

definition node_ok :: "ghost \<Rightarrow> node \<Rightarrow> bool" where
  "node_ok G n \<longleftrightarrow> table_ok n \<and> refs_ok G n \<and> links_ok n \<and> (\<exists>ps. sched_ok G ps n) \<and> files_ok G n
     \<and> alloc_ok n \<and> remote_ok n \<and> modules_ok (nd_modules n)"

lemmas node_parts = table_ok_def refs_ok_def links_ok_def sched_ok_def files_ok_def alloc_ok_def remote_ok_def

text \<open>What a running function can rely on while other code runs: the contexts it holds stay
  allocated and keep what identifies them, its queues only grow at the end, no other
  context takes over one of its queues, and an initialised context stays initialised.\<close>

definition context_le :: "skynet_context \<Rightarrow> skynet_context \<Rightarrow> bool" where
  "context_le cx cx' \<longleftrightarrow> cx_handle cx' = cx_handle cx \<and> cx_queue cx' = cx_queue cx \<and> cx_mod cx' = cx_mod cx
     \<and> cx_instance cx' = cx_instance cx \<and> (cx_init cx \<longrightarrow> cx_init cx')"

definition queue_le :: "message_queue \<Rightarrow> message_queue \<Rightarrow> bool" where
  "queue_le q q' \<longleftrightarrow> mq_handle q' = mq_handle q \<and> (\<exists>ms. mq_contents q' = mq_contents q @ ms)
     \<and> (mq_release q \<longrightarrow> q' = q)"

definition node_le :: "ghost \<Rightarrow> node \<Rightarrow> node \<Rightarrow> bool" where
  "node_le G n n' \<longleftrightarrow>
     (\<forall>c cx. ctxs n c = Some cx \<longrightarrow> 0 < held G c \<or> c \<in> dying G \<longrightarrow> (\<exists>cx'. ctxs n' c = Some cx' \<and> context_le cx cx'))
     \<and> (\<forall>p \<in> owned G. \<forall>q. queue_at n p = Some q \<longrightarrow> (\<exists>q'. queue_at n' p = Some q' \<and> queue_le q q'))
     \<and> (\<forall>p \<in> owned G. \<forall>d dx. queue_at n p \<noteq> None \<longrightarrow> ctxs n' d = Some dx \<longrightarrow> cx_queue dx = p \<longrightarrow>
          (\<exists>dx0. ctxs n d = Some dx0 \<and> cx_queue dx0 = p \<and> (cx_init dx0 \<longrightarrow> cx_init dx)) \<and> (d \<in> registered (hs n') \<longrightarrow> d \<in> registered (hs n)))
     \<and> HARBOR n' = HARBOR n \<and> (REMOTE n \<noteq> None \<longrightarrow> REMOTE n' \<noteq> None) \<and> modules_le (nd_modules n) (nd_modules n')
     \<and> brk n \<le> brk n'"

definition keeps :: "ghost \<Rightarrow> node \<Rightarrow> node option \<Rightarrow> bool" where
  "keeps G n r \<longleftrightarrow> (\<exists>n'. r = Some n' \<and> node_ok G n' \<and> node_le G n n')"

text \<open>The hypothesis on the service code: called in a good state, it returns and leaves a good
  state. An entry point that gets a context gets one that its caller holds.\<close>

definition well_behaved :: "services \<Rightarrow> bool" where
  "well_behaved sv \<longleftrightarrow>
     (\<forall>G n f. node_ok G n \<longrightarrow> keeps G n (map_option snd (sv_create sv f n)))
     \<and> (\<forall>G n f inst c parm. node_ok G n \<longrightarrow> 0 < held G c \<longrightarrow> keeps G n (map_option snd (sv_init sv f inst c parm n)))
     \<and> (\<forall>G n f inst. node_ok G n \<longrightarrow> keeps G n (sv_release sv f inst n))
     \<and> (\<forall>G n f inst k. node_ok G n \<longrightarrow> keeps G n (sv_signal sv f inst k n))
     \<and> (\<forall>G n f c ud ty ses src msg len. node_ok G n \<longrightarrow> 0 < held G c \<longrightarrow>
          keeps G n (map_option snd (sv_cb sv f c ud ty ses src msg len n)))"

subsection \<open>Order\<close>

lemma context_le_refl [simp]: "context_le cx cx"
  by (simp add: context_le_def)

lemma context_le_trans: "context_le a b \<Longrightarrow> context_le b c \<Longrightarrow> context_le a c"
  by (auto simp: context_le_def)

lemma queue_le_refl [simp]: "queue_le q q"
  by (simp add: queue_le_def)

lemma queue_le_trans: "queue_le a b \<Longrightarrow> queue_le b c \<Longrightarrow> queue_le a c"
  by (auto simp: queue_le_def)

lemma node_le_refl [simp]: "node_le G n n"
  by (simp add: node_le_def)

lemma node_le_ctx:
  "node_le G n n' \<Longrightarrow> ctxs n c = Some cx \<Longrightarrow> 0 < held G c \<or> c \<in> dying G \<Longrightarrow>
     \<exists>cx'. ctxs n' c = Some cx' \<and> context_le cx cx'"
  unfolding node_le_def by blast

lemma node_le_queue:
  "node_le G n n' \<Longrightarrow> p \<in> owned G \<Longrightarrow> queue_at n p = Some q \<Longrightarrow>
     \<exists>q'. queue_at n' p = Some q' \<and> queue_le q q'"
  unfolding node_le_def by blast

lemma node_le_owner:
  "node_le G n n' \<Longrightarrow> p \<in> owned G \<Longrightarrow> queue_at n p \<noteq> None \<Longrightarrow> ctxs n' d = Some dx \<Longrightarrow> cx_queue dx = p \<Longrightarrow>
     (\<exists>dx0. ctxs n d = Some dx0 \<and> cx_queue dx0 = p \<and> (cx_init dx0 \<longrightarrow> cx_init dx)) \<and> (d \<in> registered (hs n') \<longrightarrow> d \<in> registered (hs n))"
  unfolding node_le_def by blast

lemma node_le_globals:
  "node_le G n n' \<Longrightarrow> HARBOR n' = HARBOR n \<and> (REMOTE n \<noteq> None \<longrightarrow> REMOTE n' \<noteq> None)
     \<and> modules_le (nd_modules n) (nd_modules n') \<and> brk n \<le> brk n'"
  unfolding node_le_def by blast

lemma node_leI:
  assumes "\<And>c cx. ctxs n c = Some cx \<Longrightarrow> 0 < held G c \<or> c \<in> dying G \<Longrightarrow>
      \<exists>cx'. ctxs n' c = Some cx' \<and> context_le cx cx'"
    and "\<And>p q. p \<in> owned G \<Longrightarrow> queue_at n p = Some q \<Longrightarrow> \<exists>q'. queue_at n' p = Some q' \<and> queue_le q q'"
    and "\<And>p d dx. p \<in> owned G \<Longrightarrow> queue_at n p \<noteq> None \<Longrightarrow> ctxs n' d = Some dx \<Longrightarrow> cx_queue dx = p \<Longrightarrow>
     (\<exists>dx0. ctxs n d = Some dx0 \<and> cx_queue dx0 = p \<and> (cx_init dx0 \<longrightarrow> cx_init dx)) \<and> (d \<in> registered (hs n') \<longrightarrow> d \<in> registered (hs n))"
    and "HARBOR n' = HARBOR n \<and> (REMOTE n \<noteq> None \<longrightarrow> REMOTE n' \<noteq> None)
     \<and> modules_le (nd_modules n) (nd_modules n') \<and> brk n \<le> brk n'"
  shows "node_le G n n'"
  unfolding node_le_def using assms by blast

lemma node_le_trans:
  assumes ab: "node_le G a b" and bc: "node_le G b c"
  shows "node_le G a c"
proof (rule node_leI)
  fix d cx assume d: "ctxs a d = Some cx" "0 < held G d \<or> d \<in> dying G"
  from node_le_ctx [OF ab d] node_le_ctx [OF bc _ d(2)] context_le_trans
  show "\<exists>cx'. ctxs c d = Some cx' \<and> context_le cx cx'" by blast
next
  fix p q assume p: "p \<in> owned G" "queue_at a p = Some q"
  from node_le_queue [OF ab p] node_le_queue [OF bc p(1)] queue_le_trans
  show "\<exists>q'. queue_at c p = Some q' \<and> queue_le q q'" by blast
next
  fix p d dx assume p: "p \<in> owned G" "queue_at a p \<noteq> None" and d: "ctxs c d = Some dx" "cx_queue dx = p"
  have "queue_at b p \<noteq> None" using node_le_queue [OF ab p(1)] p(2) by fastforce
  from node_le_owner [OF bc p(1) this d] node_le_owner [OF ab p]
  show "(\<exists>dx0. ctxs a d = Some dx0 \<and> cx_queue dx0 = p \<and> (cx_init dx0 \<longrightarrow> cx_init dx)) \<and> (d \<in> registered (hs c) \<longrightarrow> d \<in> registered (hs a))" by blast
qed (use node_le_globals [OF ab] node_le_globals [OF bc] modules_le_trans in auto)

lemma node_le_mono:
  assumes le: "node_le G' a b"
    and "\<And>c. 0 < held G c \<or> c \<in> dying G \<Longrightarrow> 0 < held G' c \<or> c \<in> dying G'" "owned G \<subseteq> owned G'"
  shows "node_le G a b"
proof (rule node_leI)
  show "\<exists>cx'. ctxs b c = Some cx' \<and> context_le cx cx'" if "ctxs a c = Some cx" "0 < held G c \<or> c \<in> dying G" for c cx
    using node_le_ctx [OF le that(1) assms(2) [OF that(2)]] .
  show "(\<exists>dx0. ctxs a d = Some dx0 \<and> cx_queue dx0 = p \<and> (cx_init dx0 \<longrightarrow> cx_init dx)) \<and> (d \<in> registered (hs b) \<longrightarrow> d \<in> registered (hs a))"
    if "p \<in> owned G" "queue_at a p \<noteq> None" "ctxs b d = Some dx" "cx_queue dx = p" for p d dx
    using node_le_owner [OF le subsetD [OF assms(3) that(1)] that(2-4)] .
qed (use assms(3) node_le_queue [OF le] node_le_globals [OF le] in auto)

lemma keepsI: "r = Some n' \<Longrightarrow> node_ok G n' \<Longrightarrow> node_le G n n' \<Longrightarrow> keeps G n r"
  by (auto simp: keeps_def)

lemma keeps_trans: "keeps G b r \<Longrightarrow> node_le G a b \<Longrightarrow> keeps G a r"
  by (auto simp: keeps_def intro: node_le_trans)

lemma keeps_same: "node_ok G n \<Longrightarrow> keeps G n (Some n)"
  by (simp add: keeps_def)

subsection \<open>Writing to a context\<close>

definition set_held :: "ctx_ptr \<Rightarrow> nat \<Rightarrow> ghost \<Rightarrow> ghost" where
  "set_held c k G = G\<lparr>held := (held G)(c := k)\<rparr>"

lemma set_held_fields [simp]:
  "held (set_held c k G) = (held G)(c := k)" "owned (set_held c k G) = owned G" "dying (set_held c k G) = dying G"
  by (simp_all add: set_held_def)

text \<open>The parts depend on the ghost state only through one field each.\<close>

lemma ghost_parts:
  "sched_ok (set_held c k G) ps n = sched_ok G ps n" "files_ok (set_held c k G) n = files_ok G n"
  by (simp_all only: sched_ok_def files_ok_def set_held_fields)

lemma set_held_set_held [simp]: "set_held c k (set_held c j G) = set_held c k G" "set_held c (held G c) G = G"
  by (simp_all add: set_held_def)

lemma node_okI:
  "table_ok n \<Longrightarrow> refs_ok G n \<Longrightarrow> links_ok n \<Longrightarrow> sched_ok G ps n \<Longrightarrow> files_ok G n \<Longrightarrow> alloc_ok n
     \<Longrightarrow> remote_ok n \<Longrightarrow> modules_ok (nd_modules n) \<Longrightarrow> node_ok G n"
  by (auto simp: node_ok_def)

lemma node_okE:
  assumes "node_ok G n"
  obtains ps where "table_ok n" "refs_ok G n" "links_ok n" "sched_ok G ps n" "files_ok G n" "alloc_ok n"
    "remote_ok n" "modules_ok (nd_modules n)"
  using assms by (auto simp: node_ok_def)

lemma node_ok_parts:
  assumes "node_ok G n"
  shows "table_ok n" "refs_ok G n" "links_ok n" "files_ok G n" "alloc_ok n" "remote_ok n" "modules_ok (nd_modules n)"
  using assms by (auto simp: node_ok_def)

lemma refs_cong:
  "ctxs n' = ctxs n \<Longrightarrow> fixed_refs n' = fixed_refs n \<Longrightarrow> held G' = held G \<Longrightarrow> dying G' = dying G \<Longrightarrow>
     refs_ok G' n' = refs_ok G n"
  by (simp only: refs_ok_def)

lemma table_cong:
  "ctxs n' = ctxs n \<Longrightarrow> hs n' = hs n \<Longrightarrow> HARBOR n' = HARBOR n \<Longrightarrow> table_ok n' = table_ok n"
  by (simp only: table_ok_def context_handle_def [abs_def])

lemma links_cong:
  "ctxs n' = ctxs n \<Longrightarrow> queue_at n' = queue_at n \<Longrightarrow> HARBOR n' = HARBOR n \<Longrightarrow> links_ok n' = links_ok n"
  by (simp only: links_ok_def)

lemma sched_cong:
  "ctxs n' = ctxs n \<Longrightarrow> mqst n' = mqst n \<Longrightarrow> hs n' = hs n \<Longrightarrow> owned G' = owned G \<Longrightarrow> sched_ok G' ps n' = sched_ok G ps n"
  by (simp only: sched_ok_def queue_at_def ready_def)

lemma remote_cong:
  "ctxs n' = ctxs n \<Longrightarrow> mqst n' = mqst n \<Longrightarrow> REMOTE n' = REMOTE n \<Longrightarrow> HARBOR n' = HARBOR n \<Longrightarrow>
     remote_ok n' = remote_ok n"
  by (simp only: remote_ok_def queue_at_def remote_handle_def)

lemma files_cong:
  "ctxs n' = ctxs n \<Longrightarrow> files n' = files n \<Longrightarrow> dying G' = dying G \<Longrightarrow> files_ok G' n' = files_ok G n"
  by (simp only: files_ok_def)

lemma remote_local:
  "remote_ok n \<Longrightarrow> REMOTE n = None \<Longrightarrow> queue_at n p = Some q \<Longrightarrow> m \<in> set (mq_contents q)
     \<Longrightarrow> \<not> remote_handle n (source m)"
  unfolding remote_ok_def by (simp only: option.case) blast

lemma remote_alive: "remote_ok n \<Longrightarrow> REMOTE n = Some c \<Longrightarrow> ctxs n c \<noteq> None"
  unfolding remote_ok_def by (simp only: option.case) blast

lemma remote_okI:
  assumes "\<And>c. REMOTE n = Some c \<Longrightarrow> ctxs n c \<noteq> None"
    and "\<And>p q m. REMOTE n = None \<Longrightarrow> queue_at n p = Some q \<Longrightarrow> m \<in> set (mq_contents q) \<Longrightarrow> \<not> remote_handle n (source m)"
  shows "remote_ok n"
  unfolding remote_ok_def using assms by (cases "REMOTE n") (simp_all only: option.case, blast+)

lemma files_okD:
  assumes "files_ok G n" "ctxs n c = Some cx" "cx_logfile cx = Some f" "c \<notin> dying G"
  shows "files n f \<noteq> None" "ctxs n d = Some dx \<Longrightarrow> cx_logfile dx = Some f \<Longrightarrow> d \<notin> dying G \<Longrightarrow> d = c"
  using assms unfolding files_ok_def by blast+

lemma refs_None: "refs_ok G n \<Longrightarrow> ctxs n c = None \<Longrightarrow> held G c = 0 \<and> c \<notin> dying G"
  unfolding refs_ok_def by (drule spec [of _ c]) simp

lemma refs_Some:
  "refs_ok G n \<Longrightarrow> ctxs n c = Some cx \<Longrightarrow>
     cx_ref cx = int (held G c + fixed_refs n c) \<and> (held G c + fixed_refs n c = 0 \<longleftrightarrow> c \<in> dying G)"
  unfolding refs_ok_def by (drule spec [of _ c]) auto

lemma refs_okI:
  assumes "\<And>c. ctxs n c = None \<Longrightarrow> held G c = 0 \<and> c \<notin> dying G"
    and "\<And>c cx. ctxs n c = Some cx \<Longrightarrow>
      cx_ref cx = int (held G c + fixed_refs n c) \<and> (held G c + fixed_refs n c = 0 \<longleftrightarrow> c \<in> dying G)"
  shows "refs_ok G n"
  unfolding refs_ok_def
proof
  fix c
  show "case ctxs n c of None \<Rightarrow> held G c = 0 \<and> c \<notin> dying G
     | Some cx \<Rightarrow> cx_ref cx = int (held G c + fixed_refs n c) \<and> (held G c + fixed_refs n c = 0 \<longleftrightarrow> c \<in> dying G)"
    using assms(1) [of c] assms(2) [of c] by (cases "ctxs n c") simp_all
qed

lemma links_queue:
  "links_ok n \<Longrightarrow> ctxs n c = Some cx \<Longrightarrow>
     \<exists>q. queue_at n (cx_queue cx) = Some q \<and> \<not> mq_release q \<and> mq_handle q = cx_handle cx"
  unfolding links_ok_def by blast

lemma links_inj:
  "links_ok n \<Longrightarrow> ctxs n c = Some cx \<Longrightarrow> ctxs n d = Some dx \<Longrightarrow> cx_queue cx = cx_queue dx \<Longrightarrow> c = d"
  unfolding links_ok_def by blast

lemma links_owner:
  "links_ok n \<Longrightarrow> queue_at n p = Some q \<Longrightarrow>
     mq_inv q \<and> mq_handle q \<noteq> 0 \<and> mq_handle q AND NOT HANDLE_MASK = HARBOR n \<and> (mq_release q \<or> (\<exists>c cx. ctxs n c = Some cx \<and> cx_queue cx = p))"
  unfolding links_ok_def by blast

lemma links_okI:
  assumes "\<And>c cx. ctxs n c = Some cx \<Longrightarrow>
      \<exists>q. queue_at n (cx_queue cx) = Some q \<and> \<not> mq_release q \<and> mq_handle q = cx_handle cx"
    and "\<And>c cx d dx. ctxs n c = Some cx \<Longrightarrow> ctxs n d = Some dx \<Longrightarrow> cx_queue cx = cx_queue dx \<Longrightarrow> c = d"
    and "\<And>p q. queue_at n p = Some q \<Longrightarrow>
      mq_inv q \<and> mq_handle q \<noteq> 0 \<and> mq_handle q AND NOT HANDLE_MASK = HARBOR n \<and> (mq_release q \<or> (\<exists>c cx. ctxs n c = Some cx \<and> cx_queue cx = p))"
  shows "links_ok n"
  unfolding links_ok_def using assms by blast

lemma sched_dom: "sched_ok G ps n \<Longrightarrow> set ps \<union> owned G \<subseteq> dom (queue_at n)"
  unfolding sched_ok_def using gq_rep_in_dom [of "mqst n" ps] by (auto simp: queue_at_def mq_view_def domIff)

lemma sched_iff:
  "sched_ok G ps n \<Longrightarrow> queue_at n p = Some q \<Longrightarrow> (mq_in_global q \<or> mq_release q \<longleftrightarrow> p \<in> set ps \<union> owned G)
     \<and> (mq_contents q \<noteq> [] \<longrightarrow> mq_in_global q \<or> mq_release q)"
  unfolding sched_ok_def by blast

lemma sched_init: "sched_ok G ps n \<Longrightarrow> ctxs n c = Some cx \<Longrightarrow> ready n c cx \<or> cx_queue cx \<in> owned G"
  unfolding sched_ok_def by blast

lemma sched_rep: "sched_ok G ps n \<Longrightarrow> gq_rep (mqst n) ps" "sched_ok G ps n \<Longrightarrow> set ps \<inter> owned G = {}"
  by (simp_all only: sched_ok_def)

lemma sched_okI:
  assumes "gq_rep (mqst n) ps" "set ps \<inter> owned G = {}" "owned G \<subseteq> dom (queue_at n)"
    and "\<And>p q. queue_at n p = Some q \<Longrightarrow> (mq_in_global q \<or> mq_release q \<longleftrightarrow> p \<in> set ps \<union> owned G)
     \<and> (mq_contents q \<noteq> [] \<longrightarrow> mq_in_global q \<or> mq_release q)"
    and "\<And>c cx. ctxs n c = Some cx \<Longrightarrow> ready n c cx \<or> cx_queue cx \<in> owned G"
  shows "sched_ok G ps n"
  unfolding sched_ok_def using assms by blast

abbreviation set_ctx :: "ctx_ptr \<Rightarrow> skynet_context \<Rightarrow> node \<Rightarrow> node" where
  "set_ctx c cx n \<equiv> n\<lparr>ctxs := (ctxs n)(c \<mapsto> cx)\<rparr>"

lemma context_handle_set_ctx:
  "ctxs n c = Some cx \<Longrightarrow> cx_handle cx' = cx_handle cx \<Longrightarrow> context_handle (set_ctx c cx' n) = context_handle n"
  by (auto simp: context_handle_def fun_eq_iff)

lemma queue_at_set_ctx [simp]: "queue_at (set_ctx c cx n) = queue_at n"
  by (simp add: queue_at_def)

lemma ready_set_ctx [simp]: "ready (set_ctx c cx n) d dx = ready n d dx"
  by (simp add: ready_def)

lemma set_ctx_parts:
  assumes c: "ctxs n c = Some cx" and le: "context_le cx cx'"
  shows "table_ok n \<Longrightarrow> table_ok (set_ctx c cx' n)" "links_ok n \<Longrightarrow> links_ok (set_ctx c cx' n)"
    "sched_ok G ps n \<Longrightarrow> sched_ok G ps (set_ctx c cx' n)"
    "alloc_ok n \<Longrightarrow> alloc_ok (set_ctx c cx' n)" "remote_ok n \<Longrightarrow> remote_ok (set_ctx c cx' n)"
proof -
  have same: "cx_handle cx' = cx_handle cx" "cx_queue cx' = cx_queue cx" "cx_init cx \<Longrightarrow> cx_init cx'"
    using le by (auto simp: context_le_def)
  have old: "\<exists>dx. ctxs n d = Some dx \<and> cx_queue dx = cx_queue dx' \<and> cx_handle dx = cx_handle dx'"
    if "ctxs (set_ctx c cx' n) d = Some dx'" for d dx'
    using that c same by (cases "d = c") auto
  show "table_ok n \<Longrightarrow> table_ok (set_ctx c cx' n)"
    using c same(1) by (auto simp: table_ok_def context_handle_set_ctx)
  show "links_ok n \<Longrightarrow> links_ok (set_ctx c cx' n)"
  proof -
    assume links: "links_ok n"
    have new: "\<exists>dx'. ctxs (set_ctx c cx' n) d = Some dx' \<and> cx_queue dx' = cx_queue dx" if "ctxs n d = Some dx" for d dx
      using that c same by (cases "d = c") auto
    show ?thesis
    proof (rule links_okI)
      fix d dx assume "ctxs (set_ctx c cx' n) d = Some dx"
      with old links_queue [OF links]
      show "\<exists>q. queue_at (set_ctx c cx' n) (cx_queue dx) = Some q \<and> \<not> mq_release q \<and> mq_handle q = cx_handle dx"
        by (metis queue_at_set_ctx)
    next
      fix d dx e ex assume "ctxs (set_ctx c cx' n) d = Some dx" "ctxs (set_ctx c cx' n) e = Some ex"
        "cx_queue dx = cx_queue ex"
      with old links_inj [OF links] show "d = e" by metis
    next
      have harb: "HARBOR (set_ctx c cx' n) = HARBOR n" by simp
      fix p q assume "queue_at (set_ctx c cx' n) p = Some q"
      with links_owner [OF links, of p q] new
      show "mq_inv q \<and> mq_handle q \<noteq> 0 \<and> mq_handle q AND NOT HANDLE_MASK = HARBOR (set_ctx c cx' n)
        \<and> (mq_release q \<or> (\<exists>d dx. ctxs (set_ctx c cx' n) d = Some dx \<and> cx_queue dx = p))"
        using harb unfolding queue_at_set_ctx by metis
    qed
  qed
  show "sched_ok G ps n \<Longrightarrow> sched_ok G ps (set_ctx c cx' n)"
  proof -
    assume ok: "sched_ok G ps n"
    show ?thesis
    proof (rule sched_okI)
      fix p q assume "queue_at (set_ctx c cx' n) p = Some q"
      with sched_iff [OF ok, of p q] show "(mq_in_global q \<or> mq_release q \<longleftrightarrow> p \<in> set ps \<union> owned G)
        \<and> (mq_contents q \<noteq> [] \<longrightarrow> mq_in_global q \<or> mq_release q)" by auto
    next
      fix d dx assume "ctxs (set_ctx c cx' n) d = Some dx"
      with sched_init [OF ok, of d] sched_init [OF ok c] same show "ready (set_ctx c cx' n) d dx \<or> cx_queue dx \<in> owned G"
        by (cases "d = c") (auto simp: ready_def)
    qed (use sched_rep [OF ok] sched_dom [OF ok] in auto)
  qed
  show "alloc_ok n \<Longrightarrow> alloc_ok (set_ctx c cx' n)"
    using c by (auto simp: alloc_ok_def)
  show "remote_ok n \<Longrightarrow> remote_ok (set_ctx c cx' n)"
    by (auto simp: remote_ok_def remote_handle_def split: option.splits)
qed

lemma set_ctx_files:
  assumes ok: "files_ok G n" and c: "ctxs n c = Some cx" and lf: "cx_logfile cx' = cx_logfile cx"
  shows "files_ok G (set_ctx c cx' n)"
  unfolding files_ok_def
proof (intro allI impI conjI)
  have old: "\<exists>dx0. ctxs n d = Some dx0 \<and> cx_logfile dx0 = cx_logfile dx" if "ctxs (set_ctx c cx' n) d = Some dx" for d dx
    using that c lf by (cases "d = c") auto
  fix d dx f assume d: "ctxs (set_ctx c cx' n) d = Some dx" "cx_logfile dx = Some f" "d \<notin> dying G"
  from old [OF d(1)] d(2) obtain dx0 where d0: "ctxs n d = Some dx0" "cx_logfile dx0 = Some f" by auto
  show "files (set_ctx c cx' n) f \<noteq> None" using files_okD(1) [OF ok d0 d(3)] by simp
  fix e ex assume e: "ctxs (set_ctx c cx' n) e = Some ex" "cx_logfile ex = Some f" "e \<notin> dying G"
  from old [OF e(1)] e(2) obtain ex0 where "ctxs n e = Some ex0" "cx_logfile ex0 = Some f" by auto
  from files_okD(2) [OF ok d0 d(3) this e(3)] show "e = d" .
qed

lemma set_ctx_le:
  "ctxs n c = Some cx \<Longrightarrow> context_le cx cx' \<Longrightarrow> node_le G n (set_ctx c cx' n)"
  by (rule node_leI) (auto simp: context_le_def split: if_splits)

lemma set_ctx_refs:
  assumes "ctxs n c = Some cx" "refs_ok G n" "cx_ref cx' = int (k + fixed_refs n c)" "0 < cx_ref cx'" "0 < cx_ref cx"
  shows "refs_ok (set_held c k G) (set_ctx c cx' n)"
proof (rule refs_okI)
  fix d assume "ctxs (set_ctx c cx' n) d = None"
  then show "held (set_held c k G) d = 0 \<and> d \<notin> dying (set_held c k G)"
    using refs_None [OF assms(2), of d] by (auto split: if_splits)
next
  fix d dx assume d: "ctxs (set_ctx c cx' n) d = Some dx"
  have "fixed_refs (set_ctx c cx' n) d = fixed_refs n d" by (simp add: fixed_refs_def)
  then show "cx_ref dx = int (held (set_held c k G) d + fixed_refs (set_ctx c cx' n) d)
      \<and> (held (set_held c k G) d + fixed_refs (set_ctx c cx' n) d = 0 \<longleftrightarrow> d \<in> dying (set_held c k G))"
    using refs_Some [OF assms(2), of d] refs_Some [OF assms(2,1)] assms d by (cases "d = c") auto
qed

text \<open>A running function changes the number of references it holds, or another field that
  the invariant does not mention.\<close>

lemma set_ctx_ok:
  assumes ok: "node_ok G n" and c: "ctxs n c = Some cx" and le: "context_le cx cx'"
    and lf: "cx_logfile cx' = cx_logfile cx"
    and ref: "cx_ref cx' = int (k + fixed_refs n c)" "0 < cx_ref cx'" "0 < cx_ref cx"
  shows "node_ok (set_held c k G) (set_ctx c cx' n)"
proof -
  from ok obtain ps where parts: "table_ok n" "refs_ok G n" "links_ok n" "sched_ok G ps n" "files_ok G n" "alloc_ok n"
    "remote_ok n" "modules_ok (nd_modules n)" by (rule node_okE)
  note upd = set_ctx_parts [OF c le]
  show ?thesis
    by (rule node_okI [OF upd(1) [OF parts(1)] set_ctx_refs [OF c parts(2) ref] upd(2) [OF parts(3)] _ _
          upd(4) [OF parts(6)] upd(5) [OF parts(7)]])
      (use upd(3) [OF parts(4)] set_ctx_files [OF parts(5) c lf] parts(8) in \<open>simp_all add: ghost_parts\<close>)
qed

subsection \<open>Writing to a queue\<close>

abbreviation set_mq :: "mq_state \<Rightarrow> node \<Rightarrow> node" where
  "set_mq s n \<equiv> n\<lparr>mqst := s\<rparr>"

lemma queue_at_set_mq [simp]: "queue_at (set_mq s n) = mq_view s"
  by (simp add: queue_at_def)

lemma ready_set_mq [simp]: "ready (set_mq s n) c cx = ready n c cx"
  by (simp add: ready_def)

lemma set_queue_links:
  assumes links: "links_ok n" and q: "queue_at n p = Some q" and view: "mq_view s' = (queue_at n)(p \<mapsto> q')"
    and q': "mq_handle q' = mq_handle q" "mq_inv q'" "mq_release q' = mq_release q"
  shows "links_ok (set_mq s' n)"
proof (rule links_okI)
  fix c cx assume "ctxs (set_mq s' n) c = Some cx"
  with links_queue [OF links, of c cx] q q'
  show "\<exists>r. queue_at (set_mq s' n) (cx_queue cx) = Some r \<and> \<not> mq_release r \<and> mq_handle r = cx_handle cx"
    by (auto simp: view)
next
  fix p' r assume "queue_at (set_mq s' n) p' = Some r"
  with links_owner [OF links, of p'] links_owner [OF links q] q'
  show "mq_inv r \<and> mq_handle r \<noteq> 0 \<and> mq_handle r AND NOT HANDLE_MASK = HARBOR (set_mq s' n)
      \<and> (mq_release r \<or> (\<exists>c cx. ctxs (set_mq s' n) c = Some cx \<and> cx_queue cx = p'))"
    by (auto simp: view split: if_splits)
qed (use links_inj [OF links] in simp)

lemma set_queue_sched:
  assumes sched: "sched_ok G ps n" and q: "queue_at n p = Some q"
    and view: "gq_rep s' ps'" "mq_view s' = (queue_at n)(p \<mapsto> q')"
    and ps': "set ps' \<subseteq> insert p (set ps)" "set ps' \<inter> B = {}"
      "set ps' \<union> B = (if mq_in_global q' \<or> mq_release q' then insert p (set ps \<union> owned G) else set ps \<union> owned G - {p})"
    and busy: "mq_contents q' \<noteq> [] \<Longrightarrow> mq_in_global q' \<or> mq_release q'"
    and init: "\<And>c cx. p \<notin> B \<Longrightarrow> ctxs n c = Some cx \<Longrightarrow> cx_queue cx = p \<Longrightarrow> ready n c cx"
  shows "sched_ok (G\<lparr>owned := B\<rparr>) ps' (set_mq s' n)"
proof -
  have mem: "p' \<in> set ps' \<union> B \<longleftrightarrow> (if p' = p then mq_in_global q' \<or> mq_release q' else p' \<in> set ps \<union> owned G)" for p'
    unfolding ps'(3) by simp
  have dom: "B \<subseteq> dom (mq_view s')"
  proof
    fix x assume "x \<in> B"
    then have "x = p \<or> x \<in> set ps \<union> owned G" using mem [of x] by (auto split: if_splits)
    then show "x \<in> dom (mq_view s')" using sched_dom [OF sched] q by (auto simp: view)
  qed
  have at: "(mq_in_global r \<or> mq_release r \<longleftrightarrow> p' \<in> set ps' \<union> B) \<and> (mq_contents r \<noteq> [] \<longrightarrow> mq_in_global r \<or> mq_release r)"
    if "mq_view s' p' = Some r" for p' r
    using that mem [of p'] sched_iff [OF sched, of p'] busy by (auto simp: view split: if_splits)
  have ready: "ready n c cx \<or> cx_queue cx \<in> B" if "ctxs n c = Some cx" for c cx
  proof (cases "cx_queue cx = p")
    case False
    with mem [of "cx_queue cx"] ps'(1) sched_rep(2) [OF sched] sched_init [OF sched that] show ?thesis by auto
  qed (use init [OF _ that] in blast)
  show ?thesis
  proof (rule sched_okI)
    fix p' r assume "queue_at (set_mq s' n) p' = Some r"
    with at [of p' r] show "(mq_in_global r \<or> mq_release r \<longleftrightarrow> p' \<in> set ps' \<union> owned (G\<lparr>owned := B\<rparr>))
      \<and> (mq_contents r \<noteq> [] \<longrightarrow> mq_in_global r \<or> mq_release r)" by auto
  qed (use dom ready view(1) ps'(2) in simp_all)
qed

lemma set_mq_ok:
  assumes ok: "node_ok G n" and parts: "links_ok (set_mq s n)" "sched_ok (G\<lparr>owned := B\<rparr>) ps (set_mq s n)"
    and dom: "dom (mq_view s) \<subseteq> dom (queue_at n)"
    and loc: "\<And>p q m. REMOTE n = None \<Longrightarrow> mq_view s p = Some q \<Longrightarrow> m \<in> set (mq_contents q) \<Longrightarrow> \<not> remote_handle n (source m)"
  shows "node_ok (G\<lparr>owned := B\<rparr>) (set_mq s n)"
proof -
  note p = node_ok_parts [OF ok]
  have "table_ok (set_mq s n)" using p(1) by (subst table_cong [of _ n]) simp_all
  moreover have "refs_ok (G\<lparr>owned := B\<rparr>) (set_mq s n)"
    using p(2) by (subst refs_cong [of _ n _ G]) (simp_all add: fixed_refs_def fun_eq_iff)
  moreover have "files_ok (G\<lparr>owned := B\<rparr>) (set_mq s n)" using p(4) by (subst files_cong [of _ n _ G]) simp_all
  moreover have "alloc_ok (set_mq s n)" using p(5) subsetD [OF dom] by (simp add: alloc_ok_def)
  moreover have "remote_ok (set_mq s n)"
    by (rule remote_okI) (use remote_alive [OF p(6)] loc in \<open>auto simp: remote_handle_def\<close>)
  moreover have "modules_ok (nd_modules (set_mq s n))" using p(7) by simp
  ultimately show ?thesis using parts by (blast intro: node_okI)
qed

lemma set_queue_ok:
  assumes ok: "node_ok G n" and sched: "sched_ok G ps n" and q: "queue_at n p = Some q"
    and view: "gq_rep s' ps'" "mq_view s' = (queue_at n)(p \<mapsto> q')"
    and q': "mq_handle q' = mq_handle q" "mq_inv q'" "mq_release q' = mq_release q"
    and ps': "set ps' \<subseteq> insert p (set ps)" "set ps' \<inter> B = {}"
      "set ps' \<union> B = (if mq_in_global q' \<or> mq_release q' then insert p (set ps \<union> owned G) else set ps \<union> owned G - {p})"
    and busy: "mq_contents q' \<noteq> [] \<Longrightarrow> mq_in_global q' \<or> mq_release q'"
    and init: "\<And>c cx. p \<notin> B \<Longrightarrow> ctxs n c = Some cx \<Longrightarrow> cx_queue cx = p \<Longrightarrow> ready n c cx"
    and loc: "\<And>m. REMOTE n = None \<Longrightarrow> m \<in> set (mq_contents q') \<Longrightarrow> m \<in> set (mq_contents q) \<or> \<not> remote_handle n (source m)"
  shows "node_ok (G\<lparr>owned := B\<rparr>) (set_mq s' n)"
proof -
  have dom: "dom (mq_view s') \<subseteq> dom (queue_at n)" using q by (auto simp: view(2))
  note p = node_ok_parts [OF ok]
  have loc': "\<not> remote_handle n (source m)" if "REMOTE n = None" "mq_view s' p' = Some r" "m \<in> set (mq_contents r)" for p' r m
    using that remote_local [OF p(6) that(1), of p' r m] remote_local [OF p(6) that(1) q, of m] loc [of m]
    by (cases "p' = p") (auto simp: view(2))
  have sched': "sched_ok (G\<lparr>owned := B\<rparr>) ps' (set_mq s' n)"
    using sched q view ps' busy init by (rule set_queue_sched)
  show ?thesis
    using ok set_queue_links [OF p(3) q view(2) q'] sched' dom loc' by (rule set_mq_ok)
qed

lemma set_queue_le:
  assumes "mq_view s' = (queue_at n)(p \<mapsto> q')" "\<And>q. p \<in> owned G \<Longrightarrow> queue_at n p = Some q \<Longrightarrow> queue_le q q'"
  shows "node_le G n (set_mq s' n)"
  by (rule node_leI) (use assms in auto)

subsection \<open>The steps on a queue, seen without the links\<close>

lemma mq_view_raw:
  assumes "mq_view s p = Some q"
  obtains r where "mqs s p = Some r" "q = r\<lparr>mq_next := None\<rparr>"
  using assms by (auto simp: mq_view_def)

lemma message_queue_swap:
  "q\<lparr>mq_next := x, mq_in_global := b\<rparr> = q\<lparr>mq_in_global := b, mq_next := x\<rparr>"
  "q\<lparr>mq_next := x, mq_release := b\<rparr> = q\<lparr>mq_release := b, mq_next := x\<rparr>"
  by (cases q, simp)+

lemma mq_enqueue_next: "mq_enqueue m (q\<lparr>mq_next := x\<rparr>) = (mq_enqueue m q)\<lparr>mq_next := x\<rparr>"
  by (simp add: mq_enqueue_def expand_queue_def Let_def)

lemma mq_pop_next:
  "skynet_mq_pop (q\<lparr>mq_next := x\<rparr>) = (fst (skynet_mq_pop q), (snd (skynet_mq_pop q))\<lparr>mq_next := x\<rparr>)"
  by (simp add: skynet_mq_pop_def Let_def split: prod.split)

lemma mq_push_view:
  assumes "gq_rep s ps" "mq_view s p = Some q" "\<not> mq_in_global q \<Longrightarrow> p \<notin> set ps"
  shows "\<exists>s'. skynet_mq_push p m s = Some s' \<and> gq_rep s' (if mq_in_global q then ps else ps @ [p])
    \<and> mq_view s' = (mq_view s)(p \<mapsto> (mq_enqueue m q)\<lparr>mq_in_global := True\<rparr>)"
proof -
  from assms(2) obtain r where r: "mqs s p = Some r" "q = r\<lparr>mq_next := None\<rparr>" by (rule mq_view_raw)
  with mq_push_rep [OF assms(1) r(1), of m] assms(3) show ?thesis
    by (simp add: mq_enqueue_next message_queue_swap split: if_split_asm)
qed

lemma mq_mark_release_view:
  assumes "gq_rep s ps" "mq_view s p = Some q" "\<not> mq_in_global q \<Longrightarrow> p \<notin> set ps" "\<not> mq_release q"
  shows "\<exists>s'. skynet_mq_mark_release p s = Some s' \<and> gq_rep s' (if mq_in_global q then ps else ps @ [p])
    \<and> mq_view s' = (mq_view s)(p \<mapsto> q\<lparr>mq_release := True\<rparr>)"
proof -
  from assms(2) obtain r where r: "mqs s p = Some r" "q = r\<lparr>mq_next := None\<rparr>" by (rule mq_view_raw)
  with mq_mark_release_rep [OF assms(1) r(1)] assms(3,4) show ?thesis
    by (simp add: message_queue_swap split: if_split_asm)
qed

lemma globalmq_push_view:
  assumes "gq_rep s ps" "mq_view s p = Some q" "p \<notin> set ps"
  shows "\<exists>s'. skynet_globalmq_push p s = Some s' \<and> gq_rep s' (ps @ [p]) \<and> mq_view s' = mq_view s"
proof -
  from assms(2) obtain r where "mqs s p = Some r" by (rule mq_view_raw)
  from globalmq_push_rep [OF assms(1) this assms(3)] show ?thesis .
qed

lemma mq_pop_fields:
  "mq_handle (snd (skynet_mq_pop q)) = mq_handle q" "mq_release (snd (skynet_mq_pop q)) = mq_release q"
  "mq_in_global (snd (skynet_mq_pop q)) = (fst (skynet_mq_pop q) \<noteq> None \<and> mq_in_global q)"
  "mq_next (snd (skynet_mq_pop q)) = mq_next q"
  by (simp_all add: skynet_mq_pop_def Let_def split: prod.split)

lemma mq_pop_view:
  assumes "gq_rep (mqst n) ps" "queue_at n p = Some q"
  shows "\<exists>s'. mq_pop_at p n = Some (fst (skynet_mq_pop q), set_mq s' n) \<and> gq_rep s' ps
    \<and> mq_view s' = (queue_at n)(p \<mapsto> snd (skynet_mq_pop q))"
proof -
  let ?s = "mqst n"
  from assms(2) obtain r where r: "mqs ?s p = Some r" "q = r\<lparr>mq_next := None\<rparr>"
    unfolding queue_at_def by (rule mq_view_raw)
  have "gq_rep (?s\<lparr>mqs := (mqs ?s)(p \<mapsto> snd (skynet_mq_pop r))\<rparr>) ps"
    by (rule gq_rep_upd_same_next [OF assms(1) r(1)]) (rule mq_pop_fields)
  then show ?thesis
    by (intro exI [of _ "?s\<lparr>mqs := (mqs ?s)(p \<mapsto> snd (skynet_mq_pop r))\<rparr>"])
      (use r in \<open>simp add: mq_pop_at_def mq_view_upd mq_pop_next case_prod_unfold Let_def queue_at_def\<close>)
qed

subsection \<open>References\<close>

lemma registered_live:
  assumes "node_ok G n" "c \<in> registered (hs n)"
  obtains cx where "ctxs n c = Some cx" "0 < cx_ref cx"
proof -
  from assms node_ok_parts(1) [OF assms(1)] obtain cx where cx: "ctxs n c = Some cx" by (auto simp: table_ok_def)
  moreover have "0 < fixed_refs n c" using assms(2) by (simp add: fixed_refs_def)
  with refs_Some [OF node_ok_parts(2) [OF assms(1)] cx] have "0 < cx_ref cx" by simp
  ultimately show ?thesis by (rule that)
qed

lemma held_live:
  assumes "node_ok G n" "0 < held G c"
  obtains cx where "ctxs n c = Some cx" "0 < cx_ref cx"
proof -
  from assms refs_None [OF node_ok_parts(2) [OF assms(1)], of c] obtain cx where cx: "ctxs n c = Some cx" by fastforce
  with refs_Some [OF node_ok_parts(2) [OF assms(1)] cx] assms(2) have "0 < cx_ref cx" by simp
  with cx show ?thesis by (rule that)
qed

lemma lookup_registered:
  "node_ok G n \<Longrightarrow> handle_lookup (context_handle n) (hs n) h = Some c \<Longrightarrow> c \<in> registered (hs n) \<and> context_handle n c = h"
  using slots_ok_lookup_iff [of "context_handle n" "hs n" h c] node_ok_parts(1) [of G n] by (simp add: table_ok_def)

lemma context_grab_ok:
  assumes "node_ok G n" "ctxs n c = Some cx" "0 < cx_ref cx"
  shows "skynet_context_grab c n = Some (set_ctx c (cx\<lparr>cx_ref := cx_ref cx + 1\<rparr>) n)
    \<and> node_ok (set_held c (Suc (held G c)) G) (set_ctx c (cx\<lparr>cx_ref := cx_ref cx + 1\<rparr>) n)"
proof -
  have "cx_ref cx + 1 = int (Suc (held G c) + fixed_refs n c)"
    using refs_Some [OF node_ok_parts(2) [OF assms(1)] assms(2)] by simp
  then have "node_ok (set_held c (Suc (held G c)) G) (set_ctx c (cx\<lparr>cx_ref := cx_ref cx + 1\<rparr>) n)"
    by (intro set_ctx_ok [OF assms(1,2)]) (use assms(3) in \<open>simp_all add: context_le_def\<close>)
  with assms(2) show ?thesis by (simp add: skynet_context_grab_def)
qed

text \<open>Giving back a reference that is not the last one.\<close>

lemma context_release_more:
  assumes "node_ok G n" "ctxs n c = Some cx" "0 < held G c" "1 < cx_ref cx"
  shows "skynet_context_release sv c n = Some (Some c, set_ctx c (cx\<lparr>cx_ref := cx_ref cx - 1\<rparr>) n)
    \<and> node_ok (set_held c (held G c - 1) G) (set_ctx c (cx\<lparr>cx_ref := cx_ref cx - 1\<rparr>) n)"
proof -
  have "cx_ref cx - 1 = int (held G c - 1 + fixed_refs n c)"
    using refs_Some [OF node_ok_parts(2) [OF assms(1)] assms(2)] assms(3) by simp
  then have "node_ok (set_held c (held G c - 1) G) (set_ctx c (cx\<lparr>cx_ref := cx_ref cx - 1\<rparr>) n)"
    by (intro set_ctx_ok [OF assms(1,2)]) (use assms(4) in \<open>simp_all add: context_le_def\<close>)
  with assms(2,4) show ?thesis by (simp add: skynet_context_release_def)
qed

subsection \<open>Delivering a message\<close>

text \<open>As long as no harbor service runs, messages come from this node only.\<close>

definition source_ok :: "node \<Rightarrow> u32 \<Rightarrow> bool" where
  "source_ok n src \<longleftrightarrow> REMOTE n \<noteq> None \<or> \<not> remote_handle n src"

lemma queue_push_ok:
  assumes ok: "node_ok G n" and c: "ctxs n c = Some cx" and src: "source_ok n (source m)"
  shows "\<exists>s' q. skynet_mq_push (cx_queue cx) m (mqst n) = Some s' \<and> node_ok G (set_mq s' n) \<and> node_le G n (set_mq s' n)
    \<and> queue_at n (cx_queue cx) = Some q
    \<and> mq_view s' = (queue_at n)(cx_queue cx \<mapsto> (mq_enqueue m q)\<lparr>mq_in_global := True\<rparr>)"
proof -
  let ?p = "cx_queue cx"
  from ok obtain ps where sched: "sched_ok G ps n" by (rule node_okE)
  note links = node_ok_parts(3) [OF ok]
  from links_queue [OF links c] obtain q where q: "queue_at n ?p = Some q" "\<not> mq_release q" by blast
  note inv = links_owner [OF links q(1)] and iff = sched_iff [OF sched q(1)]
  let ?q' = "(mq_enqueue m q)\<lparr>mq_in_global := True\<rparr>" and ?ps' = "if mq_in_global q then ps else ps @ [?p]"
  from mq_push_view [OF sched_rep(1) [OF sched], of ?p q m] q iff obtain s' where
    s': "skynet_mq_push ?p m (mqst n) = Some s'" "gq_rep s' ?ps'" "mq_view s' = (queue_at n)(?p \<mapsto> ?q')"
    unfolding queue_at_def by auto
  have contents: "mq_contents ?q' = mq_contents q @ [m]" using inv by (simp add: mq_enqueue_contents)
  have "node_ok (G\<lparr>owned := owned G\<rparr>) (set_mq s' n)"
  proof (rule set_queue_ok [OF ok sched q(1) s'(2,3)])
    show "set ?ps' \<inter> owned G = {}" using sched_rep(2) [OF sched] iff q(2) by auto
    show "set ?ps' \<union> owned G = (if mq_in_global ?q' \<or> mq_release ?q' then insert ?p (set ps \<union> owned G)
        else set ps \<union> owned G - {?p})" using iff q(2) by auto
    show "mq_inv ?q'" using inv by (simp add: mq_enqueue_inv)
    show "ready n d dx" if "?p \<notin> owned G" "ctxs n d = Some dx" "cx_queue dx = ?p" for d dx
      using sched_init [OF sched that(2)] that by simp
    show "m' \<in> set (mq_contents q) \<or> \<not> remote_handle n (source m')"
      if "REMOTE n = None" "m' \<in> set (mq_contents ?q')" for m'
      using that src unfolding contents by (auto simp: source_ok_def)
  qed (use q in \<open>auto\<close>)
  moreover have "queue_le q ?q'" using q(2) contents by (simp add: queue_le_def)
  then have "node_le G n (set_mq s' n)" by (intro set_queue_le [OF s'(3)]) (use q(1) in simp)
  ultimately show ?thesis using s' q(1) by auto
qed

lemma context_push_miss:
  "handle_lookup (context_handle n) (hs n) h = None \<Longrightarrow> skynet_context_push sv h m n = Some (- 1, n)"
  by (simp add: skynet_context_push_def skynet_handle_grab_def)

lemma context_push_hit:
  assumes "handle_lookup (context_handle n) (hs n) h = Some c" "ctxs n c = Some cx" "0 < cx_ref cx"
  shows "skynet_context_push sv h m n = map_option (\<lambda>s. (0, set_mq s n)) (skynet_mq_push (cx_queue cx) m (mqst n))"
  using assms
  by (cases "skynet_mq_push (cx_queue cx) m (mqst n)")
    (simp_all add: skynet_context_push_def skynet_handle_grab_def skynet_context_grab_def
      skynet_context_release_def map_upd_triv)

text \<open>\<open>n'\<close> is \<open>n\<close> after the message was appended to the queue of the service with the
  given handle, if there is one.\<close>

definition delivered :: "u32 \<Rightarrow> skynet_message \<Rightarrow> node \<Rightarrow> node \<Rightarrow> bool" where
  "delivered h m n n' \<longleftrightarrow> (\<exists>s. n' = set_mq s n) \<and> (case handle_lookup (context_handle n) (hs n) h of
       None \<Rightarrow> n' = n
     | Some c \<Rightarrow> \<exists>cx q. ctxs n c = Some cx \<and> queue_at n (cx_queue cx) = Some q
         \<and> queue_at n' = (queue_at n)(cx_queue cx \<mapsto> (mq_enqueue m q)\<lparr>mq_in_global := True\<rparr>))"

lemma context_push_ok:
  assumes ok: "node_ok G n" and src: "source_ok n (source m)"
  shows "\<exists>n'. skynet_context_push sv h m n
      = Some (if handle_lookup (context_handle n) (hs n) h = None then - 1 else 0, n')
    \<and> node_ok G n' \<and> node_le G n n' \<and> delivered h m n n'"
proof (cases "handle_lookup (context_handle n) (hs n) h")
  case None
  with ok context_push_miss [OF None] show ?thesis by (auto simp: delivered_def intro: exI [of _ "mqst n"])
next
  case (Some c)
  from lookup_registered [OF ok Some] have "c \<in> registered (hs n)" by simp
  with ok obtain cx where cx: "ctxs n c = Some cx" "0 < cx_ref cx" by (rule registered_live)
  from queue_push_ok [OF ok cx(1) src] obtain s' q where s': "skynet_mq_push (cx_queue cx) m (mqst n) = Some s'"
    "node_ok G (set_mq s' n)" "node_le G n (set_mq s' n)" "queue_at n (cx_queue cx) = Some q"
    "mq_view s' = (queue_at n)(cx_queue cx \<mapsto> (mq_enqueue m q)\<lparr>mq_in_global := True\<rparr>)" by blast
  then have "delivered h m n (set_mq s' n)" using Some cx(1) by (auto simp: delivered_def)
  moreover have "skynet_context_push sv h m n = Some (0, set_mq s' n)" using context_push_hit [OF Some cx] s'(1) by simp
  ultimately show ?thesis using s'(2,3) Some by simp
qed

subsection \<open>Fields outside the invariant\<close>

definition same_core :: "node \<Rightarrow> node \<Rightarrow> bool" where
  "same_core n n' \<longleftrightarrow> ctxs n' = ctxs n \<and> hs n' = hs n \<and> HARBOR n' = HARBOR n \<and> REMOTE n' = REMOTE n
     \<and> mqst n' = mqst n \<and> files n' = files n \<and> brk n' = brk n \<and> nd_modules n' = nd_modules n"

lemma same_core_ok: "same_core n n' \<Longrightarrow> node_ok G n' = node_ok G n"
  by (simp only: same_core_def node_ok_def node_parts fixed_refs_def context_handle_def [abs_def] queue_at_def remote_handle_def ready_def)

lemma same_core_le: "same_core n n' \<Longrightarrow> node_le G n n'"
  by (rule node_leI) (auto simp: same_core_def queue_at_def)

lemma same_core_keeps: "node_ok G n \<Longrightarrow> same_core n n' \<Longrightarrow> keeps G n (Some n')"
  by (auto simp: keeps_def same_core_ok same_core_le)

lemma context_source_ok:
  assumes "node_ok G n" "ctxs n c = Some cx"
  shows "source_ok n (cx_handle cx)" "source_ok n 0"
  using node_ok_parts(1) [OF assms(1)] assms(2) by (auto simp: source_ok_def remote_handle_def table_ok_def)

lemma source_ok_same: "HARBOR n' = HARBOR n \<Longrightarrow> REMOTE n' = REMOTE n \<Longrightarrow> source_ok n' src = source_ok n src"
  by (simp add: source_ok_def remote_handle_def)

text \<open>An error message changes the queue of the logger and the cached handle, nothing else.\<close>

lemma skynet_error_sends:
  assumes ok: "node_ok G n" and ctx: "\<And>c. context = Some c \<Longrightarrow> ctxs n c \<noteq> None"
  shows "\<exists>l s. skynet_error sv context msg n = Some (n\<lparr>logger := l, mqst := s\<rparr>)
    \<and> node_ok G (n\<lparr>logger := l, mqst := s\<rparr>) \<and> node_le G n (n\<lparr>logger := l, mqst := s\<rparr>)"
proof -
  define lg where "lg = (if logger n = 0 then skynet_handle_findname (hs n) ''logger'' else logger n)"
  let ?n1 = "n\<lparr>logger := lg\<rparr>"
  have core: "same_core n ?n1" by (simp add: same_core_def)
  have ok1: "node_ok G ?n1" using ok same_core_ok [OF core] by simp
  define src where "src = (case context of None \<Rightarrow> 0 | Some c \<Rightarrow> cx_handle (the (ctxs n c)))"
  have src: "(case context of None \<Rightarrow> Some 0 | Some c \<Rightarrow> skynet_context_handle c ?n1) = Some src"
    using ctx by (auto simp: src_def skynet_context_handle_def split: option.split)
  have "source_ok n src"
  proof (cases "context")
    case None
    then show ?thesis by (simp add: src_def source_ok_def remote_handle_def)
  next
    case (Some c)
    with ctx obtain cx where "ctxs n c = Some cx" by blast
    with context_source_ok(1) [OF ok this] Some show ?thesis by (simp add: src_def)
  qed
  then have sok: "source_ok ?n1 src" by (simp add: source_ok_same [of ?n1 n])
  let ?m = "\<lparr>source = src, session = 0, data = Some (Bytes (cbytes msg @ [0])),
      sz = of_nat (length msg) OR push_bit MESSAGE_TYPE_SHIFT (ucast PTYPE_TEXT)\<rparr>"
  show ?thesis
  proof (cases "lg = 0")
    case True
    then have "skynet_error sv context msg n = Some ?n1" by (simp add: skynet_error_def lg_def [symmetric] Let_def)
    moreover have "?n1 = n\<lparr>logger := lg, mqst := mqst n\<rparr>" by simp
    ultimately show ?thesis using ok1 same_core_le [OF core] by metis
  next
    case False
    from context_push_ok [OF ok1, of ?m sv lg] sok obtain r s where "skynet_context_push sv lg ?m ?n1 = Some (r, set_mq s ?n1)"
      "node_ok G (set_mq s ?n1)" "node_le G ?n1 (set_mq s ?n1)" by (auto simp: delivered_def)
    with src False node_le_trans [OF same_core_le [OF core]] show ?thesis
      by (auto simp: skynet_error_def lg_def [symmetric] Let_def)
  qed
qed

lemma skynet_error_ok:
  "node_ok G n \<Longrightarrow> (\<And>c. context = Some c \<Longrightarrow> ctxs n c \<noteq> None) \<Longrightarrow> keeps G n (skynet_error sv context msg n)"
  using skynet_error_sends [of G n "context" sv msg] by (auto simp: keeps_def)

subsection \<open>Deleting a context\<close>

definition set_dying :: "ctx_ptr set \<Rightarrow> ghost \<Rightarrow> ghost" where
  "set_dying D G = G\<lparr>dying := D\<rparr>"

lemma set_dying_fields [simp]:
  "held (set_dying D G) = held G" "owned (set_dying D G) = owned G" "dying (set_dying D G) = D"
  by (simp_all add: set_dying_def)

lemma sched_dying: "sched_ok (set_dying D G) ps n = sched_ok G ps n"
  by (simp only: sched_ok_def set_dying_fields)

lemma files_dying_mono: "files_ok G n \<Longrightarrow> dying G \<subseteq> D \<Longrightarrow> files_ok (set_dying D G) n"
  unfolding files_ok_def set_dying_fields by blast

text \<open>The last reference goes away.\<close>

lemma last_ref_ok:
  assumes ok: "node_ok G n" and c: "ctxs n c = Some cx" and last: "held G c = 1" "fixed_refs n c = 0"
  shows "node_ok (set_dying (insert c (dying G)) (set_held c 0 G)) (set_ctx c (cx\<lparr>cx_ref := 0\<rparr>) n)"
proof -
  from ok obtain ps where parts: "table_ok n" "refs_ok G n" "links_ok n" "sched_ok G ps n" "files_ok G n" "alloc_ok n"
    "remote_ok n" "modules_ok (nd_modules n)" by (rule node_okE)
  let ?G = "set_dying (insert c (dying G)) (set_held c 0 G)" and ?n = "set_ctx c (cx\<lparr>cx_ref := 0\<rparr>) n"
  have le: "context_le cx (cx\<lparr>cx_ref := 0\<rparr>)" by (simp add: context_le_def)
  note upd = set_ctx_parts [OF c le]
  have "refs_ok ?G ?n"
  proof (rule refs_okI)
    fix d assume "ctxs ?n d = None"
    then show "held ?G d = 0 \<and> d \<notin> dying ?G" using refs_None [OF parts(2), of d] by (auto split: if_splits)
  next
    fix d dx assume d: "ctxs ?n d = Some dx"
    have "fixed_refs ?n d = fixed_refs n d" by (simp add: fixed_refs_def)
    then show "cx_ref dx = int (held ?G d + fixed_refs ?n d) \<and> (held ?G d + fixed_refs ?n d = 0 \<longleftrightarrow> d \<in> dying ?G)"
      using refs_Some [OF parts(2), of d] last d by (cases "d = c") auto
  qed
  moreover have "sched_ok ?G ps ?n" using upd(3) [OF parts(4)] by (simp only: sched_dying ghost_parts)
  moreover have "files_ok ?G ?n"
    by (rule files_dying_mono) (use set_ctx_files [OF parts(5) c] in \<open>auto simp: ghost_parts\<close>)
  ultimately show ?thesis
    by (rule_tac node_okI [OF upd(1) [OF parts(1)] _ upd(2) [OF parts(3)] _ _ upd(4) [OF parts(6)] upd(5) [OF parts(7)]])
      (use parts(8) in auto)
qed

text \<open>The open files change, and with them the allocator.\<close>

abbreviation set_files :: "(file_ptr \<rightharpoonup> string) \<Rightarrow> nat \<Rightarrow> node \<Rightarrow> node" where
  "set_files F b n \<equiv> n\<lparr>files := F, brk := b\<rparr>"

lemma set_files_ok:
  assumes ok: "node_ok G n" and lf: "files_ok G (set_files F b n)" and b: "brk n \<le> b" "\<And>f. F f \<noteq> None \<Longrightarrow> f < b"
  shows "node_ok G (set_files F b n)" "node_le G n (set_files F b n)"
proof -
  from ok obtain ps where parts: "table_ok n" "refs_ok G n" "links_ok n" "sched_ok G ps n" "files_ok G n" "alloc_ok n"
    "remote_ok n" "modules_ok (nd_modules n)" by (rule node_okE)
  let ?n = "set_files F b n"
  have qa: "queue_at ?n = queue_at n" by (simp add: queue_at_def)
  have "table_ok ?n" using parts(1) by (subst table_cong [of _ n]) simp_all
  moreover have "refs_ok G ?n" using parts(2) by (subst refs_cong [of _ n _ G]) (simp_all add: fixed_refs_def fun_eq_iff)
  moreover have "links_ok ?n" using parts(3) by (subst links_cong [of _ n]) (simp_all add: qa)
  moreover have "sched_ok G ps ?n" using parts(4) by (subst sched_cong [of _ n _ G]) simp_all
  moreover have "alloc_ok ?n"
    unfolding alloc_ok_def qa
  proof (intro conjI ballI)
    show "c < brk ?n" if "c \<in> dom (ctxs ?n)" for c using that parts(6) b(1) by (auto simp: alloc_ok_def dest!: bspec)
    show "p < brk ?n" if "p \<in> dom (queue_at n)" for p using that parts(6) b(1) by (auto simp: alloc_ok_def dest!: bspec)
    show "f < brk ?n" if "f \<in> dom (files ?n)" for f using that b(2) [of f] by (simp add: domIff)
  qed
  moreover have "remote_ok ?n" using parts(7) by (subst remote_cong [of _ n]) simp_all
  ultimately show "node_ok G ?n" using parts(8) lf by (intro node_okI) simp_all
  show "node_le G n ?n" by (rule node_leI) (use b in \<open>simp_all add: qa\<close>)
qed

lemma alloc_files: "node_ok G n \<Longrightarrow> files n f \<noteq> None \<Longrightarrow> f < brk n"
  using node_ok_parts(5) [of G n] by (auto simp: alloc_ok_def)

text \<open>Closing the log file of a context that is being deleted.\<close>

lemma fclose_ok:
  assumes ok: "node_ok G n" and old: "files_ok G' n" "ctxs n c = Some cx" "cx_logfile cx = Some f" "c \<notin> dying G'"
    and D: "dying G = insert c (dying G')"
  shows "\<exists>n'. fclose f n = Some n' \<and> node_ok G n' \<and> node_le G n n'"
proof -
  note fok = node_ok_parts(4) [OF ok]
  let ?F = "(files n)(f := None)"
  let ?n = "set_files ?F (brk n) n"
  have "files_ok G ?n"
    unfolding files_ok_def
  proof (intro allI impI conjI)
    fix d dx g assume d: "ctxs ?n d = Some dx" "cx_logfile dx = Some g" "d \<notin> dying G"
    then have dn: "ctxs n d = Some dx" by simp
    have "g \<noteq> f" using files_okD(2) [OF old dn] d(2,3) D by auto
    then show "files ?n g \<noteq> None" using files_okD(1) [OF fok dn d(2,3)] by simp
    fix e ex assume "ctxs ?n e = Some ex" "cx_logfile ex = Some g" "e \<notin> dying G"
    then show "e = d" using files_okD(2) [OF fok dn d(2,3), of e ex] by simp
  qed
  from set_files_ok [OF ok this] alloc_files [OF ok] have "node_ok G ?n" "node_le G n ?n" by (auto split: if_splits)
  moreover have "fclose f n = Some ?n" using files_okD(1) [OF old] by (simp add: fclose_def)
  ultimately show ?thesis by blast
qed

lemma mq_release_fields [simp]:
  "mq_contents (q\<lparr>mq_release := b\<rparr>) = mq_contents q" "mq_inv (q\<lparr>mq_release := b\<rparr>) = mq_inv q"
  by (simp_all add: mq_contents_def mq_inv_def)

text \<open>Marking the queue of a context that is being deleted, and freeing the context.\<close>

abbreviation free_ctx :: "mq_state \<Rightarrow> ctx_ptr \<Rightarrow> node \<Rightarrow> node" where
  "free_ctx s c n \<equiv> n\<lparr>mqst := s, ctxs := (ctxs n)(c := None)\<rparr>"

lemma queue_at_free_ctx [simp]: "queue_at (free_ctx s c n) = mq_view s"
  by (simp add: queue_at_def)

lemma free_ctx_old: "ctxs (free_ctx s c n) d = Some dx \<Longrightarrow> ctxs n d = Some dx \<and> d \<noteq> c"
  by (auto split: if_splits)

lemma free_ctx_table:
  assumes ok: "table_ok n" and unreg: "c \<notin> registered (hs n)"
  shows "table_ok (free_ctx s c n)"
proof -
  have "context_handle (free_ctx s c n) d = context_handle n d" if "d \<in> registered (hs n)" for d
    using that unreg by (auto simp: context_handle_def)
  then have "slots_ok (context_handle (free_ctx s c n)) (hs n)"
    by (rule slots_ok_cong [of _ _ "context_handle n"]) (use ok in \<open>simp_all add: table_ok_def\<close>)
  then show ?thesis using ok unreg by (auto simp: table_ok_def split: if_splits)
qed

lemma free_ctx_refs:
  assumes ok: "refs_ok G n" and zero: "held G c = 0"
  shows "refs_ok (set_dying (dying G - {c}) G) (free_ctx s c n)"
proof (rule refs_okI)
  let ?G = "set_dying (dying G - {c}) G"
  show "held ?G d = 0 \<and> d \<notin> dying ?G" if "ctxs (free_ctx s c n) d = None" for d
    using that refs_None [OF ok, of d] zero by (auto split: if_splits)
  fix d dx assume d: "ctxs (free_ctx s c n) d = Some dx"
  have "fixed_refs (free_ctx s c n) d = fixed_refs n d" by (simp add: fixed_refs_def)
  with refs_Some [OF ok, of d dx] free_ctx_old [OF d]
  show "cx_ref dx = int (held ?G d + fixed_refs (free_ctx s c n) d)
      \<and> (held ?G d + fixed_refs (free_ctx s c n) d = 0 \<longleftrightarrow> d \<in> dying ?G)" by simp
qed

lemma free_ctx_links:
  assumes ok: "links_ok n" and c: "ctxs n c = Some cx" and q: "queue_at n (cx_queue cx) = Some q"
    and view: "mq_view s = (queue_at n)(cx_queue cx \<mapsto> q\<lparr>mq_release := True\<rparr>)"
  shows "links_ok (free_ctx s c n)"
proof (rule links_okI)
  fix d dx assume d: "ctxs (free_ctx s c n) d = Some dx"
  then have dn: "ctxs n d = Some dx" "d \<noteq> c" using free_ctx_old by blast+
  have "cx_queue dx \<noteq> cx_queue cx" using links_inj [OF ok dn(1) c] dn(2) by blast
  with links_queue [OF ok dn(1)]
  show "\<exists>r. queue_at (free_ctx s c n) (cx_queue dx) = Some r \<and> \<not> mq_release r \<and> mq_handle r = cx_handle dx"
    by (simp add: view)
next
  show "d = e" if "ctxs (free_ctx s c n) d = Some dx" "ctxs (free_ctx s c n) e = Some ex" "cx_queue dx = cx_queue ex" for d dx e ex
    using that links_inj [OF ok] free_ctx_old by blast
next
  fix p r assume r: "queue_at (free_ctx s c n) p = Some r"
  show "mq_inv r \<and> mq_handle r \<noteq> 0 \<and> mq_handle r AND NOT HANDLE_MASK = HARBOR (free_ctx s c n)
    \<and> (mq_release r \<or> (\<exists>d dx. ctxs (free_ctx s c n) d = Some dx \<and> cx_queue dx = p))"
  proof (cases "p = cx_queue cx")
    case False
    have "ctxs (free_ctx s c n) d = Some dx" if "ctxs n d = Some dx" "cx_queue dx = p" for d dx
      using that False c by (cases "d = c") auto
    with links_owner [OF ok, of p r] False r show ?thesis by (auto simp: view)
  qed (use links_owner [OF ok q] r in \<open>auto simp: view\<close>)
qed

lemma free_ctx_sched:
  assumes ok: "sched_ok G ps n" and q: "queue_at n (cx_queue cx) = Some q" "\<not> mq_release q"
    and s: "gq_rep s (if mq_in_global q then ps else ps @ [cx_queue cx])"
      "mq_view s = (queue_at n)(cx_queue cx \<mapsto> q\<lparr>mq_release := True\<rparr>)"
  shows "sched_ok (set_dying D G) (if mq_in_global q then ps else ps @ [cx_queue cx]) (free_ctx s c n)"
    (is "sched_ok ?G ?ps ?n")
proof (rule sched_okI)
  note iff = sched_iff [OF ok q(1)]
  show "(mq_in_global r \<or> mq_release r \<longleftrightarrow> p \<in> set ?ps \<union> owned ?G) \<and> (mq_contents r \<noteq> [] \<longrightarrow> mq_in_global r \<or> mq_release r)"
    if "queue_at ?n p = Some r" for p r
    using that sched_iff [OF ok, of p r] iff q(2) by (cases "p = cx_queue cx") (auto simp: s(2))
  show "set ?ps \<inter> owned ?G = {}" using sched_rep(2) [OF ok] iff q(2) by auto
  show "owned ?G \<subseteq> dom (queue_at ?n)" using sched_dom [OF ok] by (auto simp: s(2))
  show "ready ?n d dx \<or> cx_queue dx \<in> owned ?G" if "ctxs ?n d = Some dx" for d dx
    using sched_init [OF ok, of d dx] free_ctx_old [OF that] by (simp add: ready_def)
qed (use s(1) in simp)

lemma free_ctx_files:
  assumes "files_ok G n"
  shows "files_ok (set_dying (dying G - {c}) G) (free_ctx s c n)"
  unfolding files_ok_def
proof (intro allI impI conjI)
  let ?G = "set_dying (dying G - {c}) G"
  fix d dx g assume d: "ctxs (free_ctx s c n) d = Some dx" "cx_logfile dx = Some g" "d \<notin> dying ?G"
  then have dn: "ctxs n d = Some dx" "d \<notin> dying G" using free_ctx_old [OF d(1)] by simp_all
  show "files (free_ctx s c n) g \<noteq> None" using files_okD(1) [OF assms dn(1) d(2) dn(2)] by simp
  fix e ex assume e: "ctxs (free_ctx s c n) e = Some ex" "cx_logfile ex = Some g" "e \<notin> dying ?G"
  then show "e = d" using files_okD(2) [OF assms dn(1) d(2) dn(2), of e ex] free_ctx_old [OF e(1)] by simp
qed

lemma free_context_ok:
  assumes ok: "node_ok G n" and c: "ctxs n c = Some cx" and dy: "c \<in> dying G"
  defines "G' \<equiv> set_dying (dying G - {c}) G"
  shows "\<exists>s q. skynet_mq_mark_release (cx_queue cx) (mqst n) = Some s \<and> node_ok G' (free_ctx s c n)
    \<and> node_le G' n (free_ctx s c n) \<and> mq_view s (cx_queue cx) = Some q \<and> mq_release q"
proof -
  let ?p = "cx_queue cx"
  from ok obtain ps where sched: "sched_ok G ps n" by (rule node_okE)
  note parts = node_ok_parts [OF ok]
  from links_queue [OF parts(3) c] obtain q where q: "queue_at n ?p = Some q" "\<not> mq_release q" by blast
  let ?ps = "if mq_in_global q then ps else ps @ [?p]" and ?q = "q\<lparr>mq_release := True\<rparr>"
  from mq_mark_release_view [OF sched_rep(1) [OF sched], of ?p q] q sched_iff [OF sched q(1)] obtain s where
    s: "skynet_mq_mark_release ?p (mqst n) = Some s" "gq_rep s ?ps" "mq_view s = (queue_at n)(?p \<mapsto> ?q)"
    unfolding queue_at_def by auto
  let ?n = "free_ctx s c n"
  have zero: "held G c = 0" "fixed_refs n c = 0" using refs_Some [OF parts(2) c] dy by auto
  then have unreg: "c \<notin> registered (hs n)" "REMOTE n \<noteq> Some c" by (auto simp: fixed_refs_def split: if_splits)
  have rm: "remote_ok ?n"
  proof (rule remote_okI)
    fix p' r m assume "REMOTE ?n = None" "queue_at ?n p' = Some r" "m \<in> set (mq_contents r)"
    then have "\<not> remote_handle n (source m)"
      using remote_local [OF parts(6), of p' r m] remote_local [OF parts(6) _ q(1), of m] by (cases "p' = ?p") (auto simp: s(3))
    then show "\<not> remote_handle ?n (source m)" by (simp add: remote_handle_def)
  qed (use remote_alive [OF parts(6)] unreg in auto)
  have a: "alloc_ok ?n" using parts(5) q(1) by (auto simp: alloc_ok_def s(3) split: if_splits)
  have m: "modules_ok (nd_modules ?n)" using parts(7) by simp
  have "node_ok G' ?n"
    unfolding G'_def
    by (rule node_okI [OF free_ctx_table [OF parts(1) unreg(1)] free_ctx_refs [OF parts(2) zero(1)]
          free_ctx_links [OF parts(3) c q(1) s(3)] free_ctx_sched [OF sched q s(2,3)] free_ctx_files [OF parts(4)] a rm m])
  moreover have "node_le G' n ?n"
  proof (rule node_leI)
    fix d dx assume d: "ctxs n d = Some dx" "0 < held G' d \<or> d \<in> dying G'"
    then have "d \<noteq> c" using zero by (auto simp: G'_def)
    then show "\<exists>dx'. ctxs ?n d = Some dx' \<and> context_le dx dx'" using d(1) by simp
  next
    show "\<exists>r'. queue_at ?n p' = Some r' \<and> queue_le r r'" if "queue_at n p' = Some r" for p' r
      using that q by (cases "p' = ?p") (auto simp: s(3) queue_le_def)
  next
    show "(\<exists>dx0. ctxs n d = Some dx0 \<and> cx_queue dx0 = p' \<and> (cx_init dx0 \<longrightarrow> cx_init dx)) \<and> (d \<in> registered (hs ?n) \<longrightarrow> d \<in> registered (hs n))"
      if "ctxs ?n d = Some dx" "cx_queue dx = p'" for p' d dx
      using that free_ctx_old [OF that(1)] by auto
  qed simp
  ultimately show ?thesis using s(1,3) by auto
qed

lemma well_behavedD:
  assumes "well_behaved sv" "node_ok G n"
  shows "keeps G n (map_option snd (sv_create sv f n))"
    "0 < held G c \<Longrightarrow> keeps G n (map_option snd (sv_init sv f inst c parm n))"
    "keeps G n (sv_release sv f inst n)" "keeps G n (sv_signal sv f inst k n)"
    "0 < held G c \<Longrightarrow> keeps G n (map_option snd (sv_cb sv f c ud ty ses src msg len n))"
  using assms unfolding well_behaved_def by (simp_all only: simp_thms)

lemma instance_release_ok:
  "well_behaved sv \<Longrightarrow> node_ok G n \<Longrightarrow> keeps G n (skynet_module_instance_release sv m inst n)"
  unfolding skynet_module_instance_release_def
  by (cases "md_release (md_m (nd_modules n) ! m)") (simp_all add: well_behavedD keeps_same)

lemma instance_signal_ok:
  "well_behaved sv \<Longrightarrow> node_ok G n \<Longrightarrow> keeps G n (skynet_module_instance_signal sv m inst k n)"
  unfolding skynet_module_instance_signal_def
  by (cases "md_signal (md_m (nd_modules n) ! m)") (simp_all add: well_behavedD keeps_same)

lemma delete_context_ok:
  assumes wb: "well_behaved sv" and ok: "node_ok G n" and c: "ctxs n c = Some cx" and dy: "c \<in> dying G"
    and lf: "files_ok (set_dying (dying G - {c}) G) n"
  shows "\<exists>n'. delete_context sv c n = Some n' \<and> node_ok (set_dying (dying G - {c}) G) n'
    \<and> node_le (set_dying (dying G - {c}) G) n n' \<and> ctxs n' c = None
    \<and> (\<exists>q. queue_at n' (cx_queue cx) = Some q \<and> mq_release q)"
proof -
  let ?G = "set_dying (dying G - {c}) G"
  have mono: "node_le ?G a b" if "node_le G a b" for a b by (rule node_le_mono [OF that]) auto
  obtain n1 where n1: "(case cx_logfile cx of Some f \<Rightarrow> fclose f n | None \<Rightarrow> Some n) = Some n1" "node_ok G n1" "node_le G n n1"
  proof (cases "cx_logfile cx")
    case (Some f)
    have "dying G = insert c (dying ?G)" using dy by auto
    with fclose_ok [OF ok lf c Some] that Some show ?thesis by auto
  qed (use ok that in auto)
  from instance_release_ok [OF wb n1(2), of "cx_mod cx" "cx_instance cx"] obtain n2 where
    n2: "skynet_module_instance_release sv (cx_mod cx) (cx_instance cx) n1 = Some n2" "node_ok G n2" "node_le G n1 n2"
    by (auto simp: keeps_def)
  from node_le_ctx [OF node_le_trans [OF n1(3) n2(3)] c] dy obtain cx2 where cx2: "ctxs n2 c = Some cx2"
    "cx_queue cx2 = cx_queue cx" by (auto simp: context_le_def)
  from free_context_ok [OF n2(2) cx2(1) dy] obtain s q where s: "skynet_mq_mark_release (cx_queue cx2) (mqst n2) = Some s"
    "node_ok ?G (free_ctx s c n2)" "node_le ?G n2 (free_ctx s c n2)" "mq_view s (cx_queue cx2) = Some q" "mq_release q" by blast
  let ?n = "free_ctx s c n2"
  have core: "same_core ?n (context_dec ?n)" by (simp add: same_core_def context_dec_def)
  have "delete_context sv c n = Some (context_dec ?n)"
    using c n1(1) n2(1) cx2(1) s(1) by (simp add: delete_context_def)
  moreover have "node_le ?G n (context_dec ?n)"
    using mono [OF n1(3)] mono [OF n2(3)] s(3) same_core_le [OF core] by (blast intro: node_le_trans)
  moreover have "ctxs (context_dec ?n) c = None" "queue_at (context_dec ?n) (cx_queue cx) = Some q"
    using s(4) cx2(2) by (simp_all add: context_dec_def queue_at_def)
  ultimately show ?thesis using s(2,5) same_core_ok [OF core] by blast
qed

text \<open>Giving back a reference, the last one or not.\<close>

lemma context_release_ok:
  assumes wb: "well_behaved sv" and ok: "node_ok G n" and held: "0 < held G c"
  defines "G' \<equiv> set_held c (held G c - 1) G"
  shows "\<exists>r n'. skynet_context_release sv c n = Some (r, n') \<and> node_ok G' n' \<and> node_le G' n n'
    \<and> (\<exists>cx. ctxs n c = Some cx \<and> (r = None \<and> ctxs n' c = None \<and> (\<exists>q. queue_at n' (cx_queue cx) = Some q \<and> mq_release q)
        \<or> r = Some c \<and> n' = set_ctx c (cx\<lparr>cx_ref := cx_ref cx - 1\<rparr>) n))"
proof -
  from ok held obtain cx where cx: "ctxs n c = Some cx" "0 < cx_ref cx" by (rule held_live)
  show ?thesis
  proof (cases "1 < cx_ref cx")
    case True
    let ?n = "set_ctx c (cx\<lparr>cx_ref := cx_ref cx - 1\<rparr>) n"
    have "node_le G' n ?n" by (rule set_ctx_le [OF cx(1)]) (simp add: context_le_def)
    with context_release_more [OF ok cx(1) held True, of sv] cx(1) show ?thesis by (auto simp: G'_def)
  next
    case False
    have ref: "cx_ref cx = int (held G c + fixed_refs n c)" using refs_Some [OF node_ok_parts(2) [OF ok] cx(1)] by simp
    with False held have last: "held G c = 1" "fixed_refs n c = 0" "cx_ref cx - 1 = 0" by auto
    have nd: "c \<notin> dying G" using refs_Some [OF node_ok_parts(2) [OF ok] cx(1)] held by simp
    let ?n1 = "set_ctx c (cx\<lparr>cx_ref := 0\<rparr>) n" and ?G1 = "set_dying (insert c (dying G)) (set_held c 0 G)"
    have G': "G' = set_held c 0 G" "set_dying (dying ?G1 - {c}) ?G1 = G'"
      using last(1) nd by (simp_all add: G'_def set_dying_def set_held_def)
    have le: "context_le cx (cx\<lparr>cx_ref := 0\<rparr>)" by (simp add: context_le_def)
    have lf: "files_ok G' ?n1"
      using set_ctx_files [OF node_ok_parts(4) [OF ok] cx(1)] by (simp add: G'(1) ghost_parts)
    from delete_context_ok [OF wb last_ref_ok [OF ok cx(1) last(1,2)], of c "cx\<lparr>cx_ref := 0\<rparr>"] lf obtain n' where
      "delete_context sv c ?n1 = Some n'" "node_ok G' n'" "node_le G' ?n1 n'" "ctxs n' c = None"
      "\<exists>q. queue_at n' (cx_queue cx) = Some q \<and> mq_release q"
      unfolding G'(2) by auto
    moreover have "node_le G' n ?n1" by (rule set_ctx_le [OF cx(1) le])
    ultimately show ?thesis
      using cx(1) last(3) by (auto simp: skynet_context_release_def Let_def intro: node_le_trans)
  qed
qed

subsection \<open>Retiring a handle\<close>

text \<open>The reference of the table becomes one that the running function holds.\<close>

lemma unregister_ok:
  assumes ok: "node_ok G n" and r: "retire_table (context_handle n) h (hs n) = (Some c, h')"
  shows "node_ok (set_held c (Suc (held G c)) G) (n\<lparr>hs := h'\<rparr>)"
proof -
  from ok obtain ps where parts: "table_ok n" "refs_ok G n" "links_ok n" "sched_ok G ps n" "files_ok G n" "alloc_ok n"
    "remote_ok n" "modules_ok (nd_modules n)" by (rule node_okE)
  let ?n = "n\<lparr>hs := h'\<rparr>" and ?G = "set_held c (Suc (held G c)) G"
  have tab: "slots_ok (context_handle n) (hs n)" "names_ok (hs n)" using parts(1) by (simp_all add: table_ok_def)
  note spec = retire_table_spec [OF tab r]
  have c: "c \<in> registered (hs n)" using spec lookup_registered [OF ok] by auto
  have ch: "context_handle ?n = context_handle n" by (simp add: context_handle_def fun_eq_iff)
  have qa: "queue_at ?n = queue_at n" by (simp add: queue_at_def)
  have reg: "registered h' = registered (hs n) - {c}" using spec by simp
  have "harbor h' = harbor (hs n)" using r
    by (auto simp: retire_table_def Let_def split: option.splits if_splits prod.splits)
  with parts(1) spec reg have t: "table_ok ?n" by (auto simp: table_ok_def ch)
  have f: "fixed_refs n d = (if d = c then Suc (fixed_refs ?n d) else fixed_refs ?n d)" for d
    using c reg by (auto simp: fixed_refs_def)
  have rf: "refs_ok ?G ?n"
  proof (rule refs_okI)
    fix d assume "ctxs ?n d = None"
    then show "held ?G d = 0 \<and> d \<notin> dying ?G"
      using refs_None [OF parts(2), of d] parts(1) c by (cases "d = c") (auto simp: table_ok_def)
  next
    fix d dx assume "ctxs ?n d = Some dx"
    then show "cx_ref dx = int (held ?G d + fixed_refs ?n d) \<and> (held ?G d + fixed_refs ?n d = 0 \<longleftrightarrow> d \<in> dying ?G)"
      using refs_Some [OF parts(2), of d dx] f [of d] by (cases "d = c") auto
  qed
  have l: "links_ok ?n" using parts(3) by (subst links_cong [of _ n]) (simp_all add: qa)
  have sc: "sched_ok ?G ps ?n"
  proof (rule sched_okI)
    show "ready ?n d dx \<or> cx_queue dx \<in> owned ?G" if "ctxs ?n d = Some dx" for d dx
      using that sched_init [OF parts(4), of d dx] reg by (auto simp: ready_def)
  qed (use sched_rep [OF parts(4)] sched_dom [OF parts(4)] sched_iff [OF parts(4)] in \<open>auto simp: qa\<close>)
  have fl: "files_ok ?G ?n" using parts(5) by (subst files_cong [of _ n _ G]) simp_all
  have a: "alloc_ok ?n" using parts(6) by (simp add: alloc_ok_def qa)
  have rm: "remote_ok ?n" using parts(7) by (subst remote_cong [of _ n]) simp_all
  show ?thesis by (rule node_okI [OF t rf l sc fl a rm]) (use parts(8) in simp)
qed

lemma queue_owner_lookup:
  assumes ok: "node_ok G n" and d: "ctxs n d = Some dx" "d \<in> registered (hs n)"
    and q: "map_option mq_handle (queue_at n (cx_queue dx)) = Some h"
  shows "handle_lookup (context_handle n) (hs n) h = Some d"
proof -
  have "context_handle n d = h" using links_queue [OF node_ok_parts(3) [OF ok] d(1)] q d(1) by (auto simp: context_handle_def)
  with slots_ok_lookup_iff [of "context_handle n" "hs n" h d] node_ok_parts(1) [OF ok] d(2) show ?thesis by (simp add: table_ok_def)
qed

lemma handle_retire_ok:
  assumes wb: "well_behaved sv" and ok: "node_ok G n"
  shows "\<exists>n'. skynet_handle_retire sv h n
      = Some (if handle_lookup (context_handle n) (hs n) h = None then 0 else 1, n') \<and> node_ok G n' \<and> node_le G n n'
    \<and> (\<forall>p \<in> owned G. \<forall>d dx. map_option mq_handle (queue_at n p) = Some h \<longrightarrow> ctxs n' d = Some dx \<longrightarrow> cx_queue dx = p
          \<longrightarrow> d \<notin> registered (hs n'))"
proof -
  obtain r h' where r: "retire_table (context_handle n) h (hs n) = (r, h')" by fastforce
  have tab: "slots_ok (context_handle n) (hs n)" "names_ok (hs n)"
    using node_ok_parts(1) [OF ok] by (simp_all add: table_ok_def)
  have lookup: "r = handle_lookup (context_handle n) (hs n) h" using retire_table_spec [OF tab r] by simp
  show ?thesis
  proof (cases r)
    case None
    with retire_table_miss [of "context_handle n" "hs n" h] lookup r have "h' = hs n" by simp
    moreover have "d \<notin> registered (hs n)" if "map_option mq_handle (queue_at n p) = Some h" "ctxs n d = Some dx" "cx_queue dx = p" for p d dx
      using queue_owner_lookup [OF ok that(2)] that lookup None by auto
    ultimately show ?thesis using r None ok lookup by (auto simp: skynet_handle_retire_def)
  next
    case (Some c)
    let ?G = "set_held c (Suc (held G c)) G"
    have ok1: "node_ok ?G (n\<lparr>hs := h'\<rparr>)" by (rule unregister_ok [OF ok r [unfolded Some]])
    have G: "set_held c (held ?G c - 1) ?G = G" by simp
    from context_release_ok [OF wb ok1, of c] obtain r' n' where
      n': "skynet_context_release sv c (n\<lparr>hs := h'\<rparr>) = Some (r', n')" "node_ok G n'" "node_le G (n\<lparr>hs := h'\<rparr>) n'"
      unfolding G by auto
    have reg: "registered h' = registered (hs n) - {c}" using retire_table_spec [OF tab r] Some by simp
    then have "node_le G n (n\<lparr>hs := h'\<rparr>)" by (intro node_leI) (auto simp: queue_at_def)
    then have le: "node_le G n n'" using n'(3) by (rule node_le_trans)
    have "d \<notin> registered (hs n')"
      if p: "p \<in> owned G" "map_option mq_handle (queue_at n p) = Some h" and d: "ctxs n' d = Some dx" "cx_queue dx = p" for p d dx
    proof
      assume "d \<in> registered (hs n')"
      moreover have "queue_at (n\<lparr>hs := h'\<rparr>) p \<noteq> None" using p(2) by (auto simp: queue_at_def)
      ultimately obtain dx0 where "ctxs n d = Some dx0" "cx_queue dx0 = p" "d \<in> registered (hs n) - {c}"
        using node_le_owner [OF n'(3) p(1) _ d] reg by auto
      with queue_owner_lookup [OF ok, of d dx0 h] p(2) lookup Some show False by auto
    qed
    then show ?thesis
      using r Some lookup n'(1,2) le by (auto simp: skynet_handle_retire_def)
  qed
qed

end
