(* ===== verification/Sending.thy ===== *)
theory Sending
  imports Node_Inv
begin

section \<open>Sending messages\<close>

text \<open>
  What \<open>skynet_send\<close> and \<open>skynet_sendname\<close> do on a good node: the message reaches the
  queue of the destination with the type, session and source that the receiver decodes, or
  is refused with \<open>-1\<close>, or goes to the harbor service; nothing else changes.
\<close>

subsection \<open>Type and size in one word\<close>

lemma MESSAGE_TYPE_MASK_mask: "MESSAGE_TYPE_MASK = mask 56"
  by (simp add: MESSAGE_TYPE_MASK_def mask_eq_exp_minus_1)

definition with_type :: "u64 \<Rightarrow> u32 \<Rightarrow> u64" where
  "with_type len type = len OR push_bit MESSAGE_TYPE_SHIFT (ucast (type AND 0xff))"

text \<open>The receiver gets back the size and the type.\<close>

lemma with_type_parts:
  assumes "len AND MESSAGE_TYPE_MASK = len"
  shows "with_type len type AND MESSAGE_TYPE_MASK = len"
    "ucast (drop_bit MESSAGE_TYPE_SHIFT (with_type len type)) = type AND 0xff"
proof -
  have low: "k < 56" if "bit len k" for k
  proof -
    have "bit (len AND mask 56) k \<longleftrightarrow> bit len k" using assms by (simp add: MESSAGE_TYPE_MASK_mask)
    with that show ?thesis by (simp add: bit_simps)
  qed
  have ff: "(0xff :: u32) = mask 8" by (simp add: mask_eq_exp_minus_1)
  show "with_type len type AND MESSAGE_TYPE_MASK = len"
  proof (rule bit_word_eqI)
    fix k assume "k < LENGTH(64)"
    then show "bit (with_type len type AND MESSAGE_TYPE_MASK) k = bit len k"
      using low [of k] by (auto simp: with_type_def MESSAGE_TYPE_MASK_mask MESSAGE_TYPE_SHIFT_def bit_simps)
  qed
  show "ucast (drop_bit MESSAGE_TYPE_SHIFT (with_type len type)) = type AND 0xff"
    unfolding ff
  proof (rule bit_word_eqI)
    fix k assume "k < LENGTH(32)"
    then show "bit (ucast (drop_bit MESSAGE_TYPE_SHIFT (with_type len type)) :: u32) k = bit (type AND mask 8) k"
      using low [of "56 + k"] by (auto simp: with_type_def ff MESSAGE_TYPE_SHIFT_def bit_simps)
  qed
qed

subsection \<open>Sessions\<close>

definition next_session :: "int \<Rightarrow> int" where
  "next_session k = (if signed_take_bit 31 (k + 1) \<le> 0 then 1 else signed_take_bit 31 (k + 1))"

lemma newsession_eq:
  "ctxs n c = Some cx \<Longrightarrow> skynet_context_newsession c n
     = Some (next_session (cx_session_id cx), set_ctx c (cx\<lparr>cx_session_id := next_session (cx_session_id cx)\<rparr>) n)"
  by (simp add: skynet_context_newsession_def next_session_def Let_def)

text \<open>Fields of a context that the invariant does not mention.\<close>

lemma set_ctx_inert:
  assumes "node_ok G n" "ctxs n c = Some cx" "context_le cx cx'" "cx_logfile cx' = cx_logfile cx" "cx_ref cx' = cx_ref cx"
    "0 < cx_ref cx"
  shows "node_ok G (set_ctx c cx' n)"
  using set_ctx_ok [OF assms(1-4), of "held G c"] refs_Some [OF node_ok_parts(2) [OF assms(1)] assms(2)] assms(5,6) by simp

lemma newsession_ok:
  assumes "node_ok G n" "0 < held G c"
  shows "keeps G n (map_option snd (skynet_context_newsession c n))"
proof -
  from assms obtain cx where cx: "ctxs n c = Some cx" "0 < cx_ref cx" by (rule held_live)
  let ?cx = "cx\<lparr>cx_session_id := next_session (cx_session_id cx)\<rparr>"
  have le: "context_le cx ?cx" by (simp add: context_le_def)
  from set_ctx_inert [OF assms(1) cx(1) le _ _ cx(2)] set_ctx_le [OF cx(1) le] newsession_eq [OF cx(1)]
  show ?thesis by (simp add: keeps_def)
qed

lemma next_session_pos: "1 \<le> next_session k" "next_session k < 2 ^ 31"
  using signed_take_bit_int_less_exp [of 31 "k + 1"] by (auto simp: next_session_def)

lemma next_session_step: "0 \<le> k \<Longrightarrow> k < 2 ^ 31 - 1 \<Longrightarrow> next_session k = k + 1"
  by (simp add: next_session_def signed_take_bit_int_eq_self)

lemma next_session_wrap: "next_session (2 ^ 31 - 1) = 1"
  by (simp add: next_session_def signed_take_bit_eq_take_bit_minus)

subsection \<open>Arguments\<close>

definition allocs :: "u32 \<Rightarrow> bool" where
  "allocs type \<longleftrightarrow> type AND PTYPE_TAG_ALLOCSESSION \<noteq> 0"

definition copies :: "u32 \<Rightarrow> bool" where
  "copies type \<longleftrightarrow> type AND PTYPE_TAG_DONTCOPY = 0"

text \<open>The message that arrives.\<close>

definition sent_data :: "u32 \<Rightarrow> payload option \<Rightarrow> u64 \<Rightarrow> payload option" where
  "sent_data type msg len = (if copies type then Option.bind msg (\<lambda>d. copy_data d len) else msg)"

text \<open>A call that the code allows: a session is allocated only when none is given, only the
  context of a living service is used, and a message to copy is as long as it says.\<close>

definition send_args_ok :: "ctx_ptr option \<Rightarrow> u32 \<Rightarrow> u32 \<Rightarrow> int \<Rightarrow> payload option \<Rightarrow> u64 \<Rightarrow> bool" where
  "send_args_ok context src type ses msg len \<longleftrightarrow>
     (allocs type \<longrightarrow> ses = 0 \<and> context \<noteq> None) \<and> (src = 0 \<longrightarrow> context \<noteq> None)
     \<and> (copies type \<longrightarrow> msg \<noteq> None \<longrightarrow> sent_data type msg len \<noteq> None)"

definition session_of :: "ctx_ptr option \<Rightarrow> u32 \<Rightarrow> int \<Rightarrow> node \<Rightarrow> int" where
  "session_of context type ses n = (case context of
       Some c \<Rightarrow> (if allocs type then next_session (cx_session_id (the (ctxs n c))) else ses)
     | None \<Rightarrow> ses)"

definition after_session :: "ctx_ptr option \<Rightarrow> u32 \<Rightarrow> node \<Rightarrow> node" where
  "after_session context type n = (case context of
       Some c \<Rightarrow> (if allocs type then snd (the (skynet_context_newsession c n)) else n)
     | None \<Rightarrow> n)"

definition source_of :: "ctx_ptr option \<Rightarrow> u32 \<Rightarrow> node \<Rightarrow> u32" where
  "source_of context src n = (if src = 0 then context_handle n (the context) else src)"

lemma filter_args_eq:
  assumes "send_args_ok context src type ses msg len" "\<And>c. context = Some c \<Longrightarrow> ctxs n c \<noteq> None"
  shows "filter_args context type ses msg len n
    = Some ((session_of context type ses n, sent_data type msg len, with_type len type), after_session context type n)"
proof -
  have 1: "(if type AND PTYPE_TAG_ALLOCSESSION \<noteq> 0 then
        (if ses = 0 then Option.bind context (\<lambda>c. skynet_context_newsession c n) else None)
      else Some (ses, n)) = Some (session_of context type ses n, after_session context type n)"
    using assms by (auto simp: send_args_ok_def session_of_def after_session_def allocs_def newsession_eq split: option.split)
  have 2: "(case msg of Some d \<Rightarrow> (if type AND PTYPE_TAG_DONTCOPY = 0 then map_option Some (copy_data d len) else Some (Some d))
      | None \<Rightarrow> Some None) = Some (sent_data type msg len)"
    using assms(1) by (auto simp: send_args_ok_def sent_data_def copies_def split: option.split)
  show ?thesis by (simp only: filter_args_def Let_def 1 2) (simp add: with_type_def)
qed

lemma after_session_ok:
  assumes ok: "node_ok G n" and ctx: "\<And>c. context = Some c \<Longrightarrow> 0 < held G c"
  shows "node_ok G (after_session context type n) \<and> node_le G n (after_session context type n)
    \<and> (\<exists>C. after_session context type n = n\<lparr>ctxs := C\<rparr>) \<and> context_handle (after_session context type n) = context_handle n"
proof (cases "\<exists>c. context = Some c \<and> allocs type")
  case True
  then obtain c where c: "context = Some c" "allocs type" by blast
  from held_live [OF ok ctx [OF c(1)]] obtain cx where cx: "ctxs n c = Some cx" by blast
  with newsession_ok [OF ok ctx [OF c(1)]] c show ?thesis
    by (auto simp: after_session_def newsession_eq keeps_def context_handle_set_ctx)
next
  case False
  then have "after_session context type n = n" by (auto simp: after_session_def split: option.split)
  with ok show ?thesis by (auto intro: exI [of _ "ctxs n"])
qed

subsection \<open>Mailboxes\<close>

text \<open>The messages that wait for the service with a given handle.\<close>

definition inbox :: "node \<Rightarrow> u32 \<Rightarrow> skynet_message list option" where
  "inbox n h = Option.bind (handle_lookup (context_handle n) (hs n) h) (\<lambda>c. Option.bind (ctxs n c)
     (\<lambda>cx. map_option mq_contents (queue_at n (cx_queue cx))))"

lemma inbox_iff:
  assumes ok: "node_ok G n"
  shows "inbox n h = None \<longleftrightarrow> handle_lookup (context_handle n) (hs n) h = None"
proof (cases "handle_lookup (context_handle n) (hs n) h")
  case (Some c)
  from lookup_registered [OF ok Some] have "c \<in> registered (hs n)" by simp
  with ok obtain cx where cx: "ctxs n c = Some cx" by (rule registered_live)
  with links_queue [OF node_ok_parts(3) [OF ok] cx] Some show ?thesis by (auto simp: inbox_def)
qed (simp add: inbox_def)

lemma delivered_inbox:
  assumes ok: "node_ok G n" and del: "delivered h m n n'"
  shows "inbox n' h' = (if h' = h then map_option (\<lambda>ms. ms @ [m]) (inbox n h) else inbox n h')"
proof (cases "handle_lookup (context_handle n) (hs n) h")
  case None
  with del show ?thesis by (simp add: delivered_def inbox_def)
next
  case (Some c)
  from del Some obtain s cx q where n': "n' = set_mq s n" and cx: "ctxs n c = Some cx" and
    q: "queue_at n (cx_queue cx) = Some q" "queue_at n' = (queue_at n)(cx_queue cx \<mapsto> (mq_enqueue m q)\<lparr>mq_in_global := True\<rparr>)"
    by (auto simp: delivered_def)
  have same: "handle_lookup (context_handle n') (hs n') = handle_lookup (context_handle n) (hs n)" "ctxs n' = ctxs n"
    by (simp_all add: n' context_handle_def [abs_def])
  have cont: "mq_contents ((mq_enqueue m q)\<lparr>mq_in_global := True\<rparr>) = mq_contents q @ [m]"
    using links_owner [OF node_ok_parts(3) [OF ok] q(1)] by (simp add: mq_enqueue_contents)
  show ?thesis
  proof (cases "h' = h")
    case True
    with Some cx q cont show ?thesis by (simp add: inbox_def same)
  next
    case False
    have "cx_queue dx \<noteq> cx_queue cx" if "handle_lookup (context_handle n) (hs n) h' = Some d" "ctxs n d = Some dx" for d dx
      using links_inj [OF node_ok_parts(3) [OF ok] that(2) cx] lookup_registered [OF ok that(1)]
        lookup_registered [OF ok Some] False by auto
    with False q show ?thesis by (auto simp: inbox_def same split: bind_split)
  qed
qed

subsection \<open>Sending\<close>

lemma isremote_eq:
  assumes "node_ok G n"
  shows "skynet_harbor_message_isremote n h = Some (remote_handle n h)"
proof -
  have "HARBOR n AND HANDLE_MASK = 0" using node_ok_parts(1) [OF assms] by (auto simp: table_ok_def slots_ok_def)
  then have "HARBOR n \<noteq> - 1" by (auto simp: HANDLE_MASK_def)
  then show ?thesis by (simp add: skynet_harbor_message_isremote_def remote_handle_def Let_def)
qed

text \<open>The message that \<open>skynet_send\<close> builds.\<close>

definition sent_message :: "ctx_ptr option \<Rightarrow> u32 \<Rightarrow> u32 \<Rightarrow> int \<Rightarrow> payload option \<Rightarrow> u64 \<Rightarrow> node \<Rightarrow> skynet_message" where
  "sent_message context src type ses msg len n = \<lparr>source = source_of context src n, session = session_of context type ses n,
     data = sent_data type msg len, sz = with_type len type\<rparr>"

text \<open>The hypotheses that all calls share.\<close>

definition caller_ok :: "ghost \<Rightarrow> ctx_ptr option \<Rightarrow> u32 \<Rightarrow> u32 \<Rightarrow> int \<Rightarrow> payload option \<Rightarrow> u64 \<Rightarrow> node \<Rightarrow> bool" where
  "caller_ok G context src type ses msg len n \<longleftrightarrow> node_ok G n \<and> (\<forall>c. context = Some c \<longrightarrow> 0 < held G c)
     \<and> send_args_ok context src type ses msg len \<and> source_ok n (source_of context src n)"

lemma caller_alive:
  assumes "caller_ok G context src type ses msg len n" "context = Some c"
  shows "ctxs n c \<noteq> None"
  using assms held_live [of G n c] by (auto simp: caller_ok_def)

lemma source_of_eq:
  assumes call: "caller_ok G context src type ses msg len n" and "context_handle n1 = context_handle n" "dom (ctxs n) \<subseteq> dom (ctxs n1)"
  shows "(if src = 0 then Option.bind context (\<lambda>c. skynet_context_handle c n1) else Some src) = Some (source_of context src n)"
proof (cases "context")
  case None
  with call show ?thesis by (simp add: caller_ok_def send_args_ok_def source_of_def)
next
  case (Some c)
  with caller_alive [OF call] assms(3) obtain cx where "ctxs n1 c = Some cx" by blast
  moreover from this have "context_handle n1 c = cx_handle cx" by (simp add: context_handle_def)
  ultimately show ?thesis using Some assms(2) by (simp add: source_of_def skynet_context_handle_def)
qed

lemma after_session_dom:
  assumes "caller_ok G context src type ses msg len n"
  shows "dom (ctxs n) \<subseteq> dom (ctxs (after_session context type n))"
proof (cases "\<exists>c. context = Some c \<and> allocs type")
  case True
  then obtain c where c: "context = Some c" "allocs type" by blast
  with caller_alive [OF assms] obtain cx where "ctxs n c = Some cx" by blast
  with c show ?thesis by (auto simp: after_session_def newsession_eq)
qed (auto simp: after_session_def split: option.split)

lemma inbox_after_session:
  assumes "caller_ok G context src type ses msg len n"
  shows "inbox (after_session context type n) = inbox n"
proof (cases "\<exists>c. context = Some c \<and> allocs type")
  case True
  then obtain c where c: "context = Some c" "allocs type" by blast
  with caller_alive [OF assms] obtain cx where cx: "ctxs n c = Some cx" by blast
  with c have n1: "after_session context type n = set_ctx c (cx\<lparr>cx_session_id := next_session (cx_session_id cx)\<rparr>) n"
    by (simp add: after_session_def newsession_eq)
  show ?thesis
    unfolding n1 inbox_def using cx by (auto simp: context_handle_set_ctx fun_eq_iff split: bind_split)
qed (auto simp: after_session_def split: option.split)

lemma send_local:
  assumes call: "caller_ok G context src type ses msg len n" and len: "len AND MESSAGE_TYPE_MASK = len"
    and dest: "dest \<noteq> 0" "\<not> remote_handle n dest"
  shows "\<exists>n'. skynet_send sv context src dest type ses msg len n
      = Some (if handle_lookup (context_handle n) (hs n) dest = None then - 1 else session_of context type ses n, n')
    \<and> delivered dest (sent_message context src type ses msg len n) (after_session context type n) n'
    \<and> node_ok G n' \<and> node_le G n n'"
proof -
  let ?n1 = "after_session context type n" and ?m = "sent_message context src type ses msg len n"
  have ok: "node_ok G n" and ctx: "\<And>c. context = Some c \<Longrightarrow> 0 < held G c" using call by (auto simp: caller_ok_def)
  from after_session_ok [OF ok, of "context" type] ctx obtain C where n1: "node_ok G ?n1" "node_le G n ?n1"
    "?n1 = n\<lparr>ctxs := C\<rparr>" "context_handle ?n1 = context_handle n" by auto
  have same: "hs ?n1 = hs n" "HARBOR ?n1 = HARBOR n" "REMOTE ?n1 = REMOTE n" unfolding n1(3) by simp_all
  have args: "filter_args context type ses msg len n
      = Some ((session_of context type ses n, sent_data type msg len, with_type len type), ?n1)"
    using call caller_alive [OF call] by (intro filter_args_eq) (auto simp: caller_ok_def)
  have src: "(if src = 0 then Option.bind context (\<lambda>c. skynet_context_handle c ?n1) else Some src) = Some (source_of context src n)"
    using call n1(4) after_session_dom [OF call] by (rule source_of_eq)
  have "\<not> remote_handle ?n1 dest" using dest(2) same by (simp add: remote_handle_def)
  then have rem: "skynet_harbor_message_isremote ?n1 dest = Some False" using isremote_eq [OF n1(1)] by simp
  have "source_ok ?n1 (source ?m)" using call same by (simp add: source_ok_same [of ?n1 n] caller_ok_def sent_message_def)
  from context_push_ok [OF n1(1) this, of sv dest] obtain n' where n': "skynet_context_push sv dest ?m ?n1
      = Some (if handle_lookup (context_handle n) (hs n) dest = None then - 1 else 0, n')"
    "node_ok G n'" "node_le G ?n1 n'" "delivered dest ?m ?n1 n'" using n1(4) same by auto
  have "skynet_send sv context src dest type ses msg len n
      = Some (if handle_lookup (context_handle n) (hs n) dest = None then - 1 else session_of context type ses n, n')"
    using len dest(1) n'(1) by (simp add: skynet_send_def args src rem sent_message_def)
  with n' node_le_trans [OF n1(2)] show ?thesis by blast
qed

lemma keeps_result: "keeps G n m \<Longrightarrow> keeps G n (map_option snd (Option.bind m (\<lambda>n1. Some (r, n1))))"
  by (auto simp: keeps_def)

lemma context_send_ok:
  assumes ok: "node_ok G n" and c: "ctxs n c = Some cx" and src: "source_ok n src"
  shows "\<exists>n' q. skynet_context_send c msg len src type ses n = Some n' \<and> node_ok G n' \<and> node_le G n n'
    \<and> queue_at n (cx_queue cx) = Some q \<and> queue_at n' = (queue_at n)(cx_queue cx \<mapsto> (mq_enqueue \<lparr>source = src, session = ses,
        data = msg, sz = len OR push_bit MESSAGE_TYPE_SHIFT (ucast type)\<rparr> q)\<lparr>mq_in_global := True\<rparr>)"
proof -
  let ?m = "\<lparr>source = src, session = ses, data = msg, sz = len OR push_bit MESSAGE_TYPE_SHIFT (ucast type)\<rparr>"
  from queue_push_ok [OF ok c, of ?m] src show ?thesis using c by (auto simp: skynet_context_send_def)
qed

lemma harbor_send_ok:
  assumes ok: "node_ok G n" and rem: "REMOTE n \<noteq> None" and len: "len AND MESSAGE_TYPE_MASK = len"
    and type: "type AND 0xff \<noteq> PTYPE_SYSTEM" "type AND 0xff \<noteq> PTYPE_HARBOR"
  shows "keeps G n (skynet_harbor_send nm h msg (with_type len type) src ses n)"
proof -
  from rem obtain c where c: "REMOTE n = Some c" by blast
  with remote_alive [OF node_ok_parts(6) [OF ok]] obtain cx where cx: "ctxs n c = Some cx" by blast
  have "source_ok n src" using c by (simp add: source_ok_def)
  from context_send_ok [OF ok cx this] c type with_type_parts [OF len, of type] show ?thesis
    unfolding skynet_harbor_send_def keeps_def by (fastforce simp: Let_def)
qed

text \<open>A destination that \<open>skynet_send\<close> can reach: a local one, or a remote one when the
  harbor service runs and the type is one it forwards.\<close>

definition reachable_dest :: "u32 \<Rightarrow> u32 \<Rightarrow> node \<Rightarrow> bool" where
  "reachable_dest dest type n \<longleftrightarrow> remote_handle n dest \<longrightarrow>
     REMOTE n \<noteq> None \<and> type AND 0xff \<noteq> PTYPE_SYSTEM \<and> type AND 0xff \<noteq> PTYPE_HARBOR"

lemma send_ok:
  assumes call: "caller_ok G context src type ses msg len n" and dest: "reachable_dest dest type n"
  shows "keeps G n (map_option snd (skynet_send sv context src dest type ses msg len n))"
proof (cases "len AND MESSAGE_TYPE_MASK = len")
  case False
  have ok: "node_ok G n" using call by (simp add: caller_ok_def)
  have "keeps G n (skynet_error sv context (''The message to '' @ print_hex dest @ '' is too large'') n)"
    by (rule skynet_error_ok [OF ok]) (rule caller_alive [OF call])
  from keeps_result [OF this] False show ?thesis by (simp only: skynet_send_def if_True not_not simp_thms)
next
  case len: True
  let ?n1 = "after_session context type n"
  have ok: "node_ok G n" and ctx: "\<And>c. context = Some c \<Longrightarrow> 0 < held G c" using call by (auto simp: caller_ok_def)
  from after_session_ok [OF ok, of "context" type] ctx obtain C where n1: "node_ok G ?n1" "node_le G n ?n1"
    "?n1 = n\<lparr>ctxs := C\<rparr>" "context_handle ?n1 = context_handle n" by auto
  have args: "filter_args context type ses msg len n
      = Some ((session_of context type ses n, sent_data type msg len, with_type len type), ?n1)"
    using call caller_alive [OF call] by (intro filter_args_eq) (auto simp: caller_ok_def)
  have src: "(if src = 0 then Option.bind context (\<lambda>c. skynet_context_handle c ?n1) else Some src) = Some (source_of context src n)"
    using call n1(4) after_session_dom [OF call] by (rule source_of_eq)
  have remh: "remote_handle ?n1 = remote_handle n" "REMOTE ?n1 = REMOTE n"
    unfolding n1(3) by (simp_all add: remote_handle_def [abs_def])
  consider (zero) "dest = 0" | (local) "dest \<noteq> 0" "\<not> remote_handle n dest" | (remote) "dest \<noteq> 0" "remote_handle n dest" by blast
  then show ?thesis
  proof cases
    case zero
    then show ?thesis using len n1(1,2) by (simp add: skynet_send_def args src keeps_def)
  next
    case local
    from send_local [OF call len local, of sv] show ?thesis by (auto simp: keeps_def)
  next
    case remote
    with dest have r: "REMOTE ?n1 \<noteq> None" "type AND 0xff \<noteq> PTYPE_SYSTEM" "type AND 0xff \<noteq> PTYPE_HARBOR"
      using remh by (auto simp: reachable_dest_def)
    have "skynet_harbor_message_isremote ?n1 dest = Some True" using isremote_eq [OF n1(1)] remote remh by simp
    with keeps_result [OF keeps_trans [OF harbor_send_ok [OF n1(1) r(1) len r(2,3)] n1(2)]] len remote(1) show ?thesis
      by (simp add: skynet_send_def args src)
  qed
qed

end
