(* ===== verification/Log.thy ===== *)
theory Log
  imports Sending
begin

section \<open>Message log (\<open>skynet_log.c\<close>)\<close>

text \<open>
  A service can have a log file, to which the node writes every message that the service
  receives. The model keeps the text that has been written to each open stream. Reading
  outside a message is \<open>None\<close>, so that the conditions under which a message can be logged
  are visible.
\<close>

subsection \<open>Definitions\<close>

definition fprintf :: "file_ptr \<Rightarrow> string \<Rightarrow> node \<Rightarrow> node option" where
  "fprintf f text n = map_option (\<lambda>s. n\<lparr>files := (files n)(f \<mapsto> s @ text)\<rparr>) (files n f)"

definition log_name :: "string \<Rightarrow> u32 \<Rightarrow> string" where
  "log_name logpath handle = logpath @ ''/'' @ pad_left 8 (print_hex handle) @ ''.log''"

text \<open>The operating system decides whether the file can be opened; the stream gets a fresh
  address.\<close>

definition skynet_log_open :: "services \<Rightarrow> ctx_ptr \<Rightarrow> u32 \<Rightarrow> node \<Rightarrow> (file_ptr option \<times> node) option" where
  "skynet_log_open sv c handle n =
     (case skynet_getenv (nd_env n) ''logpath'' of
        None \<Rightarrow> Some (None, n)
      | Some logpath \<Rightarrow>
          (let tmp = log_name logpath handle
           in if sv_fopen sv tmp then
                (let f = brk n;
                     n1 = n\<lparr>files := (files n)(f \<mapsto> []), brk := Suc (brk n)\<rparr>;
                     currenttime = skynet_now (nd_timer n1);
                     ti = ucast (skynet_starttime (nd_timer n1)) + currenttime div 100
                 in do {
                      n2 \<leftarrow> skynet_error sv (Some c) (''Open log file '' @ tmp) n1;
                      n3 \<leftarrow> fprintf f (''open time: '' @ print_dec (uint (ucast currenttime :: u32)) @ '' ''
                              @ sv_ctime sv (sint (ti :: u64))) n2;
                      Some (Some f, n3) })
              else do {
                n1 \<leftarrow> skynet_error sv (Some c) (''Open log file '' @ tmp @ '' fail'') n;
                Some (None, n1) }))"

definition skynet_log_close :: "services \<Rightarrow> ctx_ptr \<Rightarrow> file_ptr \<Rightarrow> u32 \<Rightarrow> node \<Rightarrow> node option" where
  "skynet_log_close sv c f handle n = do {
     n1 \<leftarrow> skynet_error sv (Some c) (''Close log file :'' @ pad_left 8 (print_hex handle)) n;
     n2 \<leftarrow> fprintf f (''close time: '' @ print_dec (uint (ucast (skynet_now (nd_timer n1)) :: u32)) @ [CHR 0x0a]) n1;
     fclose f n2 }"

definition byte_hex :: "byte \<Rightarrow> string" where
  "byte_hex b = pad_left 2 (print_base 16 (unat b))"

definition log_blob :: "file_ptr \<Rightarrow> byte list \<Rightarrow> u64 \<Rightarrow> node \<Rightarrow> node option" where
  "log_blob f buf len n =
     (if unat len \<le> length buf then fprintf f (concat (map byte_hex (take (unat len) buf))) n else None)"

text \<open>The memory that a message points to.\<close>

fun memory_of :: "services \<Rightarrow> payload option \<Rightarrow> byte list" where
  "memory_of sv None = []"
| "memory_of sv (Some (Bytes b)) = b"
| "memory_of sv (Some d) = sv_bytes sv d"

text \<open>The conversion \<open>%*s\<close> pads to the width, and reads the string up to its zero byte, which
  must therefore be in the block.\<close>

definition print_width :: "nat \<Rightarrow> byte list \<Rightarrow> string option" where
  "print_width w b =
     (if 0 \<in> set b then let s = map (\<lambda>x. char_of (unat x)) (takeWhile (\<lambda>x. x \<noteq> 0) b) in Some (replicate (w - length s) CHR '' '' @ s)
      else None)"

definition log_socket :: "file_ptr \<Rightarrow> payload option \<Rightarrow> u64 \<Rightarrow> node \<Rightarrow> node option" where
  "log_socket f message len n =
     (case message of
        Some (Socket_message ty i ud buf pad) \<Rightarrow> do {
          n1 \<leftarrow> fprintf f (''[socket] '' @ print_dec ty @ '' '' @ print_dec i @ '' '' @ print_dec ud @ '' '') n;
          n2 \<leftarrow> (case buf of
              None \<Rightarrow>
                (let len1 = unat (len - SOCKET_MESSAGE_SIZE)
                 in if len1 \<le> length pad then do {
                      let eol = takeWhile (\<lambda>x. x \<noteq> 0) (take len1 pad);
                      s \<leftarrow> print_width (length eol) pad;
                      fprintf f (''['' @ s @ '']'') n1 }
                    else None)
            | Some b \<Rightarrow> log_blob f b (word_of_int ud) n1);
          fprintf f [CHR 0x0a] n2 }
      | _ \<Rightarrow> None)"

definition skynet_log_output ::
  "services \<Rightarrow> file_ptr \<Rightarrow> u32 \<Rightarrow> int \<Rightarrow> int \<Rightarrow> payload option \<Rightarrow> u64 \<Rightarrow> node \<Rightarrow> node option" where
  "skynet_log_output sv f src type ses buffer len n =
     (if type = uint PTYPE_SOCKET then log_socket f buffer len n
      else do {
        let ti = (ucast (skynet_now (nd_timer n)) :: u32);
        n1 \<leftarrow> fprintf f (CHR '':'' # pad_left 8 (print_hex src) @ '' '' @ print_dec type @ '' '' @ print_dec ses
                @ '' '' @ print_dec (uint ti) @ '' '') n;
        n2 \<leftarrow> log_blob f (memory_of sv buffer) len n1;
        fprintf f [CHR 0x0a] n2 })"

subsection \<open>The invariant\<close>

text \<open>A message that can be logged: the size does not exceed the block, and a socket message
  is one, with a zero byte after the structure when it has no buffer.\<close>

definition socket_readable :: "payload option \<Rightarrow> u64 \<Rightarrow> bool" where
  "socket_readable d len \<longleftrightarrow> (case d of
     Some (Socket_message ty i ud None pad) \<Rightarrow> unat (len - SOCKET_MESSAGE_SIZE) \<le> length pad \<and> 0 \<in> set pad
   | Some (Socket_message ty i ud (Some b) pad) \<Rightarrow> unat (word_of_int ud :: u64) \<le> length b
   | _ \<Rightarrow> False)"

definition loggable :: "services \<Rightarrow> skynet_message \<Rightarrow> bool" where
  "loggable sv m \<longleftrightarrow> (let len = sz m AND MESSAGE_TYPE_MASK in
     if drop_bit MESSAGE_TYPE_SHIFT (sz m) = ucast PTYPE_SOCKET then socket_readable (data m) len
     else unat len \<le> length (memory_of sv (data m)))"

text \<open>Writing changes the text of an open stream only.\<close>

definition wrote :: "file_ptr \<Rightarrow> node \<Rightarrow> node option \<Rightarrow> bool" where
  "wrote f n r \<longleftrightarrow> (\<exists>s. r = Some (n\<lparr>files := (files n)(f \<mapsto> s)\<rparr>))"

lemma fprintf_wrote: "files n f \<noteq> None \<Longrightarrow> wrote f n (fprintf f text n)"
  by (auto simp: fprintf_def wrote_def)

lemma wrote_bind:
  assumes "wrote f n r" "\<And>n1. files n1 f \<noteq> None \<Longrightarrow> wrote f n1 (g n1)"
  shows "wrote f n (Option.bind r g)"
proof -
  from assms(1) obtain s where r: "r = Some (n\<lparr>files := (files n)(f \<mapsto> s)\<rparr>)" by (auto simp: wrote_def)
  with assms(2) [of "n\<lparr>files := (files n)(f \<mapsto> s)\<rparr>"] show ?thesis by (auto simp: wrote_def)
qed

lemma log_blob_wrote: "files n f \<noteq> None \<Longrightarrow> unat len \<le> length b \<Longrightarrow> wrote f n (log_blob f b len n)"
  by (simp add: log_blob_def fprintf_wrote)

lemma log_socket_wrote:
  assumes "files n f \<noteq> None" "socket_readable d len"
  shows "wrote f n (log_socket f d len n)"
proof -
  from assms(2) obtain ty i ud buf pad where d: "d = Some (Socket_message ty i ud buf pad)"
    by (auto simp: socket_readable_def split: option.splits payload.splits)
  show ?thesis
  proof (cases buf)
    case None
    with assms d show ?thesis
      by (auto simp: log_socket_def socket_readable_def print_width_def Let_def intro!: wrote_bind fprintf_wrote)
  next
    case (Some b)
    with assms d show ?thesis
      by (auto simp: log_socket_def socket_readable_def intro!: wrote_bind fprintf_wrote log_blob_wrote)
  qed
qed

lemma type_is_socket:
  "uint (drop_bit MESSAGE_TYPE_SHIFT l) = uint PTYPE_SOCKET \<longleftrightarrow> drop_bit MESSAGE_TYPE_SHIFT (l :: u64) = ucast PTYPE_SOCKET"
proof -
  have "uint PTYPE_SOCKET = uint (ucast PTYPE_SOCKET :: u64)" by (simp add: PTYPE_SOCKET_def)
  then show ?thesis by (metis word_uint_eqI)
qed

lemma log_output_wrote:
  assumes "files n f \<noteq> None" "loggable sv m"
  shows "wrote f n (skynet_log_output sv f (source m) (uint (drop_bit MESSAGE_TYPE_SHIFT (sz m))) (session m) (data m)
    (sz m AND MESSAGE_TYPE_MASK) n)"
  using assms unfolding skynet_log_output_def type_is_socket loggable_def Let_def
  by (auto intro!: wrote_bind fprintf_wrote log_blob_wrote log_socket_wrote)

lemma files_grow:
  assumes ok: "files_ok G n" and F: "\<And>f. files n f \<noteq> None \<Longrightarrow> F f \<noteq> None"
  shows "files_ok G (set_files F b n)"
  unfolding files_ok_def
proof (intro allI impI conjI)
  fix d dx f assume d: "ctxs (set_files F b n) d = Some dx" "cx_logfile dx = Some f" "d \<notin> dying G"
  then have dn: "ctxs n d = Some dx" by simp
  note fo = files_okD [OF ok dn d(2,3)]
  show "files (set_files F b n) f \<noteq> None" using F [OF fo(1)] by simp
  show "e = d" if "ctxs (set_files F b n) e = Some ex" "cx_logfile ex = Some f" "e \<notin> dying G" for e ex
    using fo(2) that by simp
qed

lemma wrote_keeps:
  assumes ok: "node_ok G n" and f: "files n f \<noteq> None" and r: "wrote f n r"
  shows "keeps G n r"
proof -
  from r obtain t where t: "r = Some (n\<lparr>files := (files n)(f \<mapsto> t)\<rparr>)" by (auto simp: wrote_def)
  let ?F = "(files n)(f \<mapsto> t)"
  have "files_ok G (set_files ?F (brk n) n)"
    by (rule files_grow [OF node_ok_parts(4) [OF ok]]) auto
  from set_files_ok [OF ok this] alloc_files [OF ok] f show ?thesis
    by (auto simp: t keeps_def split: if_splits)
qed

text \<open>The log file of a context is set to a stream that no other context has, or cleared.\<close>

definition unused_file :: "ghost \<Rightarrow> node \<Rightarrow> file_ptr \<Rightarrow> bool" where
  "unused_file G n f \<longleftrightarrow> files n f \<noteq> None \<and> (\<forall>d dx. ctxs n d = Some dx \<longrightarrow> cx_logfile dx = Some f \<longrightarrow> d \<in> dying G)"

lemma set_logfile_ok:
  assumes ok: "node_ok G n" and c: "ctxs n c = Some cx" "0 < cx_ref cx"
    and lf: "\<And>f. lf = Some f \<Longrightarrow> unused_file G n f"
  shows "keeps G n (Some (set_ctx c (cx\<lparr>cx_logfile := lf\<rparr>) n))"
proof -
  from ok obtain ps where parts: "table_ok n" "refs_ok G n" "links_ok n" "sched_ok G ps n" "files_ok G n" "alloc_ok n"
    "remote_ok n" "modules_ok (nd_modules n)" by (rule node_okE)
  let ?cx = "cx\<lparr>cx_logfile := lf\<rparr>"
  let ?n = "set_ctx c ?cx n"
  have le: "context_le cx ?cx" by (simp add: context_le_def)
  note upd = set_ctx_parts [OF c(1) le]
  have ref: "cx_ref ?cx = int (held G c + fixed_refs n c)" using refs_Some [OF parts(2) c(1)] by simp
  have "files_ok G ?n"
    unfolding files_ok_def
  proof (intro allI impI conjI)
    fix d dx f assume d: "ctxs ?n d = Some dx" "cx_logfile dx = Some f" "d \<notin> dying G"
    show "files ?n f \<noteq> None"
      using d lf [of f] files_okD(1) [OF parts(5), of d dx f] by (cases "d = c") (auto simp: unused_file_def)
    fix e ex assume e: "ctxs ?n e = Some ex" "cx_logfile ex = Some f" "e \<notin> dying G"
    show "e = d"
      using d e lf [of f] files_okD(2) [OF parts(5), of d dx f e ex]
      by (cases "d = c"; cases "e = c") (auto simp: unused_file_def)
  qed
  then have "node_ok G ?n"
    using upd(1) [OF parts(1)] set_ctx_refs [OF c(1) parts(2) ref _ c(2)] upd(2) [OF parts(3)] upd(3) [OF parts(4)]
      upd(4) [OF parts(6)] upd(5) [OF parts(7)] parts(8) c(2) by (intro node_okI) simp_all
  then show ?thesis using set_ctx_le [OF c(1) le] by (simp add: keeps_def)
qed

lemma fclose_unused_ok:
  assumes ok: "node_ok G n" and f: "unused_file G n f"
  shows "keeps G n (fclose f n)"
proof -
  let ?F = "(files n)(f := None)"
  have "files_ok G (set_files ?F (brk n) n)"
    unfolding files_ok_def
  proof (intro allI impI conjI)
    fix d dx g assume d: "ctxs (set_files ?F (brk n) n) d = Some dx" "cx_logfile dx = Some g" "d \<notin> dying G"
    then have dn: "ctxs n d = Some dx" by simp
    note fo = files_okD [OF node_ok_parts(4) [OF ok] dn d(2,3)]
    show "files (set_files ?F (brk n) n) g \<noteq> None" using fo(1) f dn d(2,3) by (auto simp: unused_file_def)
    show "e = d" if "ctxs (set_files ?F (brk n) n) e = Some ex" "cx_logfile ex = Some g" "e \<notin> dying G" for e ex
      using fo(2) that by simp
  qed
  from set_files_ok [OF ok this] alloc_files [OF ok] f show ?thesis
    by (auto simp: fclose_def unused_file_def keeps_def split: if_splits)
qed

lemma log_open_ok:
  assumes ok: "node_ok G n" and c: "ctxs n c \<noteq> None"
  shows "\<exists>r n'. skynet_log_open sv c h n = Some (r, n') \<and> node_ok G n' \<and> node_le G n n' \<and> ctxs n' = ctxs n
    \<and> (\<forall>f. r = Some f \<longrightarrow> unused_file G n' f)"
proof (cases "skynet_getenv (nd_env n) ''logpath''")
  case None
  with ok show ?thesis by (simp add: skynet_log_open_def)
next
  case (Some logpath)
  let ?tmp = "log_name logpath h"
  show ?thesis
  proof (cases "sv_fopen sv ?tmp")
    case False
    from skynet_error_sends [OF ok, of "Some c" sv "''Open log file '' @ ?tmp @ '' fail''"] c False Some show ?thesis
      by (auto simp: skynet_log_open_def Let_def)
  next
    case True
    let ?n1 = "set_files ((files n)(brk n \<mapsto> [])) (Suc (brk n)) n"
    have old: "f < brk n" if "files n f \<noteq> None" for f using alloc_files [OF ok that] .
    have "files_ok G ?n1" by (rule files_grow [OF node_ok_parts(4) [OF ok]]) auto
    note n1 = set_files_ok [OF ok this]
    have "f < Suc (brk n)" if "((files n)(brk n \<mapsto> [])) f \<noteq> None" for f
      using that old [of f] by (cases "f = brk n") (simp_all add: less_SucI)
    note n1 = n1 [OF _ this, simplified]
    from skynet_error_sends [OF n1(1), of "Some c" sv "''Open log file '' @ ?tmp"] c obtain l s where
      n2: "skynet_error sv (Some c) (''Open log file '' @ ?tmp) ?n1 = Some (?n1\<lparr>logger := l, mqst := s\<rparr>)"
        "node_ok G (?n1\<lparr>logger := l, mqst := s\<rparr>)" "node_le G ?n1 (?n1\<lparr>logger := l, mqst := s\<rparr>)" by auto
    let ?n2 = "?n1\<lparr>logger := l, mqst := s\<rparr>"
    have unused: "d \<in> dying G" if "ctxs n d = Some dx" "cx_logfile dx = Some (brk n)" for d dx
      using files_okD(1) [OF node_ok_parts(4) [OF ok] that] old [of "brk n"] by blast
    have f: "files ?n2 (brk n) \<noteq> None" by simp
    let ?now = "skynet_now (nd_timer n)"
    let ?tx = "''open time: '' @ print_dec (uint (ucast ?now :: u32)) @ '' ''
      @ sv_ctime sv (sint (ucast (skynet_starttime (nd_timer n)) + ?now div 100 :: u64))"
    from fprintf_wrote [OF f, of ?tx] obtain t where
      t: "fprintf (brk n) ?tx ?n2 = Some (?n2\<lparr>files := (files ?n2)(brk n \<mapsto> t)\<rparr>)" (is "_ = Some ?n3") by (auto simp: wrote_def)
    from wrote_keeps [OF n2(2) f fprintf_wrote [OF f, of ?tx]] t have n3: "node_ok G ?n3" "node_le G ?n2 ?n3"
      by (simp_all add: keeps_def)
    have "skynet_log_open sv c h n = Some (Some (brk n), ?n3)"
      using Some True n2(1) t by (simp add: skynet_log_open_def Let_def)
    moreover have "node_le G n ?n3" using n1(2) n2(3) n3(2) by (blast intro: node_le_trans)
    ultimately show ?thesis using n3(1) unused by (auto simp: unused_file_def)
  qed
qed

lemma log_close_ok:
  assumes ok: "node_ok G n" and c: "ctxs n c \<noteq> None" and f: "unused_file G n f"
  shows "keeps G n (skynet_log_close sv c f h n)"
proof -
  let ?msg = "''Close log file :'' @ pad_left 8 (print_hex h)"
  from skynet_error_sends [OF ok, of "Some c" sv ?msg] c obtain l s where
    n1: "skynet_error sv (Some c) ?msg n = Some (n\<lparr>logger := l, mqst := s\<rparr>)" "node_ok G (n\<lparr>logger := l, mqst := s\<rparr>)"
      "node_le G n (n\<lparr>logger := l, mqst := s\<rparr>)" by auto
  let ?n1 = "n\<lparr>logger := l, mqst := s\<rparr>"
  let ?text = "''close time: '' @ print_dec (uint (ucast (skynet_now (nd_timer ?n1)) :: u32)) @ [CHR 0x0a]"
  have f1: "files ?n1 f \<noteq> None" using f by (simp add: unused_file_def)
  from fprintf_wrote [OF f1, of ?text] obtain t where
    t: "fprintf f ?text ?n1 = Some (?n1\<lparr>files := (files ?n1)(f \<mapsto> t)\<rparr>)" (is "_ = Some ?n2") by (auto simp: wrote_def)
  from wrote_keeps [OF n1(2) f1 fprintf_wrote [OF f1, of ?text]] t have n2: "node_ok G ?n2" "node_le G ?n1 ?n2"
    by (simp_all add: keeps_def)
  have "unused_file G ?n2 f" using f by (simp add: unused_file_def)
  from keeps_trans [OF fclose_unused_ok [OF n2(1) this] node_le_trans [OF n1(3) n2(2)]]
  show ?thesis using n1(1) t by (simp add: skynet_log_close_def)
qed

end
