(* ===== verification/Lifecycle.thy ===== *)
theory Lifecycle
  imports Sending
begin

section \<open>Launching and removing services\<close>

text \<open>
  The queue of a service that is gone is dropped: every message in it is answered with an
  error to its sender, and the queue is freed. Launching creates a context with two
  references and a queue that the launching function owns; both are given up at the end,
  and a failed launch leaves nothing behind. All of this keeps the invariant of the node.
\<close>

subsection \<open>Popping a queue, and freeing a released one\<close>

lemma mq_pop_in_global:
  "mq_inv q \<Longrightarrow> mq_in_global (snd (skynet_mq_pop q)) \<longleftrightarrow> mq_in_global q \<and> mq_contents q \<noteq> []"
  by (cases "mq_head q = mq_tail q")
    (auto simp: mq_pop_empty mq_contents_Nil_iff skynet_mq_pop_def Let_def split: prod.split)

lemma pop_ok:
  assumes ok: "node_ok G n" and q: "queue_at n p = Some q" and own: "mq_release q \<or> p \<in> owned G"
    and init: "\<And>c cx. \<not> mq_release q \<Longrightarrow> ctxs n c = Some cx \<Longrightarrow> cx_queue cx = p \<Longrightarrow> ready n c cx"
  defines "B \<equiv> (if mq_contents q = [] \<and> \<not> mq_release q then owned G - {p} else owned G)"
  shows "\<exists>n' q'. mq_pop_at p n = Some (fst (list_pop (mq_contents q)), n') \<and> node_ok (G\<lparr>owned := B\<rparr>) n' \<and> (\<exists>s. n' = set_mq s n)
    \<and> queue_at n' = (queue_at n)(p \<mapsto> q') \<and> mq_contents q' = snd (list_pop (mq_contents q)) \<and> mq_release q' = mq_release q
    \<and> mq_handle q' = mq_handle q"
proof -
  from ok obtain ps where sched: "sched_ok G ps n" by (rule node_okE)
  note owner = links_owner [OF node_ok_parts(3) [OF ok] q]
  from mq_pop_view [OF sched_rep(1) [OF sched] q] obtain s where
    s: "mq_pop_at p n = Some (fst (skynet_mq_pop q), set_mq s n)" "gq_rep s ps"
      "mq_view s = (queue_at n)(p \<mapsto> snd (skynet_mq_pop q))" by blast
  let ?q = "snd (skynet_mq_pop q)"
  have pop: "fst (skynet_mq_pop q) = fst (list_pop (mq_contents q))" "mq_contents ?q = snd (list_pop (mq_contents q))"
    using mq_pop_spec [of q] owner by (auto simp: prod_eq_iff)
  have sub: "set (mq_contents ?q) \<subseteq> set (mq_contents q)"
    unfolding pop(2) by (cases "mq_contents q") (auto simp: list_pop_def)
  have glob: "mq_in_global ?q \<longleftrightarrow> mq_in_global q \<and> mq_contents q \<noteq> []" using mq_pop_in_global owner by blast
  have same: "mq_release ?q = mq_release q" "mq_handle ?q = mq_handle q" by (simp_all add: mq_pop_fields)
  note iff = sched_iff [OF sched q] and disj = sched_rep(2) [OF sched]
  have "node_ok (G\<lparr>owned := B\<rparr>) (set_mq s n)"
  proof (rule set_queue_ok [OF ok sched q s(2,3)])
    show "mq_inv ?q" using owner by (simp add: mq_pop_inv)
    show "set ps \<union> B = (if mq_in_global ?q \<or> mq_release ?q then insert p (set ps \<union> owned G) else set ps \<union> owned G - {p})"
      using iff own disj unfolding same glob B_def by (cases "mq_contents q = [] \<and> \<not> mq_release q") auto
    show "ready n c cx" if "p \<notin> B" "ctxs n c = Some cx" "cx_queue cx = p" for c cx
      using that init [OF _ that(2,3)] sched_init [OF sched that(2)] by (auto simp: B_def split: if_splits)
    show "mq_in_global ?q \<or> mq_release ?q" if "mq_contents ?q \<noteq> []"
      using that iff pop(2) unfolding same glob by (auto simp: list_pop_def split: list.splits)
  qed (use disj sub same in \<open>auto simp: B_def\<close>)
  then show ?thesis
    using s pop same by (intro exI [of _ "set_mq s n"] exI [of _ ?q]) auto
qed

lemma pop_released_ok:
  assumes ok: "node_ok G n" and q: "queue_at n p = Some q" "mq_release q"
  shows "\<exists>n' q'. mq_pop_at p n = Some (fst (list_pop (mq_contents q)), n') \<and> node_ok G n' \<and> (\<exists>s. n' = set_mq s n)
    \<and> queue_at n' = (queue_at n)(p \<mapsto> q') \<and> mq_contents q' = snd (list_pop (mq_contents q)) \<and> mq_release q'
    \<and> mq_handle q' = mq_handle q"
  using pop_ok [OF ok q(1)] q(2) by simp

lemma free_queue_links:
  assumes links: "links_ok n" and view: "mq_view s = (queue_at n)(p := None)" and q: "queue_at n p = Some q" "mq_release q"
  shows "links_ok (set_mq s n)"
proof (rule links_okI)
  fix c cx assume c: "ctxs (set_mq s n) c = Some cx"
  with links_queue [OF links, of c cx] q have "cx_queue cx \<noteq> p" by auto
  with links_queue [OF links, of c cx] c
  show "\<exists>r. queue_at (set_mq s n) (cx_queue cx) = Some r \<and> \<not> mq_release r \<and> mq_handle r = cx_handle cx"
    by (simp add: view)
next
  fix p' r assume "queue_at (set_mq s n) p' = Some r"
  with links_owner [OF links, of p' r]
  show "mq_inv r \<and> mq_handle r \<noteq> 0 \<and> mq_handle r AND NOT HANDLE_MASK = HARBOR (set_mq s n)
    \<and> (mq_release r \<or> (\<exists>c cx. ctxs (set_mq s n) c = Some cx \<and> cx_queue cx = p'))"
    by (auto simp: view split: if_splits)
qed (use links_inj [OF links] in simp)

lemma free_queue_sched:
  assumes sched: "sched_ok G ps n" and view: "mq_view s = (queue_at n)(p := None)" "gq_rep s ps"
    and noctx: "\<And>c cx. ctxs n c = Some cx \<Longrightarrow> cx_queue cx \<noteq> p" and p: "p \<in> owned G"
  shows "sched_ok (G\<lparr>owned := owned G - {p}\<rparr>) ps (set_mq s n)"
proof (rule sched_okI)
  let ?G = "G\<lparr>owned := owned G - {p}\<rparr>"
  show "(mq_in_global r \<or> mq_release r \<longleftrightarrow> p' \<in> set ps \<union> owned ?G) \<and> (mq_contents r \<noteq> [] \<longrightarrow> mq_in_global r \<or> mq_release r)"
    if "queue_at (set_mq s n) p' = Some r" for p' r
    using that sched_iff [OF sched, of p' r] by (auto simp: view(1) split: if_splits)
  show "ready (set_mq s n) c cx \<or> cx_queue cx \<in> owned ?G" if "ctxs (set_mq s n) c = Some cx" for c cx
    using that sched_init [OF sched, of c cx] noctx [of c cx] by simp
  show "owned ?G \<subseteq> dom (queue_at (set_mq s n))" using sched_dom [OF sched] by (auto simp: view(1))
qed (use view(2) sched_rep(2) [OF sched] in auto)

lemma free_queue_ok:
  assumes ok: "node_ok G n" and q: "queue_at n p = Some q" "mq_release q" and own: "p \<in> owned G"
  shows "\<exists>s. mq_free p (mqst n) = Some s \<and> node_ok (G\<lparr>owned := owned G - {p}\<rparr>) (set_mq s n)
    \<and> mq_view s = (queue_at n)(p := None)"
proof -
  from ok obtain ps where sched: "sched_ok G ps n" by (rule node_okE)
  note parts = node_ok_parts [OF ok]
  have pps: "p \<notin> set ps" using sched_rep(2) [OF sched] own by blast
  from q(1) obtain r where r: "mqs (mqst n) p = Some r" unfolding queue_at_def by (rule mq_view_raw)
  have nn: "mq_next r = None" using sched_rep(1) [OF sched] r pps by (auto simp: gq_rep_def)
  let ?s = "(mqst n)\<lparr>mqs := (mqs (mqst n))(p := None)\<rparr>"
  have view: "mq_view ?s = (queue_at n)(p := None)" by (auto simp: mq_view_def queue_at_def fun_eq_iff)
  have rep: "gq_rep ?s ps" using sched_rep(1) [OF sched] pps by (auto simp: gq_rep_def)
  have noctx: "cx_queue cx \<noteq> p" if "ctxs n c = Some cx" for c cx using links_queue [OF parts(3) that] q by auto
  have "node_ok (G\<lparr>owned := owned G - {p}\<rparr>) (set_mq ?s n)"
  proof (rule set_mq_ok [OF ok free_queue_links [OF parts(3) view q] free_queue_sched [OF sched view rep noctx own]])
    show "\<not> remote_handle n (source m)" if "REMOTE n = None" "mq_view ?s p' = Some r" "m \<in> set (mq_contents r)" for p' r m
      using that remote_local [OF parts(6) that(1), of p' r m] by (auto simp: view split: if_splits)
  qed (auto simp: view split: if_splits)
  moreover have "mq_free p (mqst n) = Some ?s" using r nn by (simp add: mq_free_def)
  ultimately show ?thesis using view by blast
qed

subsection \<open>Dropping a queue\<close>

text \<open>What the sender of a dropped message gets.\<close>

definition error_reply :: "u32 \<Rightarrow> skynet_message" where
  "error_reply handle = \<lparr>source = handle, session = 0, data = None, sz = with_type 0 PTYPE_ERROR\<rparr>"

text \<open>The handle of a queue, as far as answers in its name need it.\<close>

definition own_handle :: "node \<Rightarrow> u32 \<Rightarrow> bool" where
  "own_handle n h \<longleftrightarrow> h \<noteq> 0 \<and> h AND NOT HANDLE_MASK = HARBOR n"

lemma own_handle_caller:
  assumes "node_ok G n" "own_handle n h"
  shows "caller_ok G None h PTYPE_ERROR 0 None 0 n"
  using assms
  by (simp add: caller_ok_def send_args_ok_def source_of_def source_ok_def remote_handle_def own_handle_def
      allocs_def PTYPE_ERROR_def PTYPE_TAG_ALLOCSESSION_def)

lemma PTYPE_ERROR_type: "PTYPE_ERROR AND 0xff \<noteq> PTYPE_SYSTEM" "PTYPE_ERROR AND 0xff \<noteq> PTYPE_HARBOR"
  by (simp_all add: PTYPE_ERROR_def PTYPE_SYSTEM_def PTYPE_HARBOR_def)

lemma drop_message_ok:
  assumes ok: "node_ok G n" and h: "own_handle n h" and src: "source_ok n (source m)"
  shows "keeps G n (drop_message sv h m n)"
proof -
  have "reachable_dest (source m) PTYPE_ERROR n"
    using src PTYPE_ERROR_type by (auto simp: reachable_dest_def source_ok_def)
  from send_ok [OF own_handle_caller [OF ok h] this] h show ?thesis by (simp add: drop_message_def own_handle_def)
qed

lemma inbox_zero:
  assumes "node_ok G n"
  shows "inbox n 0 = None"
proof (rule ccontr)
  assume "inbox n 0 \<noteq> None"
  then obtain c where c: "handle_lookup (context_handle n) (hs n) 0 = Some c" using inbox_iff [OF assms, of 0] by auto
  from lookup_registered [OF assms c] have r: "c \<in> registered (hs n)" "context_handle n c = 0" by simp_all
  from registered_live [OF assms r(1)] obtain cx where cx: "ctxs n c = Some cx" by blast
  with r(2) have "cx_handle cx = 0" by (simp add: context_handle_def)
  with links_queue [OF node_ok_parts(3) [OF assms] cx] links_owner [OF node_ok_parts(3) [OF assms], of "cx_queue cx"]
  show False by auto
qed

lemma drop_message_inbox:
  assumes ok: "node_ok G n" and h: "own_handle n h" and src: "\<not> remote_handle n (source m)"
    and drop: "drop_message sv h m n = Some n'"
  shows "inbox n' h' = (if h' = source m then map_option (\<lambda>ms. ms @ [error_reply h]) (inbox n h') else inbox n h')"
proof (cases "source m = 0")
  case True
  note call = own_handle_caller [OF ok h]
  have "filter_args None PTYPE_ERROR 0 None 0 n = Some ((0, None, with_type 0 PTYPE_ERROR), n)"
    using filter_args_eq [of None h PTYPE_ERROR 0 None 0 n] call
    by (simp add: caller_ok_def session_of_def after_session_def sent_data_def)
  with True drop h have "n' = n" by (auto simp: drop_message_def skynet_send_def own_handle_def split: if_splits)
  with True inbox_zero [OF ok] show ?thesis by simp
next
  case False
  let ?m = "sent_message None h PTYPE_ERROR 0 None 0 n"
  have after: "after_session None PTYPE_ERROR n = n" by (simp add: after_session_def)
  have "?m = error_reply h"
    using h by (simp add: sent_message_def error_reply_def source_of_def session_of_def sent_data_def own_handle_def)
  with send_local [OF own_handle_caller [OF ok h] _ False src, of sv] drop h
  have "delivered (source m) (error_reply h) n n'" by (auto simp: drop_message_def own_handle_def after)
  from delivered_inbox [OF ok this, of h'] show ?thesis by auto
qed

text \<open>The mailboxes do not see a queue that is marked for release.\<close>

lemma inbox_released:
  assumes ok: "node_ok G n" and q: "queue_at n p = Some q" "mq_release q" and n': "n' = set_mq s n" "queue_at n' = (queue_at n)(p := x)"
  shows "inbox n' = inbox n"
proof
  fix h
  have "cx_queue cx \<noteq> p" if "ctxs n c = Some cx" for c cx using links_queue [OF node_ok_parts(3) [OF ok] that] q by auto
  moreover have "ctxs n' = ctxs n" "hs n' = hs n" "context_handle n' = context_handle n"
    by (simp_all add: n'(1) context_handle_def [abs_def])
  ultimately show "inbox n' h = inbox n h" by (auto simp: inbox_def n'(2) split: bind_split)
qed

lemma drop_queue_ok:
  assumes "node_ok G n" "p \<in> owned G" "queue_at n p = Some q" "mq_release q" "mq_contents q = ms" "own_handle n h"
  shows "\<exists>n'. drop_queue sv h p n = Some n' \<and> node_ok (G\<lparr>owned := owned G - {p}\<rparr>) n'
    \<and> node_le (G\<lparr>owned := owned G - {p}\<rparr>) n n' \<and> queue_at n' p = None
    \<and> ((\<forall>m \<in> set ms. \<not> remote_handle n (source m)) \<longrightarrow>
        (\<forall>h'. inbox n' h' = map_option (\<lambda>b. b @ map (\<lambda>m. error_reply h) (filter (\<lambda>m. source m = h') ms)) (inbox n h')))"
  using assms
proof (induction ms arbitrary: n q)
  case Nil
  let ?G = "G\<lparr>owned := owned G - {p}\<rparr>"
  from pop_released_ok [OF Nil(1,3,4)] Nil(5) obtain n1 q1 s1 where n1: "mq_pop_at p n = Some (None, n1)" "node_ok G n1"
    "n1 = set_mq s1 n" "queue_at n1 = (queue_at n)(p \<mapsto> q1)" "mq_release q1" by (auto simp: list_pop_def)
  from free_queue_ok [OF n1(2) _ n1(5) Nil(2)] n1(4) obtain s where s: "mq_free p (mqst n1) = Some s"
    "node_ok ?G (set_mq s n1)" "mq_view s = (queue_at n1)(p := None)" by auto
  have n': "set_mq s n1 = set_mq s n" "queue_at (set_mq s n) = (queue_at n)(p := None)" using n1(3,4) s(3) by simp_all
  have "drop_queue sv h p n = Some (set_mq s n1)" by (subst drop_queue.simps) (simp add: n1(1) s(1))
  moreover have "node_le ?G n (set_mq s n)" by (rule node_leI) (use n' in auto)
  ultimately show ?case
    using s(2,3) inbox_released [OF Nil(1,3,4) refl n'(2)] by (auto simp: n' map_option.identity)
next
  case (Cons m ms)
  let ?G = "G\<lparr>owned := owned G - {p}\<rparr>"
  from pop_released_ok [OF Cons(2,4,5)] Cons(6) obtain n1 q1 s1 where n1: "mq_pop_at p n = Some (Some m, n1)" "node_ok G n1"
    "n1 = set_mq s1 n" "queue_at n1 = (queue_at n)(p \<mapsto> q1)" "mq_contents q1 = ms" "mq_release q1"
    by (auto simp: list_pop_def)
  have own: "own_handle n1 h" using Cons(7) n1(3) by (simp add: own_handle_def)
  have src: "source_ok n1 (source m)"
    using remote_local [OF node_ok_parts(6) [OF Cons(2)] _ Cons(4), of m] Cons(6) n1(3)
    by (auto simp: source_ok_def remote_handle_def)
  from drop_message_ok [OF n1(2) own src, of sv] obtain n2 where n2: "drop_message sv h m n1 = Some n2" "node_ok G n2" "node_le G n1 n2"
    by (auto simp: keeps_def)
  from node_le_queue [OF n2(3) Cons(3), of q1] n1(4,6) have q2: "queue_at n2 p = Some q1" by (auto simp: queue_le_def)
  have harb: "HARBOR n2 = HARBOR n" using node_le_globals [OF n2(3)] n1(3) by simp
  from Cons.IH [OF n2(2) Cons(3) q2 n1(6,5)] Cons(7) harb obtain n' where n': "drop_queue sv h p n2 = Some n'"
    "node_ok ?G n'" "node_le ?G n2 n'" "queue_at n' p = None" "(\<forall>m \<in> set ms. \<not> remote_handle n (source m)) \<longrightarrow>
        (\<forall>h'. inbox n' h' = map_option (\<lambda>b. b @ map (\<lambda>m. error_reply h) (filter (\<lambda>m. source m = h') ms)) (inbox n2 h'))"
    by (auto simp: own_handle_def remote_handle_def)
  have le: "node_le ?G n n'"
  proof -
    have "node_le ?G n n1" unfolding n1(3) by (rule set_queue_le [of _ n p q1]) (use n1(3,4) in auto)
    moreover have "node_le ?G n1 n2" by (rule node_le_mono [OF n2(3)]) auto
    ultimately show ?thesis using n'(3) by (blast intro: node_le_trans)
  qed
  have "inbox n' h' = map_option (\<lambda>b. b @ map (\<lambda>m. error_reply h) (filter (\<lambda>m. source m = h') (m # ms))) (inbox n h')"
    if loc: "\<forall>m' \<in> set (m # ms). \<not> remote_handle n (source m')" for h'
  proof -
    have "inbox n1 = inbox n" by (rule inbox_released [OF Cons(2,4,5) n1(3,4)])
    moreover have "\<not> remote_handle n1 (source m)" using loc n1(3) by (simp add: remote_handle_def)
    ultimately show ?thesis
      using n'(5) loc drop_message_inbox [OF n1(2) own _ n2(1), of h'] by (cases "inbox n h'") auto
  qed
  moreover have "drop_queue sv h p n = Some n'" by (subst drop_queue.simps) (simp add: n1(1) n2(1) n'(1))
  ultimately show ?case using n'(2,4) le by blast
qed

text \<open>Putting a queue back into the global queue.\<close>

lemma give_back_ok:
  assumes ok: "node_ok G n" and p: "p \<in> owned G" and init: "\<And>c cx. ctxs n c = Some cx \<Longrightarrow> cx_queue cx = p \<Longrightarrow> ready n c cx"
  shows "\<exists>s. skynet_globalmq_push p (mqst n) = Some s \<and> node_ok (G\<lparr>owned := owned G - {p}\<rparr>) (set_mq s n) \<and> mq_view s = queue_at n"
proof -
  from ok obtain ps where sched: "sched_ok G ps n" by (rule node_okE)
  from sched_dom [OF sched] p obtain q where q: "queue_at n p = Some q" by auto
  have pps: "p \<notin> set ps" using sched_rep(2) [OF sched] p by blast
  from globalmq_push_view [OF sched_rep(1) [OF sched] _ pps] q obtain s where
    s: "skynet_globalmq_push p (mqst n) = Some s" "gq_rep s (ps @ [p])" "mq_view s = queue_at n"
    unfolding queue_at_def by blast
  then have view: "mq_view s = (queue_at n)(p \<mapsto> q)" using q by (auto simp: fun_eq_iff)
  note iff = sched_iff [OF sched q]
  have "node_ok (G\<lparr>owned := owned G - {p}\<rparr>) (set_mq s n)"
  proof (rule set_queue_ok [OF ok sched q s(2) view refl _ refl])
    show "mq_inv q" using links_owner [OF node_ok_parts(3) [OF ok] q] by blast
    show "set (ps @ [p]) \<union> (owned G - {p}) = (if mq_in_global q \<or> mq_release q then insert p (set ps \<union> owned G)
        else set ps \<union> owned G - {p})" using iff p by auto
    show "set (ps @ [p]) \<inter> (owned G - {p}) = {}" using sched_rep(2) [OF sched] by auto
  qed (use iff init in auto)
  with s show ?thesis by blast
qed

lemma mq_release_ok:
  assumes ok: "node_ok G n" and p: "p \<in> owned G" and h: "own_handle n h"
    and init: "\<And>c cx. ctxs n c = Some cx \<Longrightarrow> cx_queue cx = p \<Longrightarrow> ready n c cx"
  shows "keeps (G\<lparr>owned := owned G - {p}\<rparr>) n (skynet_mq_release sv h p n)"
proof -
  from ok obtain ps where sched: "sched_ok G ps n" by (rule node_okE)
  from sched_dom [OF sched] p obtain q where q: "queue_at n p = Some q" by auto
  then obtain r where r: "mqs (mqst n) p = Some r" "q = r\<lparr>mq_next := None\<rparr>" unfolding queue_at_def by (rule mq_view_raw)
  show ?thesis
  proof (cases "mq_release q")
    case True
    from drop_queue_ok [OF ok p q True refl h, of sv] True r show ?thesis by (auto simp: skynet_mq_release_def keeps_def)
  next
    case False
    from give_back_ok [OF ok p init] obtain s where s: "skynet_globalmq_push p (mqst n) = Some s"
      "node_ok (G\<lparr>owned := owned G - {p}\<rparr>) (set_mq s n)" "mq_view s = queue_at n" by blast
    moreover have "node_le (G\<lparr>owned := owned G - {p}\<rparr>) n (set_mq s n)" by (rule node_leI) (use s(3) in auto)
    ultimately show ?thesis using False r by (auto simp: skynet_mq_release_def keeps_def)
  qed
qed

subsection \<open>Creating a context\<close>

text \<open>There is a free handle, and it is not the reserved handle 0.\<close>

definition can_launch :: "node \<Rightarrow> bool" where
  "can_launch n \<longleftrightarrow> card (registered (hs n)) < 2 ^ 24 \<and>
     (case skynet_handle_register (context_handle n) (brk n) (hs n) of Some (h, s) \<Rightarrow> h \<noteq> 0 | None \<Rightarrow> False)"

definition new_ghost :: "node \<Rightarrow> ghost \<Rightarrow> ghost" where
  "new_ghost n G = G\<lparr>held := (held G)(brk n := 1), owned := insert (Suc (brk n)) (owned G)\<rparr>"

lemma new_ghost_fields [simp]:
  "held (new_ghost n G) = (held G)(brk n := 1)" "owned (new_ghost n G) = insert (Suc (brk n)) (owned G)"
  "dying (new_ghost n G) = dying G"
  by (simp_all add: new_ghost_def)

definition created :: "nat \<Rightarrow> inst_ptr \<Rightarrow> u32 \<Rightarrow> handle_storage \<Rightarrow> node \<Rightarrow> node" where
  "created m inst h s n = context_inc (n\<lparr>brk := brk n + 2, hs := s,
     ctxs := (ctxs n)(brk n \<mapsto> (new_context m inst)\<lparr>cx_handle := h, cx_queue := Suc (brk n)\<rparr>),
     mqst := skynet_mq_create (Suc (brk n)) h (mqst n)\<rparr>)"

lemma created_fields [simp]:
  "hs (created m inst h s n) = s" "REMOTE (created m inst h s n) = REMOTE n" "HARBOR (created m inst h s n) = HARBOR n"
  "ctxs (created m inst h s n) = (ctxs n)(brk n \<mapsto> (new_context m inst)\<lparr>cx_handle := h, cx_queue := Suc (brk n)\<rparr>)"
  "brk (created m inst h s n) = brk n + 2" "files (created m inst h s n) = files n" "nd_modules (created m inst h s n) = nd_modules n"
  "mqst (created m inst h s n) = skynet_mq_create (Suc (brk n)) h (mqst n)"
  "queue_at (created m inst h s n) = (queue_at n)(Suc (brk n) \<mapsto> new_queue h)"
  by (simp_all add: created_def context_inc_def queue_at_def mq_view_def skynet_mq_create_def fun_eq_iff new_queue_def)

lemma brk_fresh:
  assumes "node_ok G n"
  shows "ctxs n (brk n) = None" "queue_at n (Suc (brk n)) = None" "held G (brk n) = 0" "brk n \<notin> registered (hs n)"
    "mqs (mqst n) (Suc (brk n)) = None" "\<And>c cx. ctxs n c = Some cx \<Longrightarrow> cx_queue cx \<noteq> Suc (brk n)" "brk n \<notin> dying G"
proof -
  note parts = node_ok_parts [OF assms]
  show c: "ctxs n (brk n) = None" using parts(5) by (auto simp: alloc_ok_def)
  show q: "queue_at n (Suc (brk n)) = None" using parts(5) unfolding alloc_ok_def by (metis domIff lessI less_asym)
  show "held G (brk n) = 0" "brk n \<notin> dying G" using refs_None [OF parts(2) c] by auto
  show "brk n \<notin> registered (hs n)" using parts(1) c by (auto simp: table_ok_def)
  show "mqs (mqst n) (Suc (brk n)) = None" using q by (simp add: queue_at_def mq_view_dom)
  show "cx_queue cx \<noteq> Suc (brk n)" if "ctxs n c = Some cx" for c cx using links_queue [OF parts(3) that] q by auto
qed

lemma created_table:
  assumes ok: "node_ok G n" and reg: "slots_ok ((context_handle n)(brk n := h)) s" "registered s = insert (brk n) (registered (hs n))"
    "same_names (hs n) s" and h: "h AND NOT HANDLE_MASK = HARBOR n"
  shows "table_ok (created m inst h s n)"
proof -
  note tab = node_ok_parts(1) [OF ok]
  have "context_handle (created m inst h s n) = (context_handle n)(brk n := h)"
    by (simp add: context_handle_def fun_eq_iff)
  moreover have "names_ok s" "harbor s = HARBOR n"
    using tab reg(3) by (simp_all add: table_ok_def names_ok_def same_names_def handle_names_def)
  ultimately show ?thesis using tab reg(1,2) h by (auto simp: table_ok_def)
qed

lemma created_refs:
  assumes ok: "node_ok G n" and reg: "registered s = insert (brk n) (registered (hs n))"
  shows "refs_ok (new_ghost n G) (created m inst h s n)"
proof (rule refs_okI)
  let ?n = "created m inst h s n" and ?G = "new_ghost n G"
  note refs = node_ok_parts(2) [OF ok] and fresh = brk_fresh [OF ok]
  show "held ?G d = 0 \<and> d \<notin> dying ?G" if "ctxs ?n d = None" for d
    using that refs_None [OF refs, of d] by (auto split: if_splits)
  fix d dx assume d: "ctxs ?n d = Some dx"
  have "fixed_refs ?n d = fixed_refs n d" if "d \<noteq> brk n" using that by (simp add: fixed_refs_def reg)
  moreover have "fixed_refs ?n (brk n) = 1" using remote_alive [OF node_ok_parts(6) [OF ok]] fresh(1) by (auto simp: fixed_refs_def reg)
  ultimately show "cx_ref dx = int (held ?G d + fixed_refs ?n d) \<and> (held ?G d + fixed_refs ?n d = 0 \<longleftrightarrow> d \<in> dying ?G)"
    using d refs_Some [OF refs, of d dx] fresh(7) by (cases "d = brk n") (auto simp: new_context_def)
qed

lemma created_links:
  assumes ok: "node_ok G n" and h: "h \<noteq> 0" "h AND NOT HANDLE_MASK = HARBOR n"
  shows "links_ok (created m inst h s n)"
proof (rule links_okI)
  let ?n = "created m inst h s n"
  note links = node_ok_parts(3) [OF ok] and fresh = brk_fresh [OF ok]
  show "\<exists>q. queue_at ?n (cx_queue cx) = Some q \<and> \<not> mq_release q \<and> mq_handle q = cx_handle cx" if "ctxs ?n c = Some cx" for c cx
    using that links_queue [OF links, of c cx] fresh(6) [of c cx] by (cases "c = brk n") (auto simp: new_queue_def)
  show "c = d" if "ctxs ?n c = Some cx" "ctxs ?n d = Some dx" "cx_queue cx = cx_queue dx" for c cx d dx
    using that links_inj [OF links, of c cx d dx] fresh(6) [of c cx] fresh(6) [of d dx] by (auto split: if_splits)
  fix p q assume q: "queue_at ?n p = Some q"
  show "mq_inv q \<and> mq_handle q \<noteq> 0 \<and> mq_handle q AND NOT HANDLE_MASK = HARBOR ?n
    \<and> (mq_release q \<or> (\<exists>c cx. ctxs ?n c = Some cx \<and> cx_queue cx = p))"
  proof (cases "p = Suc (brk n)")
    case True
    then show ?thesis using q h by (auto simp: new_queue_def [of h] new_queue_inv [unfolded new_queue_def])
  next
    case False
    have "ctxs ?n c = Some cx" if "ctxs n c = Some cx" for c cx using that fresh(1) by auto
    moreover have "queue_at n p = Some q" "HARBOR ?n = HARBOR n" using q False by simp_all
    ultimately show ?thesis using links_owner [OF links, of p q] by metis
  qed
qed

lemma created_sched:
  assumes ok: "node_ok G n" and reg: "registered s = insert (brk n) (registered (hs n))"
  shows "\<exists>ps. sched_ok (new_ghost n G) ps (created m inst h s n)"
proof -
  let ?n = "created m inst h s n" and ?G = "new_ghost n G" and ?p = "Suc (brk n)"
  from ok obtain ps where sched: "sched_ok G ps n" by (rule node_okE)
  note fresh = brk_fresh [OF ok]
  have pps: "?p \<notin> set ps \<union> owned G" using sched_dom [OF sched] fresh(2) by (metis domIff subsetD)
  have "gq_rep (mqst ?n) ps"
    using sched_rep(1) [OF sched] pps fresh(5) by (auto simp: gq_rep_def skynet_mq_create_def new_queue_def)
  moreover have "(mq_in_global q \<or> mq_release q \<longleftrightarrow> p \<in> set ps \<union> owned ?G) \<and> (mq_contents q \<noteq> [] \<longrightarrow> mq_in_global q \<or> mq_release q)"
    if "queue_at ?n p = Some q" for p q
    using that sched_iff [OF sched, of p q] by (cases "p = ?p") (auto simp: new_queue_def)
  moreover have "ready ?n c cx \<or> cx_queue cx \<in> owned ?G" if "ctxs ?n c = Some cx" for c cx
    using that sched_init [OF sched, of c cx] reg by (cases "c = brk n") (auto simp: ready_def)
  ultimately have "sched_ok ?G ps ?n"
    using sched_rep(2) [OF sched] sched_dom [OF sched] pps by (intro sched_okI) auto
  then show ?thesis ..
qed

lemma created_files:
  assumes "files_ok G n"
  shows "files_ok (new_ghost n G) (created m inst h s n)"
proof -
  have old: "ctxs n c = Some cx" if "ctxs (created m inst h s n) c = Some cx" "cx_logfile cx = Some f" for c cx f
    using that by (auto simp: new_context_def split: if_splits)
  show ?thesis
    unfolding files_ok_def
  proof (intro allI impI conjI)
    fix c cx f assume c: "ctxs (created m inst h s n) c = Some cx" "cx_logfile cx = Some f" "c \<notin> dying (new_ghost n G)"
    then have d: "c \<notin> dying G" by simp
    note f = files_okD [OF assms old [OF c(1,2)] c(2) d]
    show "files (created m inst h s n) f \<noteq> None" using f(1) by simp
    fix e ex assume e: "ctxs (created m inst h s n) e = Some ex" "cx_logfile ex = Some f" "e \<notin> dying (new_ghost n G)"
    with f(2) [OF old [OF e(1,2)] e(2)] show "e = c" by simp
  qed
qed

lemma created_ok:
  assumes ok: "node_ok G n" and launch: "can_launch n"
  shows "\<exists>h s. context_create m inst n = Some (brk n, created m inst h s n) \<and> node_ok (new_ghost n G) (created m inst h s n)
    \<and> node_le G n (created m inst h s n) \<and> own_handle n h"
proof -
  note parts = node_ok_parts [OF ok] and fresh = brk_fresh [OF ok]
  let ?n1 = "n\<lparr>brk := brk n + 2, ctxs := (ctxs n)(brk n \<mapsto> new_context m inst)\<rparr>"
  have ch: "context_handle ?n1 = context_handle n" using fresh(1) by (auto simp: context_handle_def fun_eq_iff new_context_def)
  have tab: "slots_ok (context_handle n) (hs n)" "harbor (hs n) = HARBOR n" using parts(1) by (simp_all add: table_ok_def)
  from register_spec [OF tab(1) _ fresh(4)] launch obtain h s where
    r: "skynet_handle_register (context_handle n) (brk n) (hs n) = Some (h, s)" "slots_ok ((context_handle n)(brk n := h)) s"
    "registered s = insert (brk n) (registered (hs n))" "same_names (hs n) s" by (auto simp: can_launch_def)
  have h: "h \<noteq> 0" "h AND NOT HANDLE_MASK = HARBOR n"
    using launch r(1) slots_ok_harbor [OF r(2), of "brk n"] r(3,4) tab(2) by (auto simp: can_launch_def same_names_def)
  let ?n = "created m inst h s n"
  from created_sched [OF ok r(3)] obtain ps where sc: "sched_ok (new_ghost n G) ps ?n" by blast
  have f: "files_ok (new_ghost n G) ?n" by (rule created_files [OF parts(4)])
  have a: "alloc_ok ?n" using parts(5) by (simp add: alloc_ok_def) (meson less_SucI)
  have rm: "remote_ok ?n"
  proof (rule remote_okI)
    show "\<not> remote_handle ?n (source x)" if "REMOTE ?n = None" "queue_at ?n p = Some q" "x \<in> set (mq_contents q)" for p q x
      using that remote_local [OF parts(6), of p q x] by (auto simp: remote_handle_def split: if_splits)
  qed (use remote_alive [OF parts(6)] in auto)
  have "node_ok (new_ghost n G) ?n"
    by (rule node_okI [OF created_table [OF ok r(2-4) h(2)] created_refs [OF ok r(3)] created_links [OF ok h] sc f a rm])
      (use parts(7) in simp)
  moreover have "node_le G n ?n" by (rule node_leI) (use fresh(1,2) r(3) in \<open>auto split: if_splits\<close>)
  moreover have "context_create m inst n = Some (brk n, ?n)"
    using r(1) ch by (simp add: context_create_def created_def Let_def)
  ultimately show ?thesis using h by (auto simp: own_handle_def)
qed

subsection \<open>Launching\<close>

lemma set_modules_ok:
  assumes ok: "node_ok G n" and M: "modules_ok M" "modules_le (nd_modules n) M"
  shows "node_ok G (n\<lparr>nd_modules := M\<rparr>)" "node_le G n (n\<lparr>nd_modules := M\<rparr>)"
proof -
  let ?n = "n\<lparr>nd_modules := M\<rparr>"
  have qa: "queue_at ?n = queue_at n" by (simp add: queue_at_def)
  from ok obtain ps where parts: "table_ok n" "refs_ok G n" "links_ok n" "sched_ok G ps n" "files_ok G n" "alloc_ok n"
    "remote_ok n" "modules_ok (nd_modules n)" by (rule node_okE)
  have "table_ok ?n" using parts(1) by (subst table_cong [of _ n]) simp_all
  moreover have "refs_ok G ?n" using parts(2) by (subst refs_cong [of _ n _ G]) (simp_all add: fixed_refs_def fun_eq_iff)
  moreover have "links_ok ?n" using parts(3) by (subst links_cong [of _ n]) (simp_all add: qa)
  moreover have "sched_ok G ps ?n" using parts(4) by (subst sched_cong [of _ n _ G]) simp_all
  moreover have "files_ok G ?n" using parts(5) by (subst files_cong [of _ n _ G]) simp_all
  moreover have "alloc_ok ?n" using parts(6) by (simp add: alloc_ok_def qa)
  moreover have "remote_ok ?n" using parts(7) by (subst remote_cong [of _ n]) simp_all
  ultimately show "node_ok G ?n" using M(1) by (intro node_okI) simp_all
  show "node_le G n ?n" by (rule node_leI) (use M(2) qa in auto)
qed

text \<open>The ghost state while a service is launched: its creator holds the context \<open>c\<close> and owns
  the queue \<open>p\<close>.\<close>

definition launching :: "ctx_ptr \<Rightarrow> mq_ptr \<Rightarrow> ghost \<Rightarrow> ghost" where
  "launching c p G = G\<lparr>held := (held G)(c := 1), owned := insert p (owned G)\<rparr>"

lemma launching_fields [simp]:
  "held (launching c p G) = (held G)(c := 1)" "owned (launching c p G) = insert p (owned G)" "dying (launching c p G) = dying G"
  by (simp_all add: launching_def)

lemma launching_end:
  assumes "held G c = 0" "p \<notin> owned G"
  shows "set_held c (held (launching c p G) c - 1) (launching c p G) = G\<lparr>owned := insert p (owned G)\<rparr>"
    "G\<lparr>owned := insert p (owned G) - {p}\<rparr> = G"
  using assms by (auto simp: launching_def set_held_def fun_upd_idem)

lemma mark_init_ok:
  assumes ok: "node_ok G n" and c: "ctxs n c = Some cx" and alive: "c \<notin> dying G"
  defines "n' \<equiv> set_ctx c (cx\<lparr>cx_init := True\<rparr>) n"
  shows "node_ok G n'" "node_le G n n'" "ctxs n' d = Some dx \<Longrightarrow> cx_queue dx = cx_queue cx \<Longrightarrow> ready n' d dx"
proof -
  have le: "context_le cx (cx\<lparr>cx_init := True\<rparr>)" by (simp add: context_le_def)
  have "0 < cx_ref cx" using refs_Some [OF node_ok_parts(2) [OF ok] c] alive by auto
  then show ok': "node_ok G n'" unfolding n'_def by (intro set_ctx_inert [OF ok c le]) simp_all
  show "node_le G n n'" unfolding n'_def by (rule set_ctx_le [OF c le])
  assume d: "ctxs n' d = Some dx" "cx_queue dx = cx_queue cx"
  have "ctxs n' c = Some (cx\<lparr>cx_init := True\<rparr>)" by (simp add: n'_def)
  with links_inj [OF node_ok_parts(3) [OF ok'] d(1) this] d show "ready n' d dx" by (auto simp: ready_def)
qed

lemma launch_done_ok:
  assumes wb: "well_behaved sv" and ok: "node_ok (launching c p G) n" and fresh: "held G c = 0" "p \<notin> owned G"
    and c: "ctxs n c = Some cx" "cx_queue cx = p"
  shows "keeps G n (map_option snd (launch_done sv nm param c p n))
    \<and> (\<forall>i n'. launch_done sv nm param c p n = Some (Some i, n') \<longrightarrow> ctxs n' i \<noteq> None)"
proof -
  let ?G1 = "G\<lparr>owned := insert p (owned G)\<rparr>"
  from context_release_ok [OF wb ok, of c] c obtain r n1 where n1: "skynet_context_release sv c n = Some (r, n1)"
    "node_ok ?G1 n1" "node_le ?G1 n n1"
    "r = None \<and> (\<exists>q. queue_at n1 p = Some q \<and> mq_release q) \<or> r = Some c \<and> n1 = set_ctx c (cx\<lparr>cx_ref := cx_ref cx - 1\<rparr>) n"
    unfolding launching_end(1) [OF fresh] by auto
  obtain n2 where n2: "(case r of Some c \<Rightarrow> map_option (\<lambda>cx. set_ctx c (cx\<lparr>cx_init := True\<rparr>) n1) (ctxs n1 c) | None \<Rightarrow> Some n1) = Some n2"
    "node_ok ?G1 n2" "node_le ?G1 n1 n2" "\<And>d dx. ctxs n2 d = Some dx \<Longrightarrow> cx_queue dx = p \<Longrightarrow> ready n2 d dx"
    "r = Some c \<Longrightarrow> ctxs n2 c \<noteq> None"
  proof (cases "r = None")
    case True
    with n1(4) obtain q where "queue_at n1 p = Some q" "mq_release q" by blast
    then have "cx_queue dx \<noteq> p" if "ctxs n1 d = Some dx" for d dx
      using links_queue [OF node_ok_parts(3) [OF n1(2)] that] by auto
    with that [of n1] True n1(2) show ?thesis by auto
  next
    case False
    with n1(4) have r: "r = Some c" and n1': "n1 = set_ctx c (cx\<lparr>cx_ref := cx_ref cx - 1\<rparr>) n" by auto
    have cx1: "ctxs n1 c = Some (cx\<lparr>cx_ref := cx_ref cx - 1\<rparr>)" by (simp add: n1')
    have "c \<notin> dying ?G1" using refs_Some [OF node_ok_parts(2) [OF ok] c(1)] by simp
    from mark_init_ok [OF n1(2) cx1 this] c(2) r cx1 show ?thesis
      by (intro that [of "set_ctx c (cx\<lparr>cx_ref := cx_ref cx - 1, cx_init := True\<rparr>) n1"]) simp_all
  qed
  have "\<exists>s. skynet_globalmq_push p (mqst n2) = Some s \<and> node_ok (?G1\<lparr>owned := owned ?G1 - {p}\<rparr>) (set_mq s n2) \<and> mq_view s = queue_at n2"
    by (rule give_back_ok [OF n2(2)]) (simp, rule n2(4))
  then obtain s where s: "skynet_globalmq_push p (mqst n2) = Some s" "node_ok G (set_mq s n2)"
    "mq_view s = queue_at n2" using launching_end(2) [OF fresh] by auto
  obtain n4 where n4: "(case r of Some c \<Rightarrow> skynet_error sv r (''LAUNCH '' @ nm @ '' '' @ (case param of Some s \<Rightarrow> s | None \<Rightarrow> [])) (set_mq s n2)
       | None \<Rightarrow> Some (set_mq s n2)) = Some n4" "node_ok G n4" "node_le G (set_mq s n2) n4" "ctxs n4 = ctxs n2"
  proof (cases r)
    case (Some d)
    with n1(4) have "d = c" by auto
    with skynet_error_sends [OF s(2), of r sv "''LAUNCH '' @ nm @ '' '' @ (case param of Some s \<Rightarrow> s | None \<Rightarrow> [])"] that Some n2(5)
    show ?thesis by auto
  qed (use that s(2) in auto)
  have mono: "node_le G a b" if "node_le ?G1 a b" for a b by (rule node_le_mono [OF that]) auto
  have "node_le G n2 (set_mq s n2)" by (rule node_leI) (use s(3) in auto)
  with mono [OF n1(3)] mono [OF n2(3)] n4(3) have "node_le G n n4" by (blast intro: node_le_trans)
  moreover have "launch_done sv nm param c p n = Some (r, n4)"
    using n1(1) n2(1) s(1) n4(1) by (simp add: launch_done_def)
  ultimately show ?thesis using n4(2,4) n2(5) n1(4) by (auto simp: keeps_def)
qed

lemma launch_failed_ok:
  assumes wb: "well_behaved sv" and ok: "node_ok (launching c p G) n" and fresh: "held G c = 0" "p \<notin> owned G"
    and c: "ctxs n c = Some cx" "cx_queue cx = p"
  shows "keeps G n (map_option snd (launch_failed sv nm c p n))"
proof -
  let ?G0 = "launching c p G" and ?G1 = "G\<lparr>owned := insert p (owned G)\<rparr>"
  have "keeps ?G0 n (skynet_error sv (Some c) (''FAILED launch '' @ nm) n)" by (rule skynet_error_ok [OF ok]) (use c in simp)
  then obtain n1 where n1: "skynet_error sv (Some c) (''FAILED launch '' @ nm) n = Some n1" "node_ok ?G0 n1" "node_le ?G0 n n1"
    by (auto simp: keeps_def)
  from node_le_ctx [OF n1(3) c(1)] c(2) obtain cx1 where cx1: "ctxs n1 c = Some cx1" "cx_queue cx1 = p" by (auto simp: context_le_def)
  let ?h = "cx_handle cx1"
  have own: "own_handle n1 ?h"
    using links_queue [OF node_ok_parts(3) [OF n1(2)] cx1(1)] links_owner [OF node_ok_parts(3) [OF n1(2)], of p] cx1(2)
    by (auto simp: own_handle_def)
  from context_release_ok [OF wb n1(2), of c] obtain r1 n2 where n2: "skynet_context_release sv c n1 = Some (r1, n2)"
    "node_ok ?G1 n2" "node_le ?G1 n1 n2" unfolding launching_end(1) [OF fresh] by auto
  have hp: "map_option mq_handle (queue_at n2 p) = Some ?h"
    using links_queue [OF node_ok_parts(3) [OF n1(2)] cx1(1)] cx1(2) node_le_queue [OF n2(3), of p] by (auto simp: queue_le_def)
  from handle_retire_ok [OF wb n2(2), of ?h] obtain r2 n3 where n3: "skynet_handle_retire sv ?h n2 = Some (r2, n3)"
    "node_ok ?G1 n3" "node_le ?G1 n2 n3" "\<forall>p \<in> owned ?G1. \<forall>d dx. map_option mq_handle (queue_at n2 p) = Some ?h \<longrightarrow>
        ctxs n3 d = Some dx \<longrightarrow> cx_queue dx = p \<longrightarrow> d \<notin> registered (hs n3)" by blast
  have own3: "own_handle n3 ?h" using own node_le_globals [OF n2(3)] node_le_globals [OF n3(3)] by (simp add: own_handle_def)
  have "keeps (?G1\<lparr>owned := owned ?G1 - {p}\<rparr>) n3 (skynet_mq_release sv ?h p n3)"
    by (rule mq_release_ok [OF n3(2) _ own3]) (use n3(4) hp in \<open>auto simp: ready_def\<close>)
  then have "keeps G n3 (skynet_mq_release sv ?h p n3)" using launching_end(2) [OF fresh] by simp
  then obtain n4 where n4: "skynet_mq_release sv ?h p n3 = Some n4" "node_ok G n4" "node_le G n3 n4" by (auto simp: keeps_def)
  have mono: "node_le G a b" if "node_le ?G1 a b" for a b by (rule node_le_mono [OF that]) auto
  have "node_le G n n1" by (rule node_le_mono [OF n1(3)]) (use fresh(1) in auto)
  with mono [OF n2(3)] mono [OF n3(3)] n4(3) have "node_le G n n4" by (blast intro: node_le_trans)
  moreover have "launch_failed sv nm c p n = Some (None, n4)"
    using n1(1) cx1(1) n2(1) n3(1) n4(1) by (simp add: launch_failed_def skynet_context_handle_def)
  ultimately show ?thesis using n4(2) by (simp add: keeps_def)
qed

lemma new_ghost_launching: "held G (brk n) = 0 \<Longrightarrow> new_ghost n G = launching (brk n) (Suc (brk n)) G"
  by (simp add: new_ghost_def launching_def)

text \<open>The conditions for a launch: the search path is well formed, and once the instance exists
  there is a handle for it.\<close>

definition launch_ok :: "services \<Rightarrow> string \<Rightarrow> node \<Rightarrow> bool" where
  "launch_ok sv nm n \<longleftrightarrow> (case skynet_module_query (sv_dlopen sv) (sv_dlsym sv) nm (nd_modules n) of
       None \<Rightarrow> False
     | Some (None, M) \<Rightarrow> True
     | Some (Some m, M) \<Rightarrow> (case skynet_module_instance_create sv m (n\<lparr>nd_modules := M\<rparr>) of
           None \<Rightarrow> True
         | Some (inst, n1) \<Rightarrow> can_launch n1))"

lemma instance_create_ok:
  "well_behaved sv \<Longrightarrow> node_ok G n \<Longrightarrow> keeps G n (map_option snd (skynet_module_instance_create sv m n))"
  unfolding skynet_module_instance_create_def
  by (cases "md_create (md_m (nd_modules n) ! m)") (simp_all add: well_behavedD keeps_same)

lemma instance_init_ok:
  assumes "well_behaved sv" "node_ok G n" "0 < held G c" "m < md_count (nd_modules n)"
  shows "keeps G n (map_option snd (skynet_module_instance_init sv m inst c parm n))"
proof -
  from assms(4) node_ok_parts(7) [OF assms(2)] obtain f where "md_init (md_m (nd_modules n) ! m) = Some f"
    by (auto simp: modules_ok_def)
  with well_behavedD(2) [OF assms(1,2,3)] show ?thesis by (simp add: skynet_module_instance_init_def)
qed

lemma context_new_ok:
  assumes wb: "well_behaved sv" and ok: "node_ok G n" and launch: "launch_ok sv nm n"
  shows "keeps G n (map_option snd (skynet_context_new sv nm param n))
    \<and> (\<forall>i n'. skynet_context_new sv nm param n = Some (Some i, n') \<longrightarrow> ctxs n' i \<noteq> None)"
proof -
  from launch obtain mo M where q: "skynet_module_query (sv_dlopen sv) (sv_dlsym sv) nm (nd_modules n) = Some (mo, M)"
    by (auto simp: launch_ok_def split: option.splits)
  let ?n0 = "n\<lparr>nd_modules := M\<rparr>"
  have M: "modules_ok M" "modules_le (nd_modules n) M" "\<And>m. mo = Some m \<Longrightarrow> m < md_count M"
    using skynet_module_query_spec [OF node_ok_parts(7) [OF ok] q] by blast+
  note n0 = set_modules_ok [OF ok M(1,2)]
  show ?thesis
  proof (cases mo)
    case None
    with q n0 show ?thesis by (simp add: skynet_context_new_def keeps_def)
  next
    case (Some m)
    from instance_create_ok [OF wb n0(1), of m] obtain inst n1 where
      n1: "skynet_module_instance_create sv m ?n0 = Some (inst, n1)" "node_ok G n1" "node_le G ?n0 n1"
      by (auto simp: keeps_def)
    have le1: "node_le G n n1" using n0(2) n1(3) by (rule node_le_trans)
    show ?thesis
    proof (cases "inst = 0")
      case True
      with q Some n1 le1 show ?thesis by (simp add: skynet_context_new_def keeps_def)
    next
      case False
      have "can_launch n1" using launch q Some n1(1) by (simp add: launch_ok_def)
      from created_ok [OF n1(2) this, of m inst] obtain h s where
        n2: "context_create m inst n1 = Some (brk n1, created m inst h s n1)" "node_ok (new_ghost n1 G) (created m inst h s n1)"
          "node_le G n1 (created m inst h s n1)" by blast
      let ?n2 = "created m inst h s n1" and ?c = "brk n1" and ?p = "Suc (brk n1)"
      note fresh = brk_fresh [OF n1(2)]
      from n1(2) obtain ps where "sched_ok G ps n1" by (rule node_okE)
      from sched_dom [OF this] fresh(2) have pG: "?p \<notin> owned G" by auto
      note G1 = new_ghost_launching [OF fresh(3)]
      have m: "m < md_count (nd_modules ?n2)" using M(3) [OF Some] node_le_globals [OF n1(3)] by (auto simp: modules_le_def)
      from instance_init_ok [OF wb n2(2) _ m, of ?c inst param] obtain r n3 where
        n3: "skynet_module_instance_init sv m inst ?c param ?n2 = Some (r, n3)" "node_ok (new_ghost n1 G) n3"
          "node_le (new_ghost n1 G) ?n2 n3" by (auto simp: keeps_def)
      from node_le_ctx [OF n3(3), of ?c] obtain cx where cx: "ctxs n3 ?c = Some cx" "cx_queue cx = ?p"
        by (auto simp: context_le_def)
      have "node_le G ?n2 n3" by (rule node_le_mono [OF n3(3)]) (use fresh(3) in auto)
      with le1 n2(3) have le3: "node_le G n n3" by (blast intro: node_le_trans)
      have "skynet_context_new sv nm param n
          = (if r = 0 then launch_done sv nm param ?c ?p n3 else launch_failed sv nm ?c ?p n3)"
        using q Some n1(1) False n2(1) n3(1) by (simp add: skynet_context_new_def)
      with launch_done_ok [OF wb n3(2) [unfolded G1] fresh(3) pG cx] launch_failed_ok [OF wb n3(2) [unfolded G1] fresh(3) pG cx]
        keeps_trans [OF _ le3] show ?thesis by (auto simp: launch_failed_def split: if_splits bind_splits prod.splits)
    qed
  qed
qed

end
