(* ===== verification/Delivery.thy ===== *)
theory Delivery
  imports Lifecycle
begin

section \<open>What services can rely on\<close>

text \<open>
  The properties of sending a message and of releasing the queue of a service that is gone,
  over the mailboxes of the services, and a small node on which their hypotheses hold.
\<close>

subsection \<open>A fresh node and a node with one service\<close>

definition no_ghost :: ghost where
  "no_ghost = \<lparr>held = (\<lambda>c. 0), owned = {}, dying = {}\<rparr>"

lemma harbor_init_same: "push_bit HANDLE_REMOTE_SHIFT (word_of_int h AND 0xff) = (push_bit HANDLE_REMOTE_SHIFT (word_of_int h) :: u32)"
proof -
  have m: "(0xff :: u32) = mask 8" by (simp add: mask_eq_exp_minus_1)
  show ?thesis unfolding m HANDLE_REMOTE_SHIFT_def by (rule bit_word_eqI) (auto simp: bit_simps)
qed

lemma harbor_init: "harbor (skynet_handle_init h) = push_bit HANDLE_REMOTE_SHIFT (word_of_int h)"
  by (simp only: skynet_handle_init_def handle_storage.select_convs harbor_init_same)

lemma node_start_fields [simp]:
  "hs (node_start harb path E T) = skynet_handle_init harb" "ctxs (node_start harb path E T) = Map.empty"
  "mqst (node_start harb path E T) = skynet_mq_init" "REMOTE (node_start harb path E T) = None"
  "HARBOR (node_start harb path E T) = push_bit HANDLE_REMOTE_SHIFT (word_of_int harb)"
  "nd_modules (node_start harb path E T) = skynet_module_init path" "files (node_start harb path E T) = Map.empty"
  "brk (node_start harb path E T) = 1"
  by (simp_all add: node_start_def skynet_globalinit_def skynet_initthread_def skynet_harbor_init_def)

lemma node_start_ok: "node_ok no_ghost (node_start harb path E T)"
proof (rule node_okI)
  let ?n = "node_start harb path E T"
  have q: "queue_at ?n = Map.empty" by (simp add: queue_at_def mq_view_def [abs_def] skynet_mq_init_def)
  show "table_ok ?n" by (simp add: table_ok_def handle_init_ok harbor_init)
  show "refs_ok no_ghost ?n" "files_ok no_ghost ?n" by (simp_all add: refs_ok_def files_ok_def no_ghost_def)
  show "links_ok ?n" "alloc_ok ?n" "remote_ok ?n" by (simp_all add: links_ok_def alloc_ok_def remote_ok_def q)
  show "sched_ok no_ghost [] ?n" by (simp add: sched_ok_def q no_ghost_def)
qed simp

text \<open>Services that do nothing.\<close>

definition quiet_services :: services where
  "quiet_services = \<lparr>sv_create = (\<lambda>f n. Some (5, n)), sv_init = (\<lambda>f inst c parm n. Some (0, n)),
     sv_release = (\<lambda>f inst n. Some n), sv_signal = (\<lambda>f inst k n. Some n),
     sv_cb = (\<lambda>f c ud ty ses src msg len n. Some (0, n)), sv_dlopen = (\<lambda>s. Some 1), sv_dlsym = (\<lambda>d s. Some 1),
     sv_fopen = (\<lambda>s. True), sv_ctime = (\<lambda>t. []), sv_bytes = (\<lambda>d. [])\<rparr>"

lemma quiet_well_behaved: "well_behaved quiet_services"
  by (simp add: well_behaved_def quiet_services_def keeps_same)

text \<open>Service \<open>:01000001\<close> is alive, with the queue \<open>live\<close>; the queue of service
  \<open>:01000002\<close>, which is gone, still holds a message that the first one has sent.\<close>

definition demo_message :: skynet_message where
  "demo_message = \<lparr>source = 0x01000001, session = 7, data = None, sz = 0\<rparr>"

definition demo_dead :: message_queue where
  "demo_dead = (mq_enqueue demo_message (new_queue 0x01000002))\<lparr>mq_release := True\<rparr>"

definition demo_context :: skynet_context where
  "demo_context = (new_context 0 5)\<lparr>cx_handle := 0x01000001, cx_queue := 2, cx_init := True, cx_cb := Some 7\<rparr>"

definition demo_at :: "message_queue \<Rightarrow> node" where
  "demo_at live = (node_start 1 ''./?.so'' Map.empty timer_create_timer)
     \<lparr>hs := (skynet_handle_init 1)\<lparr>slot := [None, Some 3, None, None], handle_index := 2\<rparr>,
      ctxs := [3 \<mapsto> demo_context],
      mqst := \<lparr>mqs = [2 \<mapsto> live, 4 \<mapsto> demo_dead], gq_head = None, gq_tail = None\<rparr>,
      total := 1, brk := 5\<rparr>"

abbreviation demo_node :: node where
  "demo_node \<equiv> demo_at (new_queue 0x01000001)"

definition demo_live :: "message_queue \<Rightarrow> bool" where
  "demo_live q \<longleftrightarrow> mq_inv q \<and> mq_handle q = 0x01000001 \<and> \<not> mq_release q \<and> mq_in_global q \<and> mq_next q = None
     \<and> (\<forall>m \<in> set (mq_contents q). source m = 0x01000001)"

definition demo_ghost :: ghost where
  "demo_ghost = \<lparr>held = (\<lambda>c. 0)(3 := 1), owned = {2, 4}, dying = {}\<rparr>"

lemma demo_context_fields [simp]:
  "cx_handle demo_context = 0x01000001" "cx_queue demo_context = 2" "cx_init demo_context" "cx_cb demo_context = Some 7"
  "cx_logfile demo_context = None" "cx_ref demo_context = 2" "cx_session_id demo_context = 0"
  by (simp_all add: demo_context_def new_context_def)

lemma demo_fields [simp]:
  "ctxs (demo_at q) = [3 \<mapsto> demo_context]" "REMOTE (demo_at q) = None" "HARBOR (demo_at q) = 0x01000000"
  "nd_modules (demo_at q) = skynet_module_init ''./?.so''" "files (demo_at q) = Map.empty" "brk (demo_at q) = 5"
  "hs (demo_at q) = (skynet_handle_init 1)\<lparr>slot := [None, Some 3, None, None], handle_index := 2\<rparr>"
  by (simp_all add: demo_at_def HANDLE_REMOTE_SHIFT_def)

lemma demo_handle [simp]: "context_handle (demo_at q) 3 = 0x01000001"
  by (simp add: context_handle_def)

lemma new_queue_fields [simp]:
  "mq_handle (new_queue h) = h" "\<not> mq_release (new_queue h)" "mq_in_global (new_queue h)" "mq_next (new_queue h) = None"
  by (simp_all add: new_queue_def)

lemma demo_queues [simp]:
  assumes "mq_next q = None"
  shows "queue_at (demo_at q) = [2 \<mapsto> q, 4 \<mapsto> demo_dead]"
proof
  fix p
  have "q\<lparr>mq_next := None\<rparr> = q" using assms by (cases q) simp
  moreover have "demo_dead\<lparr>mq_next := None\<rparr> = demo_dead" by (simp add: demo_dead_def)
  ultimately show "queue_at (demo_at q) p = [2 \<mapsto> q, 4 \<mapsto> demo_dead] p"
    by (simp add: queue_at_def mq_view_def demo_at_def)
qed

lemma demo_dead_fields [simp]:
  "mq_inv demo_dead" "mq_contents demo_dead = [demo_message]" "mq_handle demo_dead = 0x01000002" "mq_release demo_dead"
proof -
  let ?q = "mq_enqueue demo_message (new_queue 0x01000002)"
  have "mq_inv ?q" "mq_contents ?q = [demo_message]" by (simp_all add: inv_intros abs_simps)
  then show "mq_inv demo_dead" "mq_contents demo_dead = [demo_message]" by (simp_all add: demo_dead_def mq_inv_def mq_contents_def)
qed (simp_all add: demo_dead_def new_queue_def)

lemma demo_at_ok:
  assumes live: "demo_live q"
  shows "node_ok demo_ghost (demo_at q)"
proof (rule node_okI)
  let ?n = "demo_at q"
  note live = live [unfolded demo_live_def]
  then have q: "queue_at ?n = [2 \<mapsto> q, 4 \<mapsto> demo_dead]" by simp
  have "slots_ok (context_handle ?n) (hs ?n)"
    unfolding slots_ok_def
  proof (intro conjI allI impI)
    fix i c assume i: "i < slot_size (hs ?n)" "slot (hs ?n) ! i = Some c"
    then have "i = 1 \<and> c = 3"
      by (auto simp: skynet_handle_init_def DEFAULT_SLOT_SIZE_def less_Suc_eq numeral_eq_Suc)
    then show "slot_hash (context_handle ?n c) (slot_size (hs ?n)) = i" "context_handle ?n c AND NOT HANDLE_MASK = harbor (hs ?n)"
      by (simp_all add: skynet_handle_init_def DEFAULT_SLOT_SIZE_def HANDLE_REMOTE_SHIFT_def HANDLE_MASK_def slot_hash_def)
  qed (auto simp: skynet_handle_init_def DEFAULT_SLOT_SIZE_def HANDLE_REMOTE_SHIFT_def HANDLE_MASK_def intro!: exI [of _ 2])
  moreover have "names_ok (hs ?n)" using handle_init_ok(2) [of 1] by (simp add: names_ok_def handle_names_def)
  ultimately show "table_ok ?n" using harbor_init [of 1]
    by (simp add: table_ok_def registered_def HANDLE_MASK_def HANDLE_REMOTE_SHIFT_def)
  show "refs_ok demo_ghost ?n" by (auto simp: refs_ok_def demo_ghost_def fixed_refs_def registered_def)
  show "files_ok demo_ghost ?n" by (simp add: files_ok_def)
  show "links_ok ?n" by (rule links_okI) (use live in \<open>auto simp: q HANDLE_MASK_def split: if_splits\<close>)
  show "alloc_ok ?n" by (simp add: alloc_ok_def q)
  show "remote_ok ?n"
    by (rule remote_okI) (use live in \<open>auto simp: q remote_handle_def demo_message_def HANDLE_MASK_def split: if_splits\<close>)
  have "gq_rep (mqst ?n) []" using live by (simp add: demo_at_def gq_rep_def demo_dead_def)
  then show "sched_ok demo_ghost [] ?n"
    by (intro sched_okI) (use live in \<open>auto simp: q demo_ghost_def ready_def split: if_splits\<close>)
qed simp

lemma demo_ok: "node_ok demo_ghost demo_node"
  by (rule demo_at_ok) (simp add: demo_live_def)

lemma demo_inbox: "inbox demo_node 0x01000001 = Some []"
proof -
  have "handle_lookup (context_handle demo_node) (hs demo_node) 0x01000001 = Some 3"
    by (simp add: handle_lookup_def slot_hash_def skynet_handle_init_def DEFAULT_SLOT_SIZE_def)
  then show ?thesis by (simp add: inbox_def)
qed

lemma demo_sent:
  "send_args_ok (Some 3) 0 PTYPE_TAG_ALLOCSESSION 0 (Some (Bytes [65, 66])) 2"
  "session_of (Some 3) PTYPE_TAG_ALLOCSESSION 0 demo_node = 1" "source_of (Some 3) 0 demo_node = 0x01000001"
  "sent_data PTYPE_TAG_ALLOCSESSION (Some (Bytes [65, 66])) 2 = Some (Bytes [65, 66, 0])"
  "with_type 2 PTYPE_TAG_ALLOCSESSION = 2"
  by (simp_all add: send_args_ok_def session_of_def source_of_def sent_data_def with_type_def allocs_def copies_def
      PTYPE_TAG_ALLOCSESSION_def PTYPE_TAG_DONTCOPY_def next_session_def new_context_def)

subsection \<open>Properties\<close>

text \<open>C23. A message sent to a service of the same node: when the destination exists, the
  message is appended to its mailbox and to no other, with the sender (by default the
  calling service), the session (a new one when one is to be allocated), and a copy of the
  data unless the caller gives it away; the receiver decodes the type and the size that
  were sent; the session is returned. When the destination does not exist, every mailbox
  stays as it is and the result is -1. The node stays in a good state.\<close>

theorem send_exact:
  assumes "caller_ok G context src type ses msg len n" "len AND MESSAGE_TYPE_MASK = len"
    and "dest \<noteq> 0" "\<not> remote_handle n dest"
  shows "\<exists>n'. skynet_send sv context src dest type ses msg len n
      = Some (if inbox n dest = None then - 1 else session_of context type ses n, n')
    \<and> (\<forall>h. inbox n' h = (if h = dest then map_option (\<lambda>ms. ms @ [sent_message context src type ses msg len n]) (inbox n h)
          else inbox n h))
    \<and> sz (sent_message context src type ses msg len n) AND MESSAGE_TYPE_MASK = len
    \<and> ucast (drop_bit MESSAGE_TYPE_SHIFT (sz (sent_message context src type ses msg len n))) = type AND 0xff
    \<and> node_ok G n'"
proof -
  let ?n1 = "after_session context type n" and ?m = "sent_message context src type ses msg len n"
  from send_local [OF assms] obtain n' where n': "skynet_send sv context src dest type ses msg len n
      = Some (if handle_lookup (context_handle n) (hs n) dest = None then - 1 else session_of context type ses n, n')"
    "delivered dest ?m ?n1 n'" "node_ok G n'" by blast
  have ok: "node_ok G n" using assms(1) by (simp add: caller_ok_def)
  from after_session_ok [OF ok, of "context" type] assms(1) have ok1: "node_ok G ?n1" by (auto simp: caller_ok_def)
  have "inbox ?n1 = inbox n" by (rule inbox_after_session [OF assms(1)])
  with delivered_inbox [OF ok1 n'(2)] have "\<forall>h. inbox n' h = (if h = dest then map_option (\<lambda>ms. ms @ [?m]) (inbox n h) else inbox n h)"
    by simp
  moreover have "sz ?m = with_type len type" by (simp add: sent_message_def)
  ultimately show ?thesis
    using n'(1,3) inbox_iff [OF ok, of dest] with_type_parts [OF assms(2), of type] by auto
qed

theorem send_exact_witness:
  "\<exists>n'. skynet_send quiet_services (Some 3) 0 0x01000001 PTYPE_TAG_ALLOCSESSION 0 (Some (Bytes [65, 66])) 2 demo_node = Some (1, n')
     \<and> inbox n' 0x01000001 = Some [\<lparr>source = 0x01000001, session = 1, data = Some (Bytes [65, 66, 0]), sz = 2\<rparr>]"
proof -
  have "caller_ok demo_ghost (Some 3) 0 PTYPE_TAG_ALLOCSESSION 0 (Some (Bytes [65, 66])) 2 demo_node"
    using demo_ok by (simp add: caller_ok_def demo_ghost_def demo_sent source_ok_def remote_handle_def HANDLE_MASK_def)
  moreover have "sent_message (Some 3) 0 PTYPE_TAG_ALLOCSESSION 0 (Some (Bytes [65, 66])) 2 demo_node
      = \<lparr>source = 0x01000001, session = 1, data = Some (Bytes [65, 66, 0]), sz = 2\<rparr>"
    by (simp add: sent_message_def demo_sent)
  moreover have "2 AND MESSAGE_TYPE_MASK = 2" by (simp add: MESSAGE_TYPE_MASK_def mask_eq_exp_minus_1)
  ultimately show ?thesis
    using send_exact [of demo_ghost "Some 3" 0 PTYPE_TAG_ALLOCSESSION 0 "Some (Bytes [65, 66])" 2 demo_node "0x01000001" quiet_services]
      demo_inbox demo_sent by (auto simp: remote_handle_def HANDLE_MASK_def)
qed

text \<open>C24. When the queue of a service that is gone is released and all its messages come from
  handles of this node, no sender is left without an answer: every message is answered with an
  error message in the name of that service. Each living service gets exactly one for each of
  its messages, at the end of its mailbox; afterwards the queue is freed and the node is in a
  good state. Messages from other nodes, whose answers go out through the harbor service, are
  not covered.\<close>

theorem dead_queue_answers:
  assumes "node_ok G n" "p \<in> owned G" "queue_at n p = Some q" "mq_release q"
    and "\<forall>m \<in> set (mq_contents q). \<not> remote_handle n (source m)"
  shows "\<exists>n'. skynet_mq_release sv (mq_handle q) p n = Some n' \<and> queue_at n' p = None
    \<and> (\<forall>h. inbox n' h = map_option (\<lambda>b. b @ map (\<lambda>m. error_reply (mq_handle q)) (filter (\<lambda>m. source m = h) (mq_contents q))) (inbox n h))
    \<and> node_ok (G\<lparr>owned := owned G - {p}\<rparr>) n'"
proof -
  have "own_handle n (mq_handle q)"
    using links_owner [OF node_ok_parts(3) [OF assms(1)] assms(3)] by (simp add: own_handle_def)
  from drop_queue_ok [OF assms(1-4) refl this, of sv] assms(5) obtain n' where
    n': "drop_queue sv (mq_handle q) p n = Some n'" "queue_at n' p = None" "node_ok (G\<lparr>owned := owned G - {p}\<rparr>) n'"
    "\<forall>h. inbox n' h = map_option (\<lambda>b. b @ map (\<lambda>m. error_reply (mq_handle q)) (filter (\<lambda>m. source m = h) (mq_contents q))) (inbox n h)"
    by blast
  from assms(3) obtain r where "mqs (mqst n) p = Some r" "q = r\<lparr>mq_next := None\<rparr>" unfolding queue_at_def by (rule mq_view_raw)
  with n' assms(4) show ?thesis by (auto simp: skynet_mq_release_def)
qed

theorem dead_queue_answers_witness:
  "\<exists>n'. skynet_mq_release quiet_services 0x01000002 4 demo_node = Some n' \<and> inbox n' 0x01000001 = Some [error_reply 0x01000002]"
proof -
  have "4 \<in> owned demo_ghost" by (simp add: demo_ghost_def)
  then show ?thesis
    using dead_queue_answers [of demo_ghost demo_node 4 demo_dead quiet_services] demo_ok demo_inbox
    by (fastforce simp: demo_message_def remote_handle_def HANDLE_MASK_def)
qed

end
