(* ===== verification/Dispatch.thy ===== *)
theory Dispatch
  imports Log Delivery
begin

section \<open>Dispatching messages (\<open>skynet_server.c\<close>, \<open>skynet_monitor.c\<close>)\<close>

text \<open>
  A worker takes the queue of a service, hands some of its messages to the callback of the
  service, and returns the queue to work on next. The model follows
  \<open>skynet_context_message_dispatch\<close> and its callees; the callback is the parameter
  \<open>sv_cb\<close>. The theorems say which messages a round delivers and that it keeps the
  invariant of the node.
\<close>

subsection \<open>The monitor of a worker\<close>

record skynet_monitor =
  sm_version :: int
  sm_check_version :: int
  sm_source :: u32
  sm_destination :: u32

definition skynet_monitor_new :: skynet_monitor where
  "skynet_monitor_new = \<lparr>sm_version = 0, sm_check_version = 0, sm_source = 0, sm_destination = 0\<rparr>"

definition skynet_monitor_trigger :: "u32 \<Rightarrow> u32 \<Rightarrow> skynet_monitor \<Rightarrow> skynet_monitor" where
  "skynet_monitor_trigger src dest sm = sm\<lparr>sm_source := src, sm_destination := dest,
     sm_version := signed_take_bit 31 (sm_version sm + 1)\<rparr>"

definition skynet_monitor_check :: "services \<Rightarrow> skynet_monitor \<Rightarrow> node \<Rightarrow> (skynet_monitor \<times> node) option" where
  "skynet_monitor_check sv sm n =
     (if sm_version sm = sm_check_version sm then
        (if sm_destination sm \<noteq> 0 then do {
           n1 \<leftarrow> skynet_context_endless sv (sm_destination sm) n;
           n2 \<leftarrow> skynet_error sv None (''A message from [ :'' @ pad_left 8 (print_hex (sm_source sm)) @ '' ] to [ :''
                   @ pad_left 8 (print_hex (sm_destination sm)) @ '' ] maybe in an endless loop (version = ''
                   @ print_dec (sm_version sm) @ '')'') n1;
           Some (sm, n2) }
         else Some (sm, n))
      else Some (sm\<lparr>sm_check_version := sm_version sm\<rparr>, n))"

subsection \<open>Handing over a message\<close>

text \<open>The data of a message that the callback does not keep is freed.\<close>

definition dispatch_message :: "services \<Rightarrow> ctx_ptr \<Rightarrow> skynet_message \<Rightarrow> node \<Rightarrow> node option" where
  "dispatch_message sv c msg n = do {
     cx \<leftarrow> ctxs n c;
     if \<not> cx_init cx then None
     else do {
       let n1 = n\<lparr>handle_key := cx_handle cx\<rparr>;
       let type = uint (drop_bit MESSAGE_TYPE_SHIFT (sz msg));
       let len = sz msg AND MESSAGE_TYPE_MASK;
       n2 \<leftarrow> (case cx_logfile cx of
           Some f \<Rightarrow> skynet_log_output sv f (source msg) type (session msg) (data msg) len n1
         | None \<Rightarrow> Some n1);
       cx2 \<leftarrow> ctxs n2 c;
       cb \<leftarrow> cx_cb cx2;
       (r, n3) \<leftarrow> sv_cb sv cb c (cx_cb_ud cx2) type (session msg) (source msg) (data msg) len n2;
       Some n3 } }"

partial_function (option) dispatch_all :: "services \<Rightarrow> ctx_ptr \<Rightarrow> mq_ptr \<Rightarrow> node \<Rightarrow> node option" where
  "dispatch_all sv c p n =
     Option.bind (mq_pop_at p n)
       (\<lambda>(m, n1). case m of
            Some msg \<Rightarrow> Option.bind (dispatch_message sv c msg n1) (dispatch_all sv c p)
          | None \<Rightarrow> Some n1)"

definition skynet_context_dispatchall :: "services \<Rightarrow> ctx_ptr \<Rightarrow> node \<Rightarrow> node option" where
  "skynet_context_dispatchall sv c n = do { cx \<leftarrow> ctxs n c; dispatch_all sv c (cx_queue cx) n }"

text \<open>\<open>skynet_mq_overload\<close> and \<open>skynet_globalmq_pop\<close> on the queues of the node.\<close>

definition mq_overload_at :: "mq_ptr \<Rightarrow> node \<Rightarrow> (int \<times> node) option" where
  "mq_overload_at p n = do {
     q \<leftarrow> mqs (mqst n) p;
     let (k, q1) = skynet_mq_overload q;
     Some (k, n\<lparr>mqst := (mqst n)\<lparr>mqs := (mqs (mqst n))(p \<mapsto> q1)\<rparr>\<rparr>) }"

definition globalmq_pop_at :: "node \<Rightarrow> (mq_ptr option \<times> node) option" where
  "globalmq_pop_at n = do { (q, s) \<leftarrow> skynet_globalmq_pop (mqst n); Some (q, n\<lparr>mqst := s\<rparr>) }"

text \<open>The body of the loop after a message has been popped.\<close>

definition dispatch_one ::
  "services \<Rightarrow> ctx_ptr \<Rightarrow> mq_ptr \<Rightarrow> u32 \<Rightarrow> skynet_message \<Rightarrow> skynet_monitor \<Rightarrow> node \<Rightarrow> (skynet_monitor \<times> node) option" where
  "dispatch_one sv c p handle msg sm n = do {
     (overload, n1) \<leftarrow> mq_overload_at p n;
     n2 \<leftarrow> (if overload \<noteq> 0
            then skynet_error sv (Some c) (''May overload, message queue length = '' @ print_dec overload) n1
            else Some n1);
     let sm1 = skynet_monitor_trigger (source msg) handle sm;
     cx \<leftarrow> ctxs n2 c;
     n3 \<leftarrow> (case cx_cb cx of None \<Rightarrow> Some n2 | Some cb \<Rightarrow> dispatch_message sv c msg n2);
     Some (skynet_monitor_trigger 0 0 sm1, n3) }"

text \<open>The loop: \<open>i\<close> messages have been handed over, \<open>k\<close> are to be. The result tells whether
  the loop has run to its end.\<close>

function dispatch_loop ::
  "services \<Rightarrow> ctx_ptr \<Rightarrow> mq_ptr \<Rightarrow> u32 \<Rightarrow> int \<Rightarrow> nat \<Rightarrow> nat \<Rightarrow> skynet_monitor \<Rightarrow> node
     \<Rightarrow> (bool \<times> skynet_monitor \<times> node) option" where
  "dispatch_loop sv c p handle weight i k sm n =
     (if i < k then do {
        (m, n1) \<leftarrow> mq_pop_at p n;
        case m of
          None \<Rightarrow> Some (False, sm, n1)
        | Some msg \<Rightarrow> do {
            q \<leftarrow> mqs (mqst n1) p;
            let k1 = (if i = 0 \<and> 0 \<le> weight then drop_bit (nat weight) (nat (skynet_mq_length q)) else k);
            (sm1, n2) \<leftarrow> dispatch_one sv c p handle msg sm n1;
            dispatch_loop sv c p handle weight (i + 1) k1 sm1 n2 } }
      else Some (True, sm, n))"
  by pat_completeness auto
termination
  by (relation "measures [\<lambda>(sv, c, p, h, w, i, k, sm, n). if i = 0 then 1 else 0, \<lambda>(sv, c, p, h, w, i, k, sm, n). k - i]") auto

declare dispatch_loop.simps [simp del]

text \<open>The end of a round: the queue goes back to the global queue when another one waits
  there.\<close>

definition next_queue :: "mq_ptr \<Rightarrow> node \<Rightarrow> (mq_ptr option \<times> node) option" where
  "next_queue p n = do {
     (nq, n1) \<leftarrow> globalmq_pop_at n;
     case nq of
       Some q \<Rightarrow> do { s \<leftarrow> skynet_globalmq_push p (mqst n1); Some (Some q, n1\<lparr>mqst := s\<rparr>) }
     | None \<Rightarrow> Some (Some p, n1) }"

definition dispatch_queue ::
  "services \<Rightarrow> skynet_monitor \<Rightarrow> mq_ptr \<Rightarrow> int \<Rightarrow> node \<Rightarrow> (mq_ptr option \<times> skynet_monitor \<times> node) option" where
  "dispatch_queue sv sm p weight n = do {
     q \<leftarrow> mqs (mqst n) p;
     let handle = skynet_mq_handle q;
     (ctx, n1) \<leftarrow> skynet_handle_grab handle n;
     case ctx of
       None \<Rightarrow> do {
         n2 \<leftarrow> skynet_mq_release sv handle p n1;
         (nq, n3) \<leftarrow> globalmq_pop_at n2;
         Some (nq, sm, n3) }
     | Some c \<Rightarrow> do {
         (finished, sm1, n2) \<leftarrow> dispatch_loop sv c p handle weight 0 1 sm n1;
         if finished then do {
           cx \<leftarrow> ctxs n2 c;
           if cx_queue cx \<noteq> p then None
           else do {
             (q', n3) \<leftarrow> next_queue p n2;
             (r, n4) \<leftarrow> skynet_context_release sv c n3;
             Some (q', sm1, n4) } }
         else do {
           (r, n3) \<leftarrow> skynet_context_release sv c n2;
           (nq, n4) \<leftarrow> globalmq_pop_at n3;
           Some (nq, sm1, n4) } } }"

definition skynet_context_message_dispatch ::
  "services \<Rightarrow> skynet_monitor \<Rightarrow> mq_ptr option \<Rightarrow> int \<Rightarrow> node \<Rightarrow> (mq_ptr option \<times> skynet_monitor \<times> node) option" where
  "skynet_context_message_dispatch sv sm q weight n =
     (case q of
        Some p \<Rightarrow> dispatch_queue sv sm p weight n
      | None \<Rightarrow> do {
          (q, n1) \<leftarrow> globalmq_pop_at n;
          case q of
            None \<Rightarrow> Some (None, sm, n1)
          | Some p \<Rightarrow> dispatch_queue sv sm p weight n1 })"

subsection \<open>Handing over keeps the invariant\<close>

definition workable :: "node \<Rightarrow> mq_ptr \<Rightarrow> bool" where
  "workable n p \<longleftrightarrow> (\<forall>c cx. ctxs n c = Some cx \<longrightarrow> cx_queue cx = p \<longrightarrow> ready n c cx)"

lemma workable_le:
  assumes "node_le G n n'" "workable n p" "p \<in> owned G" "queue_at n p \<noteq> None"
  shows "workable n' p"
  unfolding workable_def
proof (intro allI impI)
  fix c cx assume c: "ctxs n' c = Some cx" "cx_queue cx = p"
  from node_le_owner [OF assms(1,3,4) c] assms(2) show "ready n' c cx" by (auto simp: workable_def ready_def)
qed

lemma dispatch_message_ok:
  assumes wb: "well_behaved sv" and ok: "node_ok G n" and c: "0 < held G c" "ctxs n c = Some cx" "cx_init cx" "cx_cb cx \<noteq> None"
    and m: "loggable sv m"
  shows "keeps G n (dispatch_message sv c m n)"
proof -
  let ?n1 = "n\<lparr>handle_key := cx_handle cx\<rparr>"
  let ?type = "uint (drop_bit MESSAGE_TYPE_SHIFT (sz m))" and ?len = "sz m AND MESSAGE_TYPE_MASK"
  have core: "same_core n ?n1" by (simp add: same_core_def)
  have n1: "node_ok G ?n1" using ok same_core_ok [OF core] by simp
  obtain cb where cb: "cx_cb cx = Some cb" using c(4) by blast
  have nd: "c \<notin> dying G" using refs_Some [OF node_ok_parts(2) [OF ok] c(2)] c(1) by simp
  obtain n2 where n2: "(case cx_logfile cx of
      Some f \<Rightarrow> skynet_log_output sv f (source m) ?type (session m) (data m) ?len ?n1 | None \<Rightarrow> Some ?n1) = Some n2"
    "ctxs n2 = ctxs n" "node_ok G n2" "node_le G ?n1 n2"
  proof (cases "cx_logfile cx")
    case None
    with that [of ?n1] n1 show ?thesis by simp
  next
    case (Some f)
    then have f: "files ?n1 f \<noteq> None" using files_okD(1) [OF node_ok_parts(4) [OF ok] c(2) _ nd] by simp
    note w = log_output_wrote [OF f m]
    from w that wrote_keeps [OF n1 f w] Some show ?thesis by (auto simp: wrote_def keeps_def)
  qed
  from well_behavedD(5) [OF wb n2(3) c(1), of cb "cx_cb_ud cx" ?type "session m" "source m" "data m" ?len] obtain r n3 where
    "sv_cb sv cb c (cx_cb_ud cx) ?type (session m) (source m) (data m) ?len n2 = Some (r, n3)" "node_ok G n3" "node_le G n2 n3"
    by (auto simp: keeps_def)
  moreover from this n2(4) same_core_le [OF core] have "node_le G n n3" by (blast intro: node_le_trans)
  ultimately show ?thesis
    using c(2,3) cb n2(1,2) by (auto simp: dispatch_message_def Let_def keeps_def)
qed

lemma mq_overload_at_ok:
  assumes ok: "node_ok G n" and q: "queue_at n p = Some q" "\<not> mq_release q"
  shows "\<exists>k s q'. mq_overload_at p n = Some (k, set_mq s n) \<and> node_ok G (set_mq s n) \<and> node_le G n (set_mq s n)
    \<and> mq_view s = (queue_at n)(p \<mapsto> q') \<and> mq_contents q' = mq_contents q \<and> \<not> mq_release q' \<and> mq_handle q' = mq_handle q"
proof -
  from ok obtain ps where sched: "sched_ok G ps n" by (rule node_okE)
  from q(1) obtain r where r: "mqs (mqst n) p = Some r" "q = r\<lparr>mq_next := None\<rparr>" unfolding queue_at_def by (rule mq_view_raw)
  let ?r = "r\<lparr>mq_overload := 0\<rparr>" and ?q = "q\<lparr>mq_overload := 0\<rparr>"
  let ?s = "(mqst n)\<lparr>mqs := (mqs (mqst n))(p \<mapsto> ?r)\<rparr>"
  have "skynet_mq_overload r = (mq_overload r, ?r)" by (cases r) (simp add: skynet_mq_overload_def)
  then have at: "mq_overload_at p n = Some (mq_overload q, set_mq ?s n)"
    using r by (simp add: mq_overload_at_def)
  have rep: "gq_rep ?s ps" by (rule gq_rep_upd_same_next [OF sched_rep(1) [OF sched] r(1)]) simp
  have view: "mq_view ?s = (queue_at n)(p \<mapsto> ?q)" using r by (auto simp: mq_view_def queue_at_def fun_eq_iff)
  have inv: "mq_inv ?q" using links_owner [OF node_ok_parts(3) [OF ok] q(1)] by (simp add: mq_inv_def)
  have cont: "mq_contents ?q = mq_contents q" by (simp add: mq_contents_def)
  note iff = sched_iff [OF sched q(1)]
  have "node_ok (G\<lparr>owned := owned G\<rparr>) (set_mq ?s n)"
  proof (rule set_queue_ok [OF ok sched q(1) rep view _ inv])
    show "ready n c cx" if "p \<notin> owned G" "ctxs n c = Some cx" "cx_queue cx = p" for c cx
      using sched_init [OF sched that(2)] that by simp
  qed (use sched_rep(2) [OF sched] iff cont in auto)
  moreover have "node_le G n (set_mq ?s n)"
    by (rule set_queue_le [OF view]) (use q cont in \<open>auto simp: queue_le_def\<close>)
  ultimately show ?thesis using at view cont q(2) by (intro exI [of _ ?s] exI [of _ ?q] exI) auto
qed

lemma dispatch_one_ok:
  assumes wb: "well_behaved sv" and ok: "node_ok G n" and c: "0 < held G c" "ctxs n c = Some cx" "cx_init cx"
    and q: "queue_at n p = Some q" "\<not> mq_release q" and m: "loggable sv m"
  shows "keeps G n (map_option snd (dispatch_one sv c p h m sm n))"
proof -
  from mq_overload_at_ok [OF ok q] obtain k s where n1: "mq_overload_at p n = Some (k, set_mq s n)" "node_ok G (set_mq s n)"
    "node_le G n (set_mq s n)" by blast
  let ?n1 = "set_mq s n" and ?msg = "''May overload, message queue length = '' @ print_dec k"
  obtain n2 where n2: "(if k \<noteq> 0 then skynet_error sv (Some c) ?msg ?n1 else Some ?n1) = Some n2" "node_ok G n2"
    "node_le G ?n1 n2" "ctxs n2 = ctxs n"
    using skynet_error_sends [OF n1(2), of "Some c" sv ?msg] c(2) n1(2) that by (cases "k = 0") auto
  have le: "node_le G n n2" using n1(3) n2(3) by (rule node_le_trans)
  show ?thesis
  proof (cases "cx_cb cx")
    case None
    with n1(1) n2 c(2) le show ?thesis by (simp add: dispatch_one_def keeps_def Let_def)
  next
    case (Some cb)
    with dispatch_message_ok [OF wb n2(2) c(1) _ c(3) _ m] c(2) n2(4) obtain n3 where
      "dispatch_message sv c m n2 = Some n3" "node_ok G n3" "node_le G n2 n3" by (auto simp: keeps_def)
    with Some n1(1) n2(1,4) c(2) le show ?thesis by (auto simp: dispatch_one_def keeps_def Let_def intro: node_le_trans)
  qed
qed

subsection \<open>The loop\<close>

text \<open>The number of messages of one round.\<close>

definition batch :: "int \<Rightarrow> nat \<Rightarrow> nat" where
  "batch weight len = (if 0 \<le> weight then max 1 ((len - 1) div 2 ^ nat weight) else 1)"

text \<open>The given messages, and no others, are taken off the queue in turn and handed to the service:
  \<open>None\<close> when the message at the head of the queue is not the expected one.\<close>

fun deliver ::
  "services \<Rightarrow> ctx_ptr \<Rightarrow> mq_ptr \<Rightarrow> u32 \<Rightarrow> skynet_message list \<Rightarrow> skynet_monitor \<Rightarrow> node \<Rightarrow> (skynet_monitor \<times> node) option" where
  "deliver sv c p h [] sm n = Some (sm, n)"
| "deliver sv c p h (m # ms) sm n = do {
     (x, n1) \<leftarrow> mq_pop_at p n;
     if x \<noteq> Some m then None
     else do {
       (sm1, n2) \<leftarrow> dispatch_one sv c p h m sm n1;
       deliver sv c p h ms sm1 n2 } }"

definition working :: "ghost \<Rightarrow> ctx_ptr \<Rightarrow> mq_ptr \<Rightarrow> node \<Rightarrow> bool" where
  "working G c p n \<longleftrightarrow> node_ok G n \<and> 0 < held G c \<and> p \<in> owned G
     \<and> (\<exists>cx. ctxs n c = Some cx \<and> cx_init cx \<and> cx_queue cx = p)"

lemma workingE:
  assumes "working G c p n"
  obtains cx q where "node_ok G n" "0 < held G c" "p \<in> owned G" "ctxs n c = Some cx" "cx_init cx" "cx_queue cx = p"
    "queue_at n p = Some q" "\<not> mq_release q" "mq_handle q = cx_handle cx" "workable n p"
proof -
  from assms obtain cx where cx: "node_ok G n" "0 < held G c" "p \<in> owned G" "ctxs n c = Some cx" "cx_init cx" "cx_queue cx = p"
    by (auto simp: working_def)
  note links = node_ok_parts(3) [OF cx(1)]
  from links_queue [OF links cx(4)] cx(6) obtain q where q: "queue_at n p = Some q" "\<not> mq_release q" "mq_handle q = cx_handle cx"
    by auto
  have "workable n p"
    unfolding workable_def
  proof (intro allI impI)
    fix d dx assume d: "ctxs n d = Some dx" "cx_queue dx = p"
    then have "d = c" using links_inj [OF links d(1) cx(4)] cx(6) by simp
    with d(1) cx(4,5) show "ready n d dx" by (simp add: ready_def)
  qed
  with cx q show ?thesis by (rule that)
qed

lemma working_le:
  assumes w: "working G c p n" and "node_ok G n'" "node_le G n n'"
  shows "working G c p n'"
proof -
  from w obtain cx where cx: "0 < held G c" "p \<in> owned G" "ctxs n c = Some cx" "cx_init cx" "cx_queue cx = p"
    by (rule workingE)
  from node_le_ctx [OF assms(3) cx(3)] cx(1) obtain cx' where "ctxs n' c = Some cx'" "context_le cx cx'" by blast
  with cx assms(2) show ?thesis by (auto simp: working_def context_le_def)
qed

lemma mq_length_view:
  assumes "node_ok G n" "queue_at n p = Some q"
  obtains r where "mqs (mqst n) p = Some r" "skynet_mq_length r = int (length (mq_contents q))" "mq_handle r = mq_handle q"
proof -
  from assms(2) obtain r where r: "mqs (mqst n) p = Some r" "q = r\<lparr>mq_next := None\<rparr>" unfolding queue_at_def by (rule mq_view_raw)
  have "mq_inv q" using links_owner [OF node_ok_parts(3) [OF assms(1)] assms(2)] by blast
  then have "skynet_mq_length q = int (length (mq_contents q))" by (rule mq_length_contents)
  moreover have "skynet_mq_length q = skynet_mq_length r" by (simp add: r(2) skynet_mq_length_def)
  ultimately show ?thesis using r by (intro that [of r]) simp_all
qed

abbreviation disown :: "mq_ptr \<Rightarrow> ghost \<Rightarrow> ghost" where
  "disown p G \<equiv> G\<lparr>owned := owned G - {p}\<rparr>"

lemma working_step:
  assumes wb: "well_behaved sv" and w: "working G c p n" and q: "queue_at n p = Some q" "mq_contents q = m # ms"
    and m: "loggable sv m"
  shows "\<exists>n1 r sm1 n2 q2 new. mq_pop_at p n = Some (Some m, n1) \<and> mqs (mqst n1) p = Some r
    \<and> skynet_mq_length r = int (length ms) \<and> dispatch_one sv c p h m sm n1 = Some (sm1, n2) \<and> working G c p n2
    \<and> queue_at n2 p = Some q2 \<and> mq_contents q2 = ms @ new \<and> node_le (disown p G) n n2"
proof -
  from w obtain cx where cx: "node_ok G n" "0 < held G c" "p \<in> owned G" "ctxs n c = Some cx" "cx_init cx" "cx_queue cx = p"
    "\<not> mq_release q" "workable n p" by (rule workingE) (use q in auto)
  from pop_ok [OF cx(1) q(1)] cx(3,7,8) q(2) obtain s q1 where n1: "mq_pop_at p n = Some (Some m, set_mq s n)" "node_ok G (set_mq s n)"
    "mq_view s = (queue_at n)(p \<mapsto> q1)" "mq_contents q1 = ms" "\<not> mq_release q1" "mq_handle q1 = mq_handle q"
    by (auto simp: workable_def list_pop_def)
  let ?n1 = "set_mq s n"
  have q1: "queue_at ?n1 p = Some q1" using n1(3) by simp
  have w1: "working G c p ?n1" using n1(2) cx by (simp add: working_def)
  have le1: "node_le (disown p G) n ?n1" by (rule set_queue_le [OF n1(3)]) simp
  from mq_length_view [OF n1(2) q1] n1(4) obtain r where r: "mqs (mqst ?n1) p = Some r" "skynet_mq_length r = int (length ms)"
    by auto
  from dispatch_one_ok [OF wb n1(2) cx(2) _ cx(5) q1 n1(5) m, of h sm] cx(4) obtain sm1 n2 where
    n2: "dispatch_one sv c p h m sm ?n1 = Some (sm1, n2)" "node_ok G n2" "node_le G ?n1 n2" by (auto simp: keeps_def)
  from node_le_queue [OF n2(3) cx(3) q1] n1(4) obtain q2 new where q2: "queue_at n2 p = Some q2" "mq_contents q2 = ms @ new"
    by (auto simp: queue_le_def)
  have "node_le (disown p G) n n2"
    by (rule node_le_trans [OF le1]) (rule node_le_mono [OF n2(3)], auto)
  with n1(1) r n2(1) working_le [OF w1 n2(2,3)] q2 show ?thesis by blast
qed

lemma dispatch_loop_rest:
  assumes "well_behaved sv" "working G c p n" "queue_at n p = Some q" "mq_contents q = ms @ rest"
    and "\<forall>m \<in> set ms. loggable sv m" "0 < i" "k = i + length ms"
  shows "\<exists>sm' n' q' new. deliver sv c p h ms sm n = Some (sm', n') \<and> dispatch_loop sv c p h w i k sm n = Some (True, sm', n')
    \<and> working G c p n' \<and> queue_at n' p = Some q' \<and> mq_contents q' = rest @ new \<and> node_le (disown p G) n n'"
  using assms(2-)
proof (induction ms arbitrary: i sm n q rest)
  case Nil
  then show ?case by (simp add: dispatch_loop.simps)
next
  case (Cons m ms)
  from working_step [OF assms(1) Cons.prems(1,2), of m "ms @ rest" h sm] Cons.prems(3,4) obtain n1 r sm1 n2 q2 new where
    step: "mq_pop_at p n = Some (Some m, n1)" "mqs (mqst n1) p = Some r" "dispatch_one sv c p h m sm n1 = Some (sm1, n2)"
      "working G c p n2" "queue_at n2 p = Some q2" "mq_contents q2 = ms @ rest @ new" "node_le (disown p G) n n2"
    by auto
  from Cons.IH [OF step(4-6), of "Suc i" sm1] Cons.prems(4-6) obtain sm' n' q' new' where
    rest: "deliver sv c p h ms sm1 n2 = Some (sm', n')" "dispatch_loop sv c p h w (Suc i) k sm1 n2 = Some (True, sm', n')"
      "working G c p n'" "queue_at n' p = Some q'" "mq_contents q' = rest @ new @ new'" "node_le (disown p G) n2 n'" by auto
  have "dispatch_loop sv c p h w i k sm n = Some (True, sm', n')"
    using step(1-3) rest(2) Cons.prems(5,6) by (simp add: dispatch_loop.simps [of _ _ _ _ _ i])
  with step(1,3) rest node_le_trans [OF step(7) rest(6)] show ?case by auto
qed

lemma dispatch_loop_batch:
  assumes wb: "well_behaved sv" and w: "working G c p n" and q: "queue_at n p = Some q" "mq_contents q \<noteq> []"
    and lg: "\<forall>m \<in> set (mq_contents q). loggable sv m"
    and k_def: "k = batch weight (length (mq_contents q))"
  shows "\<exists>sm' n' q' new. deliver sv c p h (take k (mq_contents q)) sm n = Some (sm', n')
    \<and> dispatch_loop sv c p h weight 0 1 sm n = Some (True, sm', n')
    \<and> working G c p n' \<and> queue_at n' p = Some q' \<and> mq_contents q' = drop k (mq_contents q) @ new \<and> node_le (disown p G) n n'"
proof -
  from q(2) obtain m ms where ms: "mq_contents q = m # ms" by (cases "mq_contents q") auto
  from working_step [OF wb w q(1) ms, of h sm] lg ms obtain n1 r sm1 n2 q2 new where
    step: "mq_pop_at p n = Some (Some m, n1)" "mqs (mqst n1) p = Some r" "skynet_mq_length r = int (length ms)"
      "dispatch_one sv c p h m sm n1 = Some (sm1, n2)" "working G c p n2" "queue_at n2 p = Some q2" "mq_contents q2 = ms @ new"
      "node_le (disown p G) n n2" by auto
  define k1 where "k1 = (if 0 \<le> weight then length ms div 2 ^ nat weight else 1)"
  have k: "k = Suc (k1 - 1)" by (auto simp: k_def k1_def batch_def ms max_def)
  have k1: "k1 - 1 \<le> length ms" using div_le_dividend [of "length ms" "2 ^ nat weight"] by (auto simp: k1_def intro: le_trans [OF diff_le_self])
  have unfold: "dispatch_loop sv c p h weight 0 1 sm n = dispatch_loop sv c p h weight 1 k1 sm1 n2"
    using step(1-4) by (simp add: dispatch_loop.simps [of _ _ _ _ _ 0] k1_def drop_bit_eq_div)
  have cont: "mq_contents q2 = take (k1 - 1) ms @ drop (k1 - 1) ms @ new" using step(7) by simp
  have lg1: "\<forall>m \<in> set (take (k1 - 1) ms). loggable sv m" using lg ms by (auto dest: in_set_takeD)
  have "1 + length (take (k1 - 1) ms) = (if k1 = 0 then 1 else k1)" using k1 by auto
  from dispatch_loop_rest [OF wb step(5,6) cont lg1 zero_less_one refl, of h sm1 weight, unfolded this] obtain sm' n' q' new' where
    rest: "deliver sv c p h (take (k1 - 1) ms) sm1 n2 = Some (sm', n')"
      "dispatch_loop sv c p h weight 1 (if k1 = 0 then 1 else k1) sm1 n2 = Some (True, sm', n')"
      "working G c p n'" "queue_at n' p = Some q'" "mq_contents q' = (drop (k1 - 1) ms @ new) @ new'" "node_le (disown p G) n2 n'"
    by blast
  have "dispatch_loop sv c p h weight 1 k1 sm1 n2 = Some (True, sm', n')"
    using rest(1,2) by (cases "k1 = 0") (simp_all add: dispatch_loop.simps)
  with unfold step(1,4) rest k node_le_trans [OF step(8) rest(6)] show ?thesis by (auto simp: ms)
qed

subsection \<open>A round\<close>

lemma handle_grab_ok:
  assumes ok: "node_ok G n" and c: "handle_lookup (context_handle n) (hs n) h = Some c"
  shows "\<exists>cx. ctxs n c = Some cx \<and> skynet_handle_grab h n = Some (Some c, set_ctx c (cx\<lparr>cx_ref := cx_ref cx + 1\<rparr>) n)
    \<and> node_ok (set_held c (Suc (held G c)) G) (set_ctx c (cx\<lparr>cx_ref := cx_ref cx + 1\<rparr>) n)"
proof -
  from lookup_registered [OF ok c] registered_live [OF ok] obtain cx where cx: "ctxs n c = Some cx" "0 < cx_ref cx" by blast
  from context_grab_ok [OF ok cx] c cx(1) show ?thesis by (simp add: skynet_handle_grab_def)
qed

lemma globalmq_pop_ok:
  assumes ok: "node_ok G n"
  shows "\<exists>q s. globalmq_pop_at n = Some (q, set_mq s n) \<and> node_ok (G\<lparr>owned := set_option q \<union> owned G\<rparr>) (set_mq s n)
    \<and> mq_view s = queue_at n \<and> (\<forall>p. q = Some p \<longrightarrow> p \<notin> owned G \<and> workable n p)"
proof -
  from ok obtain ps where sched: "sched_ok G ps n" by (rule node_okE)
  note rep = sched_rep [OF sched]
  show ?thesis
  proof (cases ps)
    case Nil
    with rep(1) ok show ?thesis by (auto simp: globalmq_pop_at_def globalmq_pop_Nil queue_at_def intro!: exI [of _ "mqst n"])
  next
    case (Cons p ps')
    from globalmq_pop_Cons [of "mqst n" p ps'] rep(1) Cons obtain s where
      s: "skynet_globalmq_pop (mqst n) = Some (Some p, s)" "gq_rep s ps'" "mq_view s = mq_view (mqst n)" by auto
    from sched_dom [OF sched] Cons obtain q where q: "queue_at n p = Some q" by auto
    with s(3) have view: "mq_view s = (queue_at n)(p \<mapsto> q)" by (auto simp: fun_eq_iff queue_at_def)
    have p: "p \<notin> owned G" "p \<notin> set ps'" using rep Cons by (auto simp: gq_rep_def)
    note iff = sched_iff [OF sched q]
    have "node_ok (G\<lparr>owned := insert p (owned G)\<rparr>) (set_mq s n)"
    proof (rule set_queue_ok [OF ok sched q s(2) view refl _ refl])
      show "mq_inv q" using links_owner [OF node_ok_parts(3) [OF ok] q] by blast
    qed (use Cons iff rep(2) p in auto)
    moreover have "workable n p" using sched_init [OF sched] p(1) by (auto simp: workable_def)
    ultimately show ?thesis using s p(1) by (auto simp: globalmq_pop_at_def queue_at_def)
  qed
qed

lemma owned_queue: "node_ok G n \<Longrightarrow> p \<in> owned G \<Longrightarrow> queue_at n p \<noteq> None"
  using sched_dom [of G _ n] by (auto elim!: node_okE)

lemma workable_same: "ctxs n' = ctxs n \<Longrightarrow> hs n' = hs n \<Longrightarrow> workable n' p = workable n p"
  by (simp add: workable_def ready_def)

lemma next_queue_ok:
  assumes ok: "node_ok G n" and p: "p \<in> owned G" "workable n p"
  shows "\<exists>q s. next_queue p n = Some (Some q, set_mq s n) \<and> node_ok (G\<lparr>owned := insert q (owned G - {p})\<rparr>) (set_mq s n)
    \<and> q \<notin> owned G - {p} \<and> workable n q"
proof -
  from globalmq_pop_ok [OF ok] obtain nq s where nq: "globalmq_pop_at n = Some (nq, set_mq s n)"
    "node_ok (G\<lparr>owned := set_option nq \<union> owned G\<rparr>) (set_mq s n)" "\<And>p. nq = Some p \<Longrightarrow> p \<notin> owned G \<and> workable n p" by blast
  show ?thesis
  proof (cases nq)
    case None
    with nq p have "node_ok (G\<lparr>owned := insert p (owned G - {p})\<rparr>) (set_mq s n)" by (simp add: insert_absorb)
    with None nq(1) p(2) show ?thesis by (auto simp: next_queue_def)
  next
    case (Some q)
    let ?G = "G\<lparr>owned := set_option nq \<union> owned G\<rparr>"
    have "p \<in> owned ?G" using p(1) by simp
    from give_back_ok [OF nq(2) this] p(2) obtain s' where s': "skynet_globalmq_push p (mqst (set_mq s n)) = Some s'"
      "node_ok (?G\<lparr>owned := owned ?G - {p}\<rparr>) (set_mq s' (set_mq s n))" by (auto simp: workable_def)
    have "insert q (owned G - {p}) = owned ?G - {p}" using nq(3) [OF Some] Some p(1) by auto
    with s' nq(1) nq(3) [OF Some] Some show ?thesis by (auto simp: next_queue_def)
  qed
qed

text \<open>What a round leaves: the worker has given up \<open>p\<close> and holds the queue that is returned,
  which nobody else holds.\<close>

definition handed_on :: "ghost \<Rightarrow> mq_ptr set \<Rightarrow> mq_ptr option \<Rightarrow> node \<Rightarrow> bool" where
  "handed_on G P q n \<longleftrightarrow> node_ok (G\<lparr>owned := set_option q \<union> (owned G - P)\<rparr>) n
     \<and> (\<forall>x. q = Some x \<longrightarrow> x \<notin> owned G - P \<and> workable n x)"

lemma pop_next:
  assumes "node_ok (disown p G) n"
  shows "\<exists>q n'. globalmq_pop_at n = Some (q, n') \<and> handed_on G {p} q n'"
  using globalmq_pop_ok [OF assms] by (auto simp: handed_on_def workable_def ready_def)

lemma release_held:
  assumes wb: "well_behaved sv" and ok: "node_ok (G\<lparr>held := (held G)(c := Suc (held G c)), owned := B\<rparr>) n"
  shows "\<exists>r n'. skynet_context_release sv c n = Some (r, n') \<and> node_ok (G\<lparr>owned := B\<rparr>) n' \<and> node_le (G\<lparr>owned := B\<rparr>) n n'"
proof -
  let ?G = "G\<lparr>held := (held G)(c := Suc (held G c)), owned := B\<rparr>"
  have G: "set_held c (held ?G c - 1) ?G = G\<lparr>owned := B\<rparr>" by (simp add: set_held_def)
  have "0 < held ?G c" by simp
  from context_release_ok [OF wb ok this, unfolded G] show ?thesis by blast
qed

text \<open>The queue belongs to the service that is registered under its handle, if there is one.
  This fails only when a handle is registered again while the queue of its former owner
  still exists.\<close>

definition own_queue :: "node \<Rightarrow> mq_ptr \<Rightarrow> bool" where
  "own_queue n p \<longleftrightarrow> (\<forall>q c cx. queue_at n p = Some q \<longrightarrow> handle_lookup (context_handle n) (hs n) (mq_handle q) = Some c
     \<longrightarrow> ctxs n c = Some cx \<longrightarrow> cx_queue cx = p)"

lemma start_round:
  assumes ok: "node_ok G n" and p: "p \<in> owned G" "workable n p" "own_queue n p" and q: "queue_at n p = Some q"
    and c: "handle_lookup (context_handle n) (hs n) (mq_handle q) = Some c"
  defines "G1 \<equiv> G\<lparr>held := (held G)(c := Suc (held G c))\<rparr>"
  shows "\<exists>n1. skynet_handle_grab (mq_handle q) n = Some (Some c, n1) \<and> working G1 c p n1 \<and> queue_at n1 = queue_at n \<and> node_le G n n1"
proof -
  from handle_grab_ok [OF ok c] obtain cx where cx: "ctxs n c = Some cx"
    "skynet_handle_grab (mq_handle q) n = Some (Some c, set_ctx c (cx\<lparr>cx_ref := cx_ref cx + 1\<rparr>) n)"
    "node_ok (set_held c (Suc (held G c)) G) (set_ctx c (cx\<lparr>cx_ref := cx_ref cx + 1\<rparr>) n)" by blast
  have "cx_queue cx = p" using p(3) q c cx(1) by (auto simp: own_queue_def)
  moreover have "cx_init cx" using p(2) cx(1) lookup_registered [OF ok c] calculation by (auto simp: workable_def ready_def)
  moreover have "node_le G n (set_ctx c (cx\<lparr>cx_ref := cx_ref cx + 1\<rparr>) n)"
    by (rule set_ctx_le [OF cx(1)]) (simp add: context_le_def)
  ultimately show ?thesis using cx p(1) by (simp add: working_def G1_def set_held_def)
qed

abbreviation grabbed :: "ctx_ptr \<Rightarrow> ghost \<Rightarrow> ghost" where
  "grabbed c G \<equiv> G\<lparr>held := (held G)(c := Suc (held G c))\<rparr>"

lemma round_gone:
  assumes wb: "well_behaved sv" and ok: "node_ok G n" and p: "p \<in> owned G" "workable n p" and q: "queue_at n p = Some q"
    and c: "handle_lookup (context_handle n) (hs n) (mq_handle q) = None"
  shows "\<exists>q' n'. dispatch_queue sv sm p w n = Some (q', sm, n') \<and> handed_on G {p} q' n'"
proof -
  from mq_length_view [OF ok q] obtain r where r: "mqs (mqst n) p = Some r" "mq_handle r = mq_handle q" by blast
  have "own_handle n (mq_handle q)" using links_owner [OF node_ok_parts(3) [OF ok] q] by (simp add: own_handle_def)
  from mq_release_ok [OF ok p(1) this, of sv] p(2) obtain n2 where n2: "skynet_mq_release sv (mq_handle q) p n = Some n2"
    "node_ok (disown p G) n2" by (auto simp: workable_def keeps_def)
  with pop_next [OF n2(2)] r c show ?thesis
    by (auto simp: dispatch_queue_def skynet_mq_handle_def skynet_handle_grab_def)
qed

lemma round_empty:
  assumes wb: "well_behaved sv" and w: "working (grabbed c G) c p n" and q: "queue_at n p = Some q" "mq_contents q = []"
  shows "\<exists>n' q' n'' r n3. dispatch_loop sv c p h k 0 1 sm n = Some (False, sm, n') \<and> skynet_context_release sv c n' = Some (r, n3)
    \<and> globalmq_pop_at n3 = Some (q', n'') \<and> handed_on G {p} q' n''"
proof -
  from w obtain cx where cx: "node_ok (grabbed c G) n" "p \<in> owned (grabbed c G)" "\<not> mq_release q" "workable n p"
    by (rule workingE) (use q in auto)
  from pop_ok [OF cx(1) q(1)] cx(2-) q(2) obtain n1 where n1: "mq_pop_at p n = Some (None, n1)"
    "node_ok (G\<lparr>held := (held G)(c := Suc (held G c)), owned := owned G - {p}\<rparr>) n1" by (auto simp: workable_def list_pop_def)
  from release_held [OF wb n1(2)] obtain r n2 where n2: "skynet_context_release sv c n1 = Some (r, n2)" "node_ok (disown p G) n2"
    by blast
  have "dispatch_loop sv c p h k 0 1 sm n = Some (False, sm, n1)" using n1(1) by (simp add: dispatch_loop.simps)
  with n2(1) pop_next [OF n2(2)] show ?thesis by blast
qed

lemma round_end:
  assumes wb: "well_behaved sv" and w: "working (grabbed c G) c p n"
  shows "\<exists>q' n1 r n2. next_queue p n = Some (Some q', n1) \<and> skynet_context_release sv c n1 = Some (r, n2) \<and> handed_on G {p} (Some q') n2"
proof -
  from w obtain cx where cx: "node_ok (grabbed c G) n" "p \<in> owned (grabbed c G)" "workable n p" by (rule workingE)
  from next_queue_ok [OF cx] obtain q' s where n1: "next_queue p n = Some (Some q', set_mq s n)"
    "node_ok (G\<lparr>held := (held G)(c := Suc (held G c)), owned := insert q' (owned G - {p})\<rparr>) (set_mq s n)"
    "q' \<notin> owned G - {p}" "workable n q'" by auto
  from release_held [OF wb n1(2)] obtain r n2 where n2: "skynet_context_release sv c (set_mq s n) = Some (r, n2)"
    "node_ok (G\<lparr>owned := insert q' (owned G - {p})\<rparr>) n2" "node_le (G\<lparr>owned := insert q' (owned G - {p})\<rparr>) (set_mq s n) n2"
    by blast
  have "workable (set_mq s n) q'" using n1(4) by (simp add: workable_def)
  from workable_le [OF n2(3) this] owned_queue [OF n1(2), of q'] have "workable n2 q'" by simp
  with n1 n2 show ?thesis by (auto simp: handed_on_def)
qed

lemma dispatch_queue_ok:
  assumes wb: "well_behaved sv" and ok: "node_ok G n" and p: "p \<in> owned G" "workable n p" "own_queue n p"
    and lg: "\<And>q m. queue_at n p = Some q \<Longrightarrow> m \<in> set (mq_contents q) \<Longrightarrow> loggable sv m"
  shows "\<exists>q' sm' n'. dispatch_queue sv sm p weight n = Some (q', sm', n') \<and> handed_on G {p} q' n'"
proof -
  from owned_queue [OF ok p(1)] obtain q where q: "queue_at n p = Some q" by blast
  from mq_length_view [OF ok q] obtain r where r: "mqs (mqst n) p = Some r" "mq_handle r = mq_handle q" by blast
  show ?thesis
  proof (cases "handle_lookup (context_handle n) (hs n) (mq_handle q)")
    case None
    from round_gone [OF wb ok p(1,2) q None] show ?thesis by blast
  next
    case (Some c)
    from start_round [OF ok p q Some] obtain n1 where n1: "skynet_handle_grab (mq_handle q) n = Some (Some c, n1)"
      "working (grabbed c G) c p n1" "queue_at n1 p = Some q" using q by auto
    show ?thesis
    proof (cases "mq_contents q = []")
      case True
      from round_empty [OF wb n1(2,3) True, of "mq_handle q" weight sm] show ?thesis
        using r n1(1) by (auto simp: dispatch_queue_def skynet_mq_handle_def)
    next
      case False
      have "\<forall>m \<in> set (mq_contents q). loggable sv m" using lg q by blast
      from dispatch_loop_batch [OF wb n1(2,3) False this refl, of "mq_handle q" weight sm] obtain sm' n2 where
        n2: "dispatch_loop sv c p (mq_handle q) weight 0 1 sm n1 = Some (True, sm', n2)" "working (grabbed c G) c p n2" by blast
      from n2(2) obtain cx where cx: "ctxs n2 c = Some cx" "cx_queue cx = p" by (rule workingE)
      from round_end [OF wb n2(2)] show ?thesis
        using r n1(1) n2(1) cx by (auto simp: dispatch_queue_def skynet_mq_handle_def)
    qed
  qed
qed

lemma pop_some:
  assumes ok: "node_ok G n" and pop: "globalmq_pop_at n = Some (Some p, n1)"
  shows "node_ok (G\<lparr>owned := insert p (owned G)\<rparr>) n1" "p \<notin> owned G" "workable n1 p" "own_queue n1 p = own_queue n p"
    "queue_at n1 = queue_at n"
proof -
  have ch: "context_handle (set_mq s n) = context_handle n" for s by (simp add: context_handle_def fun_eq_iff)
  show "node_ok (G\<lparr>owned := insert p (owned G)\<rparr>) n1" "p \<notin> owned G" "workable n1 p" "own_queue n1 p = own_queue n p"
    "queue_at n1 = queue_at n"
    using globalmq_pop_ok [OF ok] pop by (auto simp: own_queue_def workable_def ch)
qed

subsection \<open>The monitor\<close>

lemma context_endless_eq:
  assumes ok: "node_ok G n" and c: "handle_lookup (context_handle n) (hs n) h = Some c"
  shows "\<exists>cx. ctxs n c = Some cx \<and> skynet_context_endless sv h n = Some (set_ctx c (cx\<lparr>cx_endless := True\<rparr>) n)
    \<and> node_ok G (set_ctx c (cx\<lparr>cx_endless := True\<rparr>) n) \<and> node_le G n (set_ctx c (cx\<lparr>cx_endless := True\<rparr>) n)"
proof -
  from lookup_registered [OF ok c] registered_live [OF ok] obtain cx where cx: "ctxs n c = Some cx" "0 < cx_ref cx" by blast
  let ?cx = "cx\<lparr>cx_endless := True\<rparr>"
  have le: "context_le cx ?cx" by (simp add: context_le_def)
  have "skynet_context_endless sv h n = Some (set_ctx c ?cx n)"
    using c cx by (simp add: skynet_context_endless_def skynet_handle_grab_def skynet_context_grab_def skynet_context_release_def)
  with cx(1) set_ctx_inert [OF ok cx(1) le _ _ cx(2)] set_ctx_le [OF cx(1) le] show ?thesis by auto
qed

lemma monitor_check_report:
  assumes ok: "node_ok G n" and c: "handle_lookup (context_handle n) (hs n) (sm_destination sm) = Some c"
    and sm: "sm_version sm = sm_check_version sm" "sm_destination sm \<noteq> 0"
  shows "\<exists>n' cx. skynet_monitor_check sv sm n = Some (sm, n') \<and> node_ok G n' \<and> ctxs n' c = Some cx \<and> cx_endless cx
    \<and> hs n' = hs n \<and> context_handle n' = context_handle n"
proof -
  from context_endless_eq [OF ok c] obtain cx where n1: "ctxs n c = Some cx"
    "skynet_context_endless sv (sm_destination sm) n = Some (set_ctx c (cx\<lparr>cx_endless := True\<rparr>) n)"
    "node_ok G (set_ctx c (cx\<lparr>cx_endless := True\<rparr>) n)" by blast
  let ?n1 = "set_ctx c (cx\<lparr>cx_endless := True\<rparr>) n"
  let ?msg = "''A message from [ :'' @ pad_left 8 (print_hex (sm_source sm)) @ '' ] to [ :''
    @ pad_left 8 (print_hex (sm_destination sm)) @ '' ] maybe in an endless loop (version = ''
    @ print_dec (sm_version sm) @ '')''"
  from skynet_error_sends [OF n1(3), of None sv ?msg] obtain l s where
    n2: "skynet_error sv None ?msg ?n1 = Some (?n1\<lparr>logger := l, mqst := s\<rparr>)" "node_ok G (?n1\<lparr>logger := l, mqst := s\<rparr>)" by auto
  have "skynet_monitor_check sv sm n = Some (sm, ?n1\<lparr>logger := l, mqst := s\<rparr>)"
    using n1(2) n2(1) sm by (simp add: skynet_monitor_check_def)
  moreover have "context_handle (?n1\<lparr>logger := l, mqst := s\<rparr>) = context_handle n"
    using n1(1) by (auto simp: context_handle_def fun_eq_iff)
  ultimately show ?thesis using n2(2) by (intro exI [of _ "?n1\<lparr>logger := l, mqst := s\<rparr>"]) simp
qed

lemma version_changes:
  assumes "0 < k" "k < 2 ^ 32"
  shows "signed_take_bit 31 (v + int k) \<noteq> v"
proof
  assume "signed_take_bit 31 (v + int k) = v"
  then have "take_bit 32 (v + int k) = take_bit 32 v" using take_bit_signed_take_bit [of 32 31 "v + int k"] by simp
  then have "(v + int k) mod 2 ^ 32 = v mod 2 ^ 32" by (simp only: take_bit_eq_mod)
  then have "(2 :: int) ^ 32 dvd int k" by (simp add: mod_eq_dvd_iff)
  with assms show False using zdvd_imp_le [of "2 ^ 32" "int k"] by simp
qed

lemma triggers_version:
  "sm_check_version (fold (\<lambda>(src, dest). skynet_monitor_trigger src dest) ts sm) = sm_check_version sm
    \<and> (ts \<noteq> [] \<longrightarrow> sm_version (fold (\<lambda>(src, dest). skynet_monitor_trigger src dest) ts sm)
        = signed_take_bit 31 (sm_version sm + int (length ts)))"
proof (induction ts rule: rev_induct)
  case (snoc t ts)
  have "signed_take_bit 31 (signed_take_bit 31 (sm_version sm + int (length ts)) + 1)
      = signed_take_bit 31 (sm_version sm + int (length ts) + 1)"
    using signed_take_bit_add [of 31 "sm_version sm + int (length ts)" 1] by simp
  with snoc show ?case by (cases t; cases "ts = []") (simp_all add: skynet_monitor_trigger_def ac_simps)
qed simp

subsection \<open>A busy service\<close>

definition busy_queue :: message_queue where
  "busy_queue = mq_enqueue demo_message (mq_enqueue demo_message (mq_enqueue demo_message (new_queue 0x01000001)))"

lemma busy_contents: "mq_contents busy_queue = [demo_message, demo_message, demo_message]"
  by (simp add: busy_queue_def inv_intros abs_simps)

lemma busy_live: "demo_live busy_queue"
proof -
  have "\<forall>m \<in> set (mq_contents busy_queue). source m = 0x01000001" by (simp add: busy_contents demo_message_def)
  then show ?thesis by (simp add: demo_live_def) (simp add: busy_queue_def inv_intros)
qed

abbreviation busy_node :: node where
  "busy_node \<equiv> demo_at busy_queue"

lemma demo_lookup:
  "handle_lookup (context_handle (demo_at q)) (hs (demo_at q)) 0x01000001 = Some 3"
  "handle_lookup (context_handle (demo_at q)) (hs (demo_at q)) 0x01000002 = None"
  by (simp_all add: handle_lookup_def slot_hash_def skynet_handle_init_def DEFAULT_SLOT_SIZE_def)

lemma busy_facts:
  "queue_at busy_node = [2 \<mapsto> busy_queue, 4 \<mapsto> demo_dead]" "mq_handle busy_queue = 0x01000001"
  "node_ok demo_ghost busy_node" "workable busy_node p" "2 \<in> owned demo_ghost"
  using busy_live demo_at_ok [OF busy_live] by (simp_all add: demo_live_def workable_def ready_def demo_ghost_def)

lemma busy_own: "own_queue busy_node p"
  unfolding own_queue_def busy_facts(1)
  using demo_lookup busy_facts(2) by (auto split: if_splits)

lemma demo_loggable: "loggable sv demo_message"
  by (simp add: loggable_def demo_message_def PTYPE_SOCKET_def)

subsection \<open>Properties\<close>

text \<open>C25. A worker may call the dispatcher again and again: a round returns, keeps the
  invariant of the node, gives up the queue it was called with and returns one that no
  other thread holds, or none. This is so whether the service still exists or not and
  whatever its callback does, as long as the service code keeps the invariant, the messages
  can be logged and no handle is reused while the queue of its former owner exists.\<close>

theorem dispatch_keeps:
  assumes "well_behaved sv" "node_ok G n" "\<forall>p. q = Some p \<longrightarrow> p \<in> owned G \<and> workable n p"
    and "\<forall>p. queue_at n p \<noteq> None \<longrightarrow> own_queue n p"
    and "\<forall>p q m. queue_at n p = Some q \<longrightarrow> m \<in> set (mq_contents q) \<longrightarrow> loggable sv m"
  shows "\<exists>q' sm' n'. skynet_context_message_dispatch sv sm q weight n = Some (q', sm', n') \<and> handed_on G (set_option q) q' n'"
proof (cases q)
  case (Some p)
  with assms(3) have p: "p \<in> owned G" "workable n p" by auto
  with assms(4) owned_queue [OF assms(2)] have "own_queue n p" by blast
  from dispatch_queue_ok [OF assms(1,2) p this] assms(5) Some show ?thesis
    by (auto simp: skynet_context_message_dispatch_def)
next
  case None
  from globalmq_pop_ok [OF assms(2)] obtain q1 n1 where pop: "globalmq_pop_at n = Some (q1, n1)"
    "node_ok (G\<lparr>owned := set_option q1 \<union> owned G\<rparr>) n1" by blast
  show ?thesis
  proof (cases q1)
    case None
    with pop \<open>q = None\<close> show ?thesis by (auto simp: skynet_context_message_dispatch_def handed_on_def)
  next
    case (Some p)
    note p = pop_some [OF assms(2) pop(1) [unfolded Some]]
    let ?G = "G\<lparr>owned := insert p (owned G)\<rparr>"
    have own: "own_queue n1 p" using p(4) assms(4) owned_queue [OF p(1), of p] p(5) by simp
    from dispatch_queue_ok [OF assms(1) p(1) _ p(3) own, of sm weight] assms(5) p(5) obtain q' sm' n' where
      "dispatch_queue sv sm p weight n1 = Some (q', sm', n')" "handed_on ?G {p} q' n'" by auto
    moreover have "insert p (owned G) - {p} = owned G" using p(2) by auto
    ultimately show ?thesis using pop(1) Some None by (auto simp: skynet_context_message_dispatch_def handed_on_def)
  qed
qed

theorem dispatch_keeps_witness:
  "\<exists>q' sm' n'. skynet_context_message_dispatch quiet_services skynet_monitor_new (Some 2) 0 busy_node = Some (q', sm', n')
     \<and> handed_on demo_ghost {2} q' n'"
proof -
  have "loggable quiet_services m" if "queue_at busy_node p = Some q" "m \<in> set (mq_contents q)" for p q m
    using that demo_loggable unfolding busy_facts(1) by (auto simp: busy_contents split: if_splits)
  then show ?thesis
    using dispatch_keeps [OF quiet_well_behaved busy_facts(3), of "Some 2" skynet_monitor_new 0] busy_facts(4,5) busy_own by simp
qed

text \<open>C26. A round takes the oldest messages off the queue and hands them over one by one in
  their order: one when the weight is negative, otherwise as many as the remaining length of
  the queue after the first one shifted right by the weight, at least one. The others stay in
  the queue, in front of those that arrive in the meantime. What is left of the round is the
  choice of the next queue and the release of the service.\<close>

theorem dispatch_order:
  assumes "well_behaved sv" "node_ok G n" "p \<in> owned G" "workable n p" "own_queue n p" "queue_at n p = Some q"
    and "mq_contents q \<noteq> []" "\<forall>m \<in> set (mq_contents q). loggable sv m" "inbox n (mq_handle q) \<noteq> None"
  shows "\<exists>c n1 sm' n2 q2 new q' n3 r n'. skynet_handle_grab (mq_handle q) n = Some (Some c, n1)
    \<and> deliver sv c p (mq_handle q) (take (batch weight (length (mq_contents q))) (mq_contents q)) sm n1 = Some (sm', n2)
    \<and> queue_at n2 p = Some q2 \<and> mq_contents q2 = drop (batch weight (length (mq_contents q))) (mq_contents q) @ new
    \<and> next_queue p n2 = Some (Some q', n3) \<and> skynet_context_release sv c n3 = Some (r, n')
    \<and> skynet_context_message_dispatch sv sm (Some p) weight n = Some (Some q', sm', n')"
proof -
  from inbox_iff [OF assms(2)] assms(9) obtain c where c: "handle_lookup (context_handle n) (hs n) (mq_handle q) = Some c" by auto
  from start_round [OF assms(2-6) c] obtain n1 where n1: "skynet_handle_grab (mq_handle q) n = Some (Some c, n1)"
    "working (grabbed c G) c p n1" "queue_at n1 p = Some q" using assms(6) by auto
  let ?k = "batch weight (length (mq_contents q))"
  from dispatch_loop_batch [OF assms(1) n1(2,3) assms(7,8) refl, of "mq_handle q" weight sm] obtain sm' n2 q2 new where
    n2: "deliver sv c p (mq_handle q) (take ?k (mq_contents q)) sm n1 = Some (sm', n2)"
      "dispatch_loop sv c p (mq_handle q) weight 0 1 sm n1 = Some (True, sm', n2)" "working (grabbed c G) c p n2"
      "queue_at n2 p = Some q2" "mq_contents q2 = drop ?k (mq_contents q) @ new" by blast
  from n2(3) obtain cx where cx: "ctxs n2 c = Some cx" "cx_queue cx = p" by (rule workingE)
  from mq_length_view [OF assms(2,6)] obtain rq where rq: "mqs (mqst n) p = Some rq" "mq_handle rq = mq_handle q" by blast
  from round_end [OF assms(1) n2(3)] obtain q' n3 r n' where
    n': "next_queue p n2 = Some (Some q', n3)" "skynet_context_release sv c n3 = Some (r, n')" by blast
  then have "skynet_context_message_dispatch sv sm (Some p) weight n = Some (Some q', sm', n')"
    using rq n1(1) n2(2) cx by (simp add: skynet_context_message_dispatch_def dispatch_queue_def skynet_mq_handle_def)
  with n1(1) n2 n' show ?thesis by blast
qed

theorem dispatch_order_witness:
  "\<exists>c n1 sm' n2 q2 new q' n3 r n'. skynet_handle_grab 0x01000001 busy_node = Some (Some c, n1)
    \<and> deliver quiet_services c 2 0x01000001 [demo_message, demo_message] skynet_monitor_new n1 = Some (sm', n2)
    \<and> queue_at n2 2 = Some q2 \<and> mq_contents q2 = demo_message # new
    \<and> next_queue 2 n2 = Some (Some q', n3) \<and> skynet_context_release quiet_services c n3 = Some (r, n')
    \<and> skynet_context_message_dispatch quiet_services skynet_monitor_new (Some 2) 0 busy_node = Some (Some q', sm', n')"
proof -
  have "inbox busy_node 0x01000001 \<noteq> None" using inbox_iff [OF busy_facts(3)] demo_lookup(1) by simp
  then show ?thesis
    using dispatch_order [OF quiet_well_behaved busy_facts(3,5,4) busy_own, of busy_queue 0 skynet_monitor_new] demo_loggable
    by (simp add: busy_facts(1,2) busy_contents batch_def)
qed

text \<open>C32. The monitor finds a service that does not come back from its callback: when two
  checks pass while the worker is busy with one message, the service is marked as endless.
  Progress of the worker in between is seen, also when its counter wraps around: after any
  number of triggers below the period of the counter the next check reports nothing.\<close>

theorem monitor_endless:
  assumes "node_ok G n" "handle_lookup (context_handle n) (hs n) (sm_destination sm) = Some c" "sm_destination sm \<noteq> 0"
  shows "\<exists>sm1 n1 sm2 n2 cx. skynet_monitor_check sv sm n = Some (sm1, n1) \<and> skynet_monitor_check sv sm1 n1 = Some (sm2, n2)
    \<and> ctxs n2 c = Some cx \<and> cx_endless cx \<and> node_ok G n2
    \<and> (\<forall>ts. ts \<noteq> [] \<longrightarrow> length ts < 2 ^ 32 \<longrightarrow>
          (\<exists>sm3. skynet_monitor_check sv (fold (\<lambda>(src, dest). skynet_monitor_trigger src dest) ts sm2) n2 = Some (sm3, n2)))"
proof -
  define sm1 where "sm1 = sm\<lparr>sm_check_version := sm_version sm\<rparr>"
  obtain n1 where n1: "skynet_monitor_check sv sm n = Some (sm1, n1)" "node_ok G n1" "hs n1 = hs n" "context_handle n1 = context_handle n"
  proof (cases "sm_version sm = sm_check_version sm")
    case True
    from monitor_check_report [OF assms(1,2) True assms(3)] obtain n' where
      "skynet_monitor_check sv sm n = Some (sm, n')" "node_ok G n'" "hs n' = hs n" "context_handle n' = context_handle n" by blast
    moreover have "sm1 = sm" using True by (cases sm) (simp add: sm1_def)
    ultimately show ?thesis using that by blast
  next
    case False
    with that [of n] assms(1) show ?thesis by (simp add: skynet_monitor_check_def sm1_def)
  qed
  have "handle_lookup (context_handle n1) (hs n1) (sm_destination sm1) = Some c" "sm_version sm1 = sm_check_version sm1"
    "sm_destination sm1 \<noteq> 0" using assms(2,3) n1(3,4) by (simp_all add: sm1_def)
  from monitor_check_report [OF n1(2) this] obtain n2 cx where "skynet_monitor_check sv sm1 n1 = Some (sm1, n2)" "node_ok G n2"
    "ctxs n2 c = Some cx" "cx_endless cx" by blast
  moreover have "\<exists>sm3. skynet_monitor_check sv (fold (\<lambda>(src, dest). skynet_monitor_trigger src dest) ts sm1) n2 = Some (sm3, n2)"
    if "ts \<noteq> []" "length ts < 2 ^ 32" for ts
    using triggers_version [of ts sm1] version_changes [of "length ts" "sm_version sm"] that
    by (simp add: skynet_monitor_check_def sm1_def)
  ultimately show ?thesis using n1(1) by blast
qed

theorem monitor_endless_witness:
  "\<exists>sm1 n1 sm2 n2 cx. skynet_monitor_check quiet_services (skynet_monitor_trigger 5 0x01000001 skynet_monitor_new) demo_node = Some (sm1, n1)
    \<and> skynet_monitor_check quiet_services sm1 n1 = Some (sm2, n2) \<and> ctxs n2 3 = Some cx \<and> cx_endless cx"
  using monitor_endless [OF demo_ok, of "skynet_monitor_trigger 5 0x01000001 skynet_monitor_new" 3 quiet_services]
    demo_lookup(1) [of "new_queue 0x01000001"] by (auto simp: skynet_monitor_trigger_def)

end
