(* ===== verification/Command.thy ===== *)
theory Command
  imports Dispatch
begin

section \<open>Commands (\<open>skynet_server.c\<close>)\<close>

text \<open>
  The commands that a service can give to its node, as text: timers, names, launching and
  killing services, the environment, the log. A command gets the calling context and a
  string that may be \<open>NULL\<close>; its result is the string that it returns. Where the C code
  reads through a null pointer or an uninitialised array, the result of the model is
  \<open>None\<close>.
\<close>

subsection \<open>Timers of the node\<close>

text \<open>The messages that the timer sends are pushed to the services.\<close>

fun push_all :: "services \<Rightarrow> (u32 \<times> skynet_message) list \<Rightarrow> node \<Rightarrow> node option" where
  "push_all sv [] n = Some n"
| "push_all sv ((h, m) # ms) n = do { (r, n1) \<leftarrow> skynet_context_push sv h m n; push_all sv ms n1 }"

definition node_timeout :: "services \<Rightarrow> u32 \<Rightarrow> int \<Rightarrow> int \<Rightarrow> node \<Rightarrow> (int \<times> node) option" where
  "node_timeout sv handle tm ses n =
     (let (r, ms, T) = skynet_timeout (\<lambda>h. handle_lookup (context_handle n) (hs n) h \<noteq> None) handle tm ses (nd_timer n)
      in do { n1 \<leftarrow> push_all sv ms (n\<lparr>nd_timer := T\<rparr>); Some (r, n1) })"

definition node_updatetime :: "services \<Rightarrow> u64 \<Rightarrow> node \<Rightarrow> node option" where
  "node_updatetime sv cp n = do {
     n1 \<leftarrow> (if cp < current_point (nd_timer n)
            then skynet_error sv None (''time diff error: change from '' @ print_dec (sint cp) @ '' to ''
                   @ print_dec (sint (current_point (nd_timer n)))) n
            else Some n);
     (fired, T) \<leftarrow> skynet_updatetime cp (nd_timer n1);
     push_all sv (concat fired) (n1\<lparr>nd_timer := T\<rparr>) }"

subsection \<open>The commands\<close>

type_synonym command = "services \<Rightarrow> ctx_ptr \<Rightarrow> string option \<Rightarrow> node \<Rightarrow> (string option \<times> node) option"

definition set_result :: "ctx_ptr \<Rightarrow> string \<Rightarrow> node \<Rightarrow> (string option \<times> node) option" where
  "set_result c str n = do {
     cx \<leftarrow> ctxs n c;
     Some (Some str, n\<lparr>ctxs := (ctxs n)(c \<mapsto> cx\<lparr>cx_result := str\<rparr>)\<rparr>) }"

definition handle_exit :: "services \<Rightarrow> ctx_ptr \<Rightarrow> u32 \<Rightarrow> node \<Rightarrow> node option" where
  "handle_exit sv c handle n = do {
     self \<leftarrow> skynet_context_handle c n;
     let h = (if handle = 0 then self else handle);
     n1 \<leftarrow> skynet_error sv (Some c) (if handle = 0 then ''KILL self'' else ''KILL :'' @ print_hex handle) n;
     n2 \<leftarrow> (if monitor_exit n1 \<noteq> 0
            then map_option snd (skynet_send sv (Some c) h (monitor_exit n1) PTYPE_CLIENT 0 None 0 n1)
            else Some n1);
     (r, n3) \<leftarrow> skynet_handle_retire sv h n2;
     Some n3 }"

definition cmd_timeout :: command where
  "cmd_timeout sv c param n = do {
     p \<leftarrow> param;
     let ti = signed_take_bit 31 (strtol 10 p);
     (ses, n1) \<leftarrow> skynet_context_newsession c n;
     h \<leftarrow> skynet_context_handle c n1;
     (r, n2) \<leftarrow> node_timeout sv h ti ses n1;
     set_result c (print_dec ses) n2 }"

definition cmd_reg :: command where
  "cmd_reg sv c param n = do {
     h \<leftarrow> skynet_context_handle c n;
     case param of
       None \<Rightarrow> set_result c (CHR '':'' # print_hex h) n
     | Some [] \<Rightarrow> set_result c (CHR '':'' # print_hex h) n
     | Some (ch # nm) \<Rightarrow>
         if ch = CHR ''.'' then do {
           (r, s) \<leftarrow> skynet_handle_namehandle h nm (hs n);
           Some (r, n\<lparr>hs := s\<rparr>) }
         else do {
           n1 \<leftarrow> skynet_error sv (Some c) (''Can'' @ [CHR 0x27] @ ''t register global name '' @ ch # nm @ '' in C'') n;
           Some (None, n1) } }"

definition cmd_query :: command where
  "cmd_query sv c param n = do {
     p \<leftarrow> param;
     case p of
       [] \<Rightarrow> Some (None, n)
     | ch # nm \<Rightarrow>
         if ch = CHR ''.'' then
           (let handle = skynet_handle_findname (hs n) nm
            in if handle \<noteq> 0 then set_result c (CHR '':'' # print_hex handle) n else Some (None, n))
         else Some (None, n) }"

text \<open>\<open>sscanf\<close> leaves an array untouched when the text has no word for it, and the code then
  reads the uninitialised array.\<close>

definition cmd_name :: command where
  "cmd_name sv c param n = do {
     p \<leftarrow> param;
     let (nm, handle) = scan_words p;
     nm \<leftarrow> nm;
     handle \<leftarrow> handle;
     if take 1 handle \<noteq> '':'' then Some (None, n)
     else do {
       let handle_id = (ucast (strtoul 16 (tl handle)) :: u32);
       if handle_id = 0 then Some (None, n)
       else if take 1 nm = ''.'' then do {
         (r, s) \<leftarrow> skynet_handle_namehandle handle_id (tl nm) (hs n);
         Some (r, n\<lparr>hs := s\<rparr>) }
       else do {
         n1 \<leftarrow> skynet_error sv (Some c) (''Can'' @ [CHR 0x27] @ ''t set global name '' @ nm @ '' in C'') n;
         Some (None, n1) } } }"

definition cmd_exit :: command where
  "cmd_exit sv c param n = do { n1 \<leftarrow> handle_exit sv c 0 n; Some (None, n1) }"

definition tohandle :: "services \<Rightarrow> ctx_ptr \<Rightarrow> string \<Rightarrow> node \<Rightarrow> (u32 \<times> node) option" where
  "tohandle sv c param n =
     (case param of
        CHR '':'' # ds \<Rightarrow> Some (ucast (strtoul 16 ds), n)
      | CHR ''.'' # nm \<Rightarrow> Some (skynet_handle_findname (hs n) nm, n)
      | _ \<Rightarrow> do {
          n1 \<leftarrow> skynet_error sv (Some c) (''Can'' @ [CHR 0x27] @ ''t convert '' @ param @ '' to handle'') n;
          Some (0, n1) })"

definition cmd_kill :: command where
  "cmd_kill sv c param n = do {
     p \<leftarrow> param;
     (handle, n1) \<leftarrow> tohandle sv c p n;
     n2 \<leftarrow> (if handle \<noteq> 0 then handle_exit sv c handle n1 else Some n1);
     Some (None, n2) }"

definition launch_words :: "string \<Rightarrow> string \<times> string option" where
  "launch_words p =
     (let (m, rest) = strsep {CHR 0x20, CHR 0x09, CHR 0x0d, CHR 0x0a} (Some p);
          (args, rest1) = strsep {CHR 0x0d, CHR 0x0a} rest
      in (the m, args))"

definition cmd_launch :: command where
  "cmd_launch sv c param n = do {
     p \<leftarrow> param;
     let (md, args) = launch_words p;
     (inst, n1) \<leftarrow> skynet_context_new sv md args n;
     case inst of
       None \<Rightarrow> Some (None, n1)
     | Some i \<Rightarrow> do { h \<leftarrow> skynet_context_handle i n1; set_result c (id_to_hex h) n1 } }"

definition cmd_getenv :: command where
  "cmd_getenv sv c param n = do { p \<leftarrow> param; Some (skynet_getenv (nd_env n) p, n) }"

definition cmd_setenv :: command where
  "cmd_setenv sv c param n = do {
     p \<leftarrow> param;
     let key = takeWhile (\<lambda>x. x \<noteq> CHR '' '') p;
     case dropWhile (\<lambda>x. x \<noteq> CHR '' '') p of
       [] \<Rightarrow> Some (None, n)
     | sp # v \<Rightarrow> do { E \<leftarrow> skynet_setenv key v (nd_env n); Some (None, n\<lparr>nd_env := E\<rparr>) } }"

definition cmd_starttime :: command where
  "cmd_starttime sv c param n = set_result c (print_dec (uint (skynet_starttime (nd_timer n)))) n"

definition cmd_endless :: command where
  "cmd_endless sv c param n = do {
     cx \<leftarrow> ctxs n c;
     if cx_endless cx then
       Some (Some ''1'', n\<lparr>ctxs := (ctxs n)(c \<mapsto> cx\<lparr>cx_result := ''1'', cx_endless := False\<rparr>)\<rparr>)
     else Some (None, n) }"

definition cmd_abort :: command where
  "cmd_abort sv c param n = do { n1 \<leftarrow> skynet_handle_retireall sv n; Some (None, n1) }"

definition cmd_monitor :: command where
  "cmd_monitor sv c param n =
     (case param of
        Some (ch # s) \<Rightarrow> do {
          (handle, n1) \<leftarrow> tohandle sv c (ch # s) n;
          Some (None, n1\<lparr>monitor_exit := handle\<rparr>) }
      | _ \<Rightarrow> if monitor_exit n \<noteq> 0 then set_result c (CHR '':'' # print_hex (monitor_exit n)) n else Some (None, n))"

definition cmd_mqlen :: command where
  "cmd_mqlen sv c param n = do {
     cx \<leftarrow> ctxs n c;
     q \<leftarrow> mqs (mqst n) (cx_queue cx);
     set_result c (print_dec (skynet_mq_length q)) n }"

text \<open>The atomic exchange of the log file, and the rest of the two commands, run on a context
  that the command has grabbed.\<close>

definition logon_grabbed :: "services \<Rightarrow> ctx_ptr \<Rightarrow> u32 \<Rightarrow> ctx_ptr \<Rightarrow> node \<Rightarrow> node option" where
  "logon_grabbed sv c handle ctx n = do {
     cx \<leftarrow> ctxs n ctx;
     if cx_logfile cx \<noteq> None then Some n
     else do {
       (f, n1) \<leftarrow> skynet_log_open sv c handle n;
       case f of
         None \<Rightarrow> Some n1
       | Some f \<Rightarrow> do {
           cx1 \<leftarrow> ctxs n1 ctx;
           if cx_logfile cx1 = None then Some (n1\<lparr>ctxs := (ctxs n1)(ctx \<mapsto> cx1\<lparr>cx_logfile := Some f\<rparr>)\<rparr>)
           else fclose f n1 } } }"

definition logoff_grabbed :: "services \<Rightarrow> ctx_ptr \<Rightarrow> u32 \<Rightarrow> ctx_ptr \<Rightarrow> node \<Rightarrow> node option" where
  "logoff_grabbed sv c handle ctx n = do {
     cx \<leftarrow> ctxs n ctx;
     case cx_logfile cx of
       None \<Rightarrow> Some n
     | Some f \<Rightarrow> skynet_log_close sv c f handle (n\<lparr>ctxs := (ctxs n)(ctx \<mapsto> cx\<lparr>cx_logfile := None\<rparr>)\<rparr>) }"

definition signal_grabbed :: "services \<Rightarrow> string \<Rightarrow> ctx_ptr \<Rightarrow> node \<Rightarrow> node option" where
  "signal_grabbed sv param ctx n = do {
     cx \<leftarrow> ctxs n ctx;
     let sig = (case strchr param CHR '' '' of Some s \<Rightarrow> signed_take_bit 31 (strtol 0 s) | None \<Rightarrow> 0);
     skynet_module_instance_signal sv (cx_mod cx) (cx_instance cx) sig n }"

text \<open>What the three commands share: they look up the handle, work on the grabbed context and
  release it.\<close>

definition with_handle ::
  "(string \<Rightarrow> u32 \<Rightarrow> ctx_ptr \<Rightarrow> node \<Rightarrow> node option) \<Rightarrow> command" where
  "with_handle f sv c param n = do {
     p \<leftarrow> param;
     (handle, n1) \<leftarrow> tohandle sv c p n;
     if handle = 0 then Some (None, n1)
     else do {
       (ctx, n2) \<leftarrow> skynet_handle_grab handle n1;
       case ctx of
         None \<Rightarrow> Some (None, n2)
       | Some d \<Rightarrow> do {
           n3 \<leftarrow> f p handle d n2;
           (r, n4) \<leftarrow> skynet_context_release sv d n3;
           Some (None, n4) } } }"

definition cmd_logon :: command where
  "cmd_logon sv c = with_handle (\<lambda>p h. logon_grabbed sv c h) sv c"

definition cmd_logoff :: command where
  "cmd_logoff sv c = with_handle (\<lambda>p h. logoff_grabbed sv c h) sv c"

definition cmd_signal :: command where
  "cmd_signal sv c = with_handle (\<lambda>p h. signal_grabbed sv p) sv c"

definition cmd_funcs :: "(string \<times> command) list" where
  "cmd_funcs = [(''TIMEOUT'', cmd_timeout), (''REG'', cmd_reg), (''QUERY'', cmd_query), (''NAME'', cmd_name),
     (''EXIT'', cmd_exit), (''KILL'', cmd_kill), (''LAUNCH'', cmd_launch), (''GETENV'', cmd_getenv),
     (''SETENV'', cmd_setenv), (''STARTTIME'', cmd_starttime), (''ENDLESS'', cmd_endless), (''ABORT'', cmd_abort),
     (''MONITOR'', cmd_monitor), (''MQLEN'', cmd_mqlen), (''LOGON'', cmd_logon), (''LOGOFF'', cmd_logoff),
     (''SIGNAL'', cmd_signal)]"

definition skynet_command :: "services \<Rightarrow> ctx_ptr \<Rightarrow> string \<Rightarrow> string option \<Rightarrow> node \<Rightarrow> (string option \<times> node) option" where
  "skynet_command sv c cmd param n =
     (case map_of cmd_funcs cmd of Some f \<Rightarrow> f sv c param n | None \<Rightarrow> Some (None, n))"

end
