(* ===== verification/Command_Inv.thy ===== *)
theory Command_Inv
  imports Command
begin

section \<open>What commands keep\<close>

text \<open>
  Every command keeps the invariant of the node, under the conditions that the C code
  leaves to its caller. The command that aborts the node empties the table of services.
\<close>

subsection \<open>Sequences of steps\<close>

lemma keeps_bind:
  assumes "keeps G n r" "\<And>n1. r = Some n1 \<Longrightarrow> node_ok G n1 \<Longrightarrow> node_le G n n1 \<Longrightarrow> keeps G n1 (map_option g (f n1))"
  shows "keeps G n (map_option g (Option.bind r f))"
  using assms by (fastforce simp: keeps_def intro: node_le_trans)

lemma keeps_bind_pair:
  assumes "keeps G n (map_option snd r)"
    and "\<And>x n1. r = Some (x, n1) \<Longrightarrow> node_ok G n1 \<Longrightarrow> node_le G n n1 \<Longrightarrow> keeps G n1 (map_option g (f (x, n1)))"
  shows "keeps G n (map_option g (Option.bind r f))"
proof -
  from assms(1) obtain x n1 where r: "r = Some (x, n1)" "node_ok G n1" "node_le G n n1" by (auto simp: keeps_def)
  with keeps_trans [OF assms(2) [OF r] r(3)] show ?thesis by simp
qed

lemma keeps_done: "node_ok G n \<Longrightarrow> keeps G n (map_option snd (Some (x, n)))"
  by (simp add: keeps_def)

lemma held_alive: "node_ok G n \<Longrightarrow> 0 < held G c \<Longrightarrow> ctxs n c \<noteq> None"
  using held_live [of G n c] by blast

lemma error_held: "node_ok G n \<Longrightarrow> 0 < held G c \<Longrightarrow> keeps G n (skynet_error sv (Some c) msg n)"
  using held_alive by (intro skynet_error_ok) auto

lemma set_result_ok:
  assumes "node_ok G n" "0 < held G c"
  shows "keeps G n (map_option snd (set_result c str n))"
proof -
  from assms obtain cx where cx: "ctxs n c = Some cx" "0 < cx_ref cx" by (rule held_live)
  let ?cx = "cx\<lparr>cx_result := str\<rparr>"
  have le: "context_le cx ?cx" by (simp add: context_le_def)
  from set_ctx_inert [OF assms(1) cx(1) le _ _ cx(2)] set_ctx_le [OF cx(1) le] cx(1) show ?thesis
    by (simp add: keeps_def set_result_def)
qed

subsection \<open>Timers\<close>

lemma push_all_ok:
  assumes "node_ok G n" "\<forall>(h, m) \<in> set ms. source m = 0"
  shows "keeps G n (push_all sv ms n)"
  using assms
proof (induction ms arbitrary: n)
  case Nil
  then show ?case by (simp add: keeps_same)
next
  case (Cons hm ms)
  obtain h m where hm: "hm = (h, m)" by fastforce
  have "source_ok n (source m)" using Cons.prems(2) by (simp add: hm source_ok_def remote_handle_def)
  from context_push_ok [OF Cons.prems(1) this, of sv h] obtain r n1 where
    n1: "skynet_context_push sv h m n = Some (r, n1)" "node_ok G n1" "node_le G n n1" by blast
  from keeps_trans [OF Cons.IH [OF n1(2)] n1(3)] Cons.prems(2) n1(1) show ?case by (simp add: hm)
qed

lemma execute_sources: "timer_execute env T = (out, T') \<Longrightarrow> \<forall>(h, m) \<in> set out. source m = 0"
proof (induction env T arbitrary: out T' rule: timer_execute.induct)
  case (1 env T)
  have list: "\<forall>(h, m) \<in> set (dispatch_list ns). source m = 0" for ns
    by (induction ns) (simp_all add: timer_message_def)
  from 1 list show ?case
    by (subst (asm) (2) timer_execute.simps) (fastforce simp: Let_def split: if_splits prod.splits)
qed

lemma updatetime_sources:
  assumes "skynet_updatetime cp T = Some (fired, T')"
  shows "\<forall>(h, m) \<in> set (concat fired). source m = 0"
proof -
  have loop: "\<forall>(h, m) \<in> set (concat fired). source m = 0" if "update_loop k T = Some (fired, T')" for k T fired T'
    using that
  proof (induction k arbitrary: T fired T')
    case 0
    then show ?case by simp
  next
    case (Suc k)
    then show ?case
      by (fastforce simp: timer_update_def Let_def dest: execute_sources split: prod.splits bind_splits)
  qed
  show ?thesis
  proof (cases "cp < current_point T \<or> cp = current_point T")
    case True
    with assms show ?thesis by (auto simp: skynet_updatetime_def)
  next
    case False
    with assms show ?thesis by (intro loop) (simp add: skynet_updatetime_def Let_def)
  qed
qed

lemma set_timer_core: "same_core n (n\<lparr>nd_timer := T\<rparr>)"
  by (simp add: same_core_def)

lemma node_timeout_ok:
  assumes "node_ok G n"
  shows "keeps G n (map_option snd (node_timeout sv h tm ses n))"
proof -
  obtain r ms T where t: "skynet_timeout (\<lambda>h. handle_lookup (context_handle n) (hs n) h \<noteq> None) h tm ses (nd_timer n) = (r, ms, T)"
    by (metis prod_cases3)
  have "\<forall>(h, m) \<in> set ms. source m = 0" using t by (auto simp: skynet_timeout_def timer_message_def split: if_splits)
  from keeps_trans [OF push_all_ok [OF _ this] same_core_le [OF set_timer_core]] same_core_ok [OF set_timer_core] assms
  have "keeps G n (push_all sv ms (n\<lparr>nd_timer := T\<rparr>))" by simp
  then show ?thesis unfolding node_timeout_def Let_def t by (auto simp: keeps_def)
qed

subsection \<open>Names\<close>

lemma set_names_ok:
  assumes ok: "node_ok G n" and s: "names_ok s" "same_slots (hs n) s"
  shows "keeps G n (Some (n\<lparr>hs := s\<rparr>))"
proof -
  from ok obtain ps where parts: "table_ok n" "refs_ok G n" "links_ok n" "sched_ok G ps n" "files_ok G n" "alloc_ok n"
    "remote_ok n" "modules_ok (nd_modules n)" by (rule node_okE)
  let ?n = "n\<lparr>hs := s\<rparr>"
  have reg: "registered s = registered (hs n)" using s(2) by (simp add: same_slots_def registered_def)
  have qa: "queue_at ?n = queue_at n" by (simp add: queue_at_def)
  have ch: "context_handle ?n = context_handle n" by (simp add: context_handle_def fun_eq_iff)
  have slots: "slots_ok (context_handle n) s = slots_ok (context_handle n) (hs n)" "harbor s = harbor (hs n)"
    using s(2) by (simp_all add: slots_ok_def same_slots_def)
  then have "table_ok ?n" using parts(1) s(1) reg by (simp add: table_ok_def ch)
  moreover have "refs_ok G ?n" using parts(2) by (subst refs_cong [of _ n _ G]) (simp_all add: fixed_refs_def fun_eq_iff reg)
  moreover have "links_ok ?n" using parts(3) by (subst links_cong [of _ n]) (simp_all add: qa)
  moreover have "sched_ok G ps ?n"
    by (rule sched_okI) (use sched_rep [OF parts(4)] sched_dom [OF parts(4)] sched_iff [OF parts(4)] sched_init [OF parts(4)]
        in \<open>auto simp: qa ready_def reg\<close>)
  moreover have "files_ok G ?n" using parts(5) by (subst files_cong [of _ n _ G]) simp_all
  moreover have "alloc_ok ?n" using parts(6) by (simp add: alloc_ok_def qa)
  moreover have "remote_ok ?n" using parts(7) by (subst remote_cong [of _ n]) simp_all
  ultimately have "node_ok G ?n" using parts(8) by (intro node_okI) simp_all
  moreover have "node_le G n ?n" by (rule node_leI) (simp_all add: qa reg)
  ultimately show ?thesis by (simp add: keeps_def)
qed

lemma namehandle_ok:
  assumes ok: "node_ok G n" and room: "name_count (hs n) < MAX_SLOT_SIZE"
  shows "\<exists>r s. skynet_handle_namehandle h nm (hs n) = Some (r, s) \<and> keeps G n (Some (n\<lparr>hs := s\<rparr>))"
proof -
  have names: "names_ok (hs n)" using node_ok_parts(1) [OF ok] by (simp add: table_ok_def)
  show ?thesis
  proof (cases "name_map (hs n) nm")
    case None
    from namehandle_new [OF names None room, of h] set_names_ok [OF ok] show ?thesis by blast
  next
    case (Some h0)
    from namehandle_old [OF names Some, of h] keeps_same [OF ok] show ?thesis by auto
  qed
qed

subsection \<open>Handles as text\<close>

lemma tohandle_ok:
  assumes "node_ok G n" "0 < held G c"
  shows "keeps G n (map_option snd (tohandle sv c p n))"
proof -
  have err: "keeps G n (map_option snd (Option.bind (skynet_error sv (Some c) msg n) (\<lambda>n1. Some (x, n1))))" for msg and x :: u32
    by (rule keeps_result [OF error_held [OF assms]])
  show ?thesis
    unfolding tohandle_def
    by (cases p) (use err keeps_done [OF assms(1)] in \<open>auto split: char.split bool.split\<close>)
qed

text \<open>Looking a handle up does not change what the invariant speaks of, apart from the
  queue of the logger.\<close>

lemma tohandle_frame:
  assumes "node_ok G n" "0 < held G c" "tohandle sv c p n = Some (h, n1)"
  shows "\<exists>l s. n1 = n\<lparr>logger := l, mqst := s\<rparr>"
proof -
  have same: "\<exists>l s. m = m\<lparr>logger := l, mqst := s\<rparr>" for m :: node
    by (rule exI [of _ "logger m"], rule exI [of _ "mqst m"]) simp
  have err: "\<exists>l s. n' = n\<lparr>logger := l, mqst := s\<rparr>" if "skynet_error sv (Some c) msg n = Some n'" for msg n'
    using skynet_error_sends [OF assms(1), of "Some c" sv msg] held_alive [OF assms(1,2)] that by auto
  show ?thesis
    using assms(3) err same unfolding tohandle_def
    by (cases p) (auto split: char.splits bool.splits bind_splits)
qed

lemma grab_release:
  assumes wb: "well_behaved sv" and ok: "node_ok G n"
    and f: "\<And>d n1. node_ok (set_held d (Suc (held G d)) G) n1 \<Longrightarrow> ctxs n1 d \<noteq> None \<Longrightarrow> keeps (set_held d (Suc (held G d)) G) n1 (f d n1)"
  shows "keeps G n (map_option snd (do {
     (ctx, n2) \<leftarrow> skynet_handle_grab h n;
     case ctx of None \<Rightarrow> Some (None, n2)
     | Some d \<Rightarrow> do { n3 \<leftarrow> f d n2; (r, n4) \<leftarrow> skynet_context_release sv d n3; Some (None, n4) } }))"
proof (cases "handle_lookup (context_handle n) (hs n) h")
  case None
  with ok show ?thesis by (simp add: skynet_handle_grab_def keeps_def)
next
  case (Some d)
  from handle_grab_ok [OF ok Some] obtain cx where cx: "ctxs n d = Some cx"
    "skynet_handle_grab h n = Some (Some d, set_ctx d (cx\<lparr>cx_ref := cx_ref cx + 1\<rparr>) n)"
    "node_ok (set_held d (Suc (held G d)) G) (set_ctx d (cx\<lparr>cx_ref := cx_ref cx + 1\<rparr>) n)" by blast
  let ?n1 = "set_ctx d (cx\<lparr>cx_ref := cx_ref cx + 1\<rparr>) n" and ?G = "set_held d (Suc (held G d)) G"
  have le1: "node_le G n ?n1" by (rule set_ctx_le [OF cx(1)]) (simp add: context_le_def)
  have mono: "node_le G a b" if "node_le ?G a b" for a b by (rule node_le_mono [OF that]) auto
  from f [OF cx(3)] obtain n2 where n2: "f d ?n1 = Some n2" "node_ok ?G n2" "node_le ?G ?n1 n2" by (auto simp: keeps_def)
  have "set_held d (held ?G d - 1) ?G = G" by simp
  with context_release_ok [OF wb n2(2), of d] obtain r n3 where n3: "skynet_context_release sv d n2 = Some (r, n3)" "node_ok G n3"
    "node_le G n2 n3" by auto
  have "node_le G n n3" using le1 mono [OF n2(3)] n3(3) by (blast intro: node_le_trans)
  with cx(2) n2(1) n3(1,2) show ?thesis by (simp add: keeps_def)
qed

lemma with_handle_ok:
  assumes wb: "well_behaved sv" and ok: "node_ok G n" and c: "0 < held G c"
    and f: "\<And>h d n1. node_ok (set_held d (Suc (held G d)) G) n1 \<Longrightarrow> ctxs n1 d \<noteq> None
      \<Longrightarrow> keeps (set_held d (Suc (held G d)) G) n1 (f p h d n1)"
  shows "keeps G n (map_option snd (with_handle f sv c (Some p) n))"
proof -
  have "keeps G n (map_option snd (Option.bind (tohandle sv c p n) (\<lambda>(handle, n1).
      if handle = 0 then Some (None, n1) else do {
       (ctx, n2) \<leftarrow> skynet_handle_grab handle n1;
       case ctx of None \<Rightarrow> Some (None, n2)
       | Some d \<Rightarrow> do { n3 \<leftarrow> f p handle d n2; (r, n4) \<leftarrow> skynet_context_release sv d n3; Some (None, n4) } })))"
  proof (rule keeps_bind_pair [OF tohandle_ok [OF ok c]])
    fix h n1 assume n1: "node_ok G n1"
    from grab_release [OF wb n1, of "f p h" h, OF f] keeps_done [OF n1]
    show "keeps G n1 (map_option snd (case (h, n1) of (handle, n1) \<Rightarrow> if handle = 0 then Some (None, n1) else do {
       (ctx, n2) \<leftarrow> skynet_handle_grab handle n1;
       case ctx of None \<Rightarrow> Some (None, n2)
       | Some d \<Rightarrow> do { n3 \<leftarrow> f p handle d n2; (r, n4) \<leftarrow> skynet_context_release sv d n3; Some (None, n4) } }))"
      by (cases "h = 0") simp_all
  qed
  then show ?thesis by (simp add: with_handle_def)
qed

subsection \<open>Log files and signals\<close>

lemma logon_ok:
  assumes ok: "node_ok G n" and c: "0 < held G c" and d: "0 < held G d"
  shows "keeps G n (logon_grabbed sv c h d n)"
proof -
  from ok d obtain cx where cx: "ctxs n d = Some cx" "0 < cx_ref cx" by (rule held_live)
  show ?thesis
  proof (cases "cx_logfile cx")
    case (Some f)
    with cx(1) ok show ?thesis by (simp add: logon_grabbed_def keeps_same)
  next
    case None
    from log_open_ok [OF ok held_alive [OF ok c], of sv h] obtain r n1 where n1: "skynet_log_open sv c h n = Some (r, n1)"
      "node_ok G n1" "node_le G n n1" "ctxs n1 = ctxs n" "\<And>f. r = Some f \<Longrightarrow> unused_file G n1 f" by blast
    have "keeps G n1 (Some (set_ctx d (cx\<lparr>cx_logfile := r\<rparr>) n1))"
      by (rule set_logfile_ok [OF n1(2)]) (use cx n1(4,5) in auto)
    with None cx(1) n1 show ?thesis
      by (cases r) (auto simp: logon_grabbed_def keeps_def intro: node_le_trans)
  qed
qed

lemma logoff_ok:
  assumes ok: "node_ok G n" and c: "0 < held G c" and d: "0 < held G d"
  shows "keeps G n (logoff_grabbed sv c h d n)"
proof -
  from ok d obtain cx where cx: "ctxs n d = Some cx" "0 < cx_ref cx" by (rule held_live)
  show ?thesis
  proof (cases "cx_logfile cx")
    case None
    with cx(1) ok show ?thesis by (simp add: logoff_grabbed_def keeps_same)
  next
    case (Some f)
    let ?n1 = "set_ctx d (cx\<lparr>cx_logfile := None\<rparr>) n"
    have n1: "node_ok G ?n1" "node_le G n ?n1" using set_logfile_ok [OF ok cx, of None] by (simp_all add: keeps_def)
    have nd: "d \<notin> dying G" using refs_Some [OF node_ok_parts(2) [OF ok] cx(1)] d by simp
    note fo = files_okD [OF node_ok_parts(4) [OF ok] cx(1) Some nd]
    have "unused_file G ?n1 f"
      unfolding unused_file_def
    proof (intro conjI allI impI)
      show "files ?n1 f \<noteq> None" using fo(1) by simp
      fix e ex assume e: "ctxs ?n1 e = Some ex" "cx_logfile ex = Some f"
      then have "e \<noteq> d" by auto
      with e fo(2) [of e ex] show "e \<in> dying G" by auto
    qed
    from keeps_trans [OF log_close_ok [OF n1(1) held_alive [OF n1(1) c] this, of sv h] n1(2)] Some cx(1)
    show ?thesis by (simp add: logoff_grabbed_def)
  qed
qed

lemma signal_ok:
  assumes "well_behaved sv" "node_ok G n" "ctxs n d \<noteq> None"
  shows "keeps G n (signal_grabbed sv p d n)"
  using assms instance_signal_ok [OF assms(1,2)] by (auto simp: signal_grabbed_def Let_def)

subsection \<open>Leaving\<close>

text \<open>The monitor of exits can be told about the handle: no message goes to or seems to come
  from another node unless there is a harbor.\<close>

definition exit_ok :: "u32 \<Rightarrow> node \<Rightarrow> bool" where
  "exit_ok h n \<longleftrightarrow> monitor_exit n = 0 \<or> REMOTE n \<noteq> None \<or> \<not> remote_handle n (monitor_exit n) \<and> \<not> remote_handle n h"

lemma handle_exit_ok:
  assumes wb: "well_behaved sv" and ok: "node_ok G n" and c: "0 < held G c" and ex: "exit_ok h n"
  shows "keeps G n (handle_exit sv c h n)"
proof -
  from ok c obtain cx where cx: "ctxs n c = Some cx" by (rule held_live)
  define k where "k = (if h = 0 then cx_handle cx else h)"
  let ?msg = "if h = 0 then ''KILL self'' else ''KILL :'' @ print_hex h"
  from skynet_error_sends [OF ok, of "Some c" sv ?msg] cx obtain l s where
    n1: "skynet_error sv (Some c) ?msg n = Some (n\<lparr>logger := l, mqst := s\<rparr>)" "node_ok G (n\<lparr>logger := l, mqst := s\<rparr>)"
      "node_le G n (n\<lparr>logger := l, mqst := s\<rparr>)" by auto
  let ?n1 = "n\<lparr>logger := l, mqst := s\<rparr>"
  have cx_src: "source_ok n (cx_handle cx)" using context_source_ok(1) [OF ok cx] .
  have self: "\<not> remote_handle n (cx_handle cx)" using node_ok_parts(1) [OF ok] cx by (auto simp: table_ok_def remote_handle_def)
  obtain n2 where n2: "(if monitor_exit ?n1 \<noteq> 0
      then map_option snd (skynet_send sv (Some c) k (monitor_exit ?n1) PTYPE_CLIENT 0 None 0 ?n1) else Some ?n1) = Some n2"
    "node_ok G n2" "node_le G ?n1 n2"
  proof (cases "monitor_exit n = 0")
    case True
    with that n1(2) show ?thesis by simp
  next
    case False
    have src: "source_of (Some c) k ?n1 = (if k = 0 then cx_handle cx else k)"
      using cx by (simp add: source_of_def context_handle_def)
    have "\<not> remote_handle n k \<or> REMOTE n \<noteq> None" using ex False self by (auto simp: k_def exit_ok_def)
    then have "source_ok ?n1 (source_of (Some c) k ?n1)" using cx_src by (auto simp: src source_ok_def remote_handle_def)
    then have call: "caller_ok G (Some c) k PTYPE_CLIENT 0 None 0 ?n1"
      using n1(2) c by (simp add: caller_ok_def send_args_ok_def allocs_def PTYPE_CLIENT_def PTYPE_TAG_ALLOCSESSION_def)
    have "reachable_dest (monitor_exit ?n1) PTYPE_CLIENT ?n1"
      using ex False by (auto simp: exit_ok_def reachable_dest_def remote_handle_def PTYPE_CLIENT_def PTYPE_SYSTEM_def PTYPE_HARBOR_def)
    from send_ok [OF call this, of sv] False that show ?thesis by (auto simp: keeps_def)
  qed
  from handle_retire_ok [OF wb n2(2), of k] obtain r n3 where n3: "skynet_handle_retire sv k n2 = Some (r, n3)" "node_ok G n3"
    "node_le G n2 n3" by blast
  have "handle_exit sv c h n = Some n3"
    using cx n1(1) n2(1) n3(1)
    by (cases "monitor_exit n = 0") (auto simp: handle_exit_def skynet_context_handle_def k_def [symmetric] Let_def)
  moreover have "node_le G n n3" using n1(3) n2(3) n3(3) by (blast intro: node_le_trans)
  ultimately show ?thesis using n3(2) by (simp add: keeps_def)
qed

text \<open>Release functions that do not touch the table of services.\<close>

definition tidy :: "services \<Rightarrow> bool" where
  "tidy sv \<longleftrightarrow> (\<forall>f inst n n'. sv_release sv f inst n = Some n' \<longrightarrow> hs n' = hs n)"

lemma release_hs:
  assumes "tidy sv" "skynet_context_release sv c n = Some (r, n')"
  shows "hs n' = hs n"
proof -
  have rel: "hs m' = hs m" if "skynet_module_instance_release sv k inst m = Some m'" for k inst m m'
    using that assms(1) by (auto simp: skynet_module_instance_release_def tidy_def split: option.splits)
  have fc: "hs m' = hs m" if "fclose f m = Some m'" for f m m'
    using that by (auto simp: fclose_def split: if_splits)
  have "hs m' = hs m" if "delete_context sv c m = Some m'" for m m'
    using that by (auto simp: delete_context_def context_dec_def dest!: rel fc split: bind_splits option.splits)
  with assms(2) show ?thesis by (fastforce simp: skynet_context_release_def Let_def split: bind_splits if_splits)
qed

lemma retire_slot:
  assumes wb: "well_behaved sv" and td: "tidy sv" and ok: "node_ok G n"
    and i: "i < slot_size (hs n)" "slot (hs n) ! i = Some c"
  shows "\<exists>n'. skynet_handle_retire sv (context_handle n c) n = Some (1, n') \<and> node_ok G n' \<and> node_le G n n'
    \<and> slot_size (hs n') = slot_size (hs n) \<and> slot (hs n') = (slot (hs n))[i := None]"
proof -
  let ?h = "context_handle n c" and ?s = "hs n"
  have slots: "slots_ok (context_handle n) ?s" using node_ok_parts(1) [OF ok] by (simp add: table_ok_def)
  have hash: "slot_hash ?h (slot_size ?s) = i" using slots i by (auto simp: slots_ok_def)
  have look: "handle_lookup (context_handle n) ?s ?h = Some c" using i hash by (simp add: handle_lookup_def)
  obtain j nm where nm: "retire_names ?h 0 0 (name_count ?s) (name ?s) = (j, nm)" by fastforce
  let ?s' = "?s\<lparr>slot := (slot ?s)[i := None], name := nm, name_count := j\<rparr>"
  have ret: "retire_table (context_handle n) ?h ?s = (Some c, ?s')" using retire_table_hit [OF look nm] hash by simp
  from handle_retire_ok [OF wb ok, of ?h] look obtain n' where n': "skynet_handle_retire sv ?h n = Some (1, n')" "node_ok G n'"
    "node_le G n n'" by auto
  from n'(1) ret obtain r where "skynet_context_release sv c (n\<lparr>hs := ?s'\<rparr>) = Some (r, n')"
    by (auto simp: skynet_handle_retire_def split: bind_splits)
  from release_hs [OF td this] have "hs n' = ?s'" by simp
  with n' show ?thesis by auto
qed

lemma slot_handle:
  assumes ok: "node_ok G n" and i: "i < slot_size (hs n)" "slot (hs n) ! i = Some c"
  shows "context_handle n c \<noteq> 0"
proof -
  have "length (slot (hs n)) = slot_size (hs n)" using node_ok_parts(1) [OF ok] by (auto simp: table_ok_def slots_ok_def)
  with i have "c \<in> registered (hs n)" by (auto simp: registered_def in_set_conv_nth)
  from registered_live [OF ok this] obtain cx where cx: "ctxs n c = Some cx" by blast
  from links_queue [OF node_ok_parts(3) [OF ok] cx] links_owner [OF node_ok_parts(3) [OF ok], of "cx_queue cx"] cx
  show ?thesis by (auto simp: context_handle_def)
qed

lemma retire_pass_ok:
  assumes wb: "well_behaved sv" and td: "tidy sv" and "node_ok G n" "\<forall>j < i. slot (hs n) ! j = None" "i \<le> slot_size (hs n)"
  shows "\<exists>k' n'. retire_pass sv i k n = Some (k', n') \<and> node_ok G n' \<and> node_le G n n' \<and> slot_size (hs n') = slot_size (hs n)
    \<and> (\<forall>j < slot_size (hs n'). slot (hs n') ! j = None)
    \<and> ((\<forall>j < slot_size (hs n). slot (hs n) ! j = None) \<longrightarrow> k' = k \<and> n' = n)"
  using assms(3-)
proof (induction "slot_size (hs n) - i" arbitrary: i k n)
  case 0
  then show ?case by (simp add: retire_pass.simps)
next
  case (Suc d)
  then have i: "i < slot_size (hs n)" by simp
  show ?case
  proof (cases "slot (hs n) ! i")
    case None
    then have "\<forall>j < Suc i. slot (hs n) ! j = None" using Suc.prems(2) by (simp add: less_Suc_eq)
    from Suc.hyps(1) [of n "Suc i", OF _ Suc.prems(1) this, of k] Suc.hyps(2) i None show ?thesis
      by (simp add: retire_pass.simps [of _ i])
  next
    case (Some c)
    from retire_slot [OF wb td Suc.prems(1) i Some] obtain n1 where n1: "skynet_handle_retire sv (context_handle n c) n = Some (1, n1)"
      "node_ok G n1" "node_le G n n1" "slot_size (hs n1) = slot_size (hs n)" "slot (hs n1) = (slot (hs n))[i := None]" by blast
    have "length (slot (hs n)) = slot_size (hs n)" using node_ok_parts(1) [OF Suc.prems(1)] by (auto simp: table_ok_def slots_ok_def)
    then have empty: "\<forall>j < Suc i. slot (hs n1) ! j = None" using Suc.prems(2) i n1(5) by (auto simp: less_Suc_eq nth_list_update)
    have d: "d = slot_size (hs n1) - Suc i" "Suc i \<le> slot_size (hs n1)" using Suc.hyps(2) i n1(4) by simp_all
    from Suc.hyps(1) [OF d(1) n1(2) empty d(2), of "k + 1"] n1(4) obtain k' n' where
      "retire_pass sv (Suc i) (k + 1) n1 = Some (k', n')" "node_ok G n'" "node_le G n1 n'" "slot_size (hs n') = slot_size (hs n)"
      "\<forall>j < slot_size (hs n'). slot (hs n') ! j = None" by auto
    with n1 i Some slot_handle [OF Suc.prems(1) i Some] node_le_trans [OF n1(3)] show ?thesis
      by (auto simp: retire_pass.simps [of _ i])
  qed
qed

lemma retireall_ok:
  assumes wb: "well_behaved sv" and td: "tidy sv" and ok: "node_ok G n"
  shows "\<exists>n'. skynet_handle_retireall sv n = Some n' \<and> node_ok G n' \<and> node_le G n n' \<and> registered (hs n') = {}"
proof -
  from retire_pass_ok [OF wb td ok, of 0 0] obtain k n1 where
    n1: "retire_pass sv 0 0 n = Some (k, n1)" "node_ok G n1" "node_le G n n1" "\<forall>j < slot_size (hs n1). slot (hs n1) ! j = None" by auto
  from retire_pass_ok [OF wb td n1(2), of 0 0] n1(4) have again: "retire_pass sv 0 0 n1 = Some (0, n1)" by auto
  have "length (slot (hs n1)) = slot_size (hs n1)" using node_ok_parts(1) [OF n1(2)] by (auto simp: table_ok_def slots_ok_def)
  then have "registered (hs n1) = {}" using n1(4) by (auto simp: registered_def in_set_conv_nth)
  moreover have "skynet_handle_retireall sv n = Some n1"
    using n1(1) again by (cases "k = 0") (simp_all add: skynet_handle_retireall.simps)
  ultimately show ?thesis using n1(2,3) by blast
qed

subsection \<open>All commands\<close>

text \<open>What the caller of a command has to see to.\<close>

definition needs_param :: "string set" where
  "needs_param = {''TIMEOUT'', ''QUERY'', ''NAME'', ''KILL'', ''LAUNCH'', ''GETENV'', ''SETENV'', ''LOGON'', ''LOGOFF'', ''SIGNAL''}"

definition command_ok :: "services \<Rightarrow> ctx_ptr \<Rightarrow> string \<Rightarrow> string option \<Rightarrow> node \<Rightarrow> bool" where
  "command_ok sv c cmd param n \<longleftrightarrow>
     (param = None \<longrightarrow> cmd \<notin> needs_param)
     \<and> (cmd = ''NAME'' \<longrightarrow> snd (scan_words (the param)) \<noteq> None)
     \<and> (cmd = ''REG'' \<or> cmd = ''NAME'' \<longrightarrow> name_count (hs n) < MAX_SLOT_SIZE)
     \<and> (cmd = ''SETENV'' \<longrightarrow> nd_env n (takeWhile (\<lambda>x. x \<noteq> CHR '' '') (the param)) = None)
     \<and> (cmd = ''LAUNCH'' \<longrightarrow> launch_ok sv (fst (launch_words (the param))) n)
     \<and> (cmd = ''ABORT'' \<longrightarrow> tidy sv)
     \<and> (cmd = ''EXIT'' \<longrightarrow> exit_ok 0 n)
     \<and> (cmd = ''KILL'' \<longrightarrow> (\<forall>h n1. tohandle sv c (the param) n = Some (h, n1) \<longrightarrow> exit_ok h n))"

lemma held_handle:
  assumes "node_ok G n" "0 < held G c"
  obtains h where "skynet_context_handle c n = Some h"
  using held_alive [OF assms] that by (auto simp: skynet_context_handle_def)

lemma cmd_timeout_ok:
  assumes ok: "node_ok G n" and c: "0 < held G c"
  shows "keeps G n (map_option snd (cmd_timeout sv c (Some p) n))"
  unfolding cmd_timeout_def bind.bind_lunit Let_def
proof (rule keeps_bind_pair [OF newsession_ok [OF ok c]])
  fix ses n1 assume n1: "node_ok G n1"
  from n1 c obtain h where h: "skynet_context_handle c n1 = Some h" by (rule held_handle)
  show "keeps G n1 (map_option snd (case (ses, n1) of (ses, n1) \<Rightarrow> do {
      h \<leftarrow> skynet_context_handle c n1;
      (r, n2) \<leftarrow> node_timeout sv h (signed_take_bit 31 (strtol 10 p)) ses n1;
      set_result c (print_dec ses) n2 }))"
    unfolding h prod.case bind.bind_lunit
    by (rule keeps_bind_pair [OF node_timeout_ok [OF n1]]) (simp add: set_result_ok c)
qed

lemma name_result_ok:
  assumes "node_ok G n" "name_count (hs n) < MAX_SLOT_SIZE"
  shows "keeps G n (map_option snd (do { (r, s) \<leftarrow> skynet_handle_namehandle h nm (hs n); Some (r, n\<lparr>hs := s\<rparr>) }))"
  using namehandle_ok [OF assms, of h nm] by auto

lemma cmd_reg_ok:
  assumes "node_ok G n" "0 < held G c" "name_count (hs n) < MAX_SLOT_SIZE"
  shows "keeps G n (map_option snd (cmd_reg sv c param n))"
proof -
  from assms(1,2) obtain h where h: "skynet_context_handle c n = Some h" by (rule held_handle)
  show ?thesis
    unfolding cmd_reg_def h bind.bind_lunit
    using set_result_ok [OF assms(1,2)] name_result_ok [OF assms(1,3)] keeps_result [OF error_held [OF assms(1,2)]]
    by (auto split: option.split list.split)
qed

lemma cmd_query_ok:
  assumes "node_ok G n" "0 < held G c"
  shows "keeps G n (map_option snd (cmd_query sv c (Some p) n))"
  using set_result_ok [OF assms] keeps_done [OF assms(1)] by (auto simp: cmd_query_def Let_def split: list.split)

lemma cmd_name_ok:
  assumes ok: "node_ok G n" "0 < held G c" "name_count (hs n) < MAX_SLOT_SIZE" and w: "snd (scan_words p) \<noteq> None"
  shows "keeps G n (map_option snd (cmd_name sv c (Some p) n))"
proof -
  have "dropWhile isspace p = []" if "takeWhile (\<lambda>c. \<not> isspace c) (dropWhile isspace p) = []"
    using that hd_dropWhile [of isspace p] by (cases "dropWhile isspace p") (auto split: if_splits)
  with w obtain h nm where h: "scan_words p = (Some nm, Some h)"
    by (cases "takeWhile (\<lambda>c. \<not> isspace c) (dropWhile isspace p) = []") (auto simp: scan_words_def Let_def simp del: dropWhile_eq_Nil_conv split: if_splits)
  show ?thesis
    unfolding cmd_name_def h bind.bind_lunit Let_def prod.case
    using keeps_done [OF ok(1)] name_result_ok [OF ok(1,3)] keeps_result [OF error_held [OF ok(1,2)]] by auto
qed

lemma cmd_kill_ok:
  assumes wb: "well_behaved sv" and ok: "node_ok G n" "0 < held G c"
    and ex: "\<And>h n1. tohandle sv c p n = Some (h, n1) \<Longrightarrow> exit_ok h n"
  shows "keeps G n (map_option snd (cmd_kill sv c (Some p) n))"
  unfolding cmd_kill_def bind.bind_lunit
proof (rule keeps_bind_pair [OF tohandle_ok [OF ok]])
  fix h n1 assume t: "tohandle sv c p n = Some (h, n1)" and n1: "node_ok G n1"
  from tohandle_frame [OF ok t] ex [OF t] have "exit_ok h n1" by (auto simp: exit_ok_def remote_handle_def)
  from handle_exit_ok [OF wb n1 ok(2) this] n1
  show "keeps G n1 (map_option snd (case (h, n1) of (handle, n1) \<Rightarrow>
      do { n2 \<leftarrow> if handle \<noteq> 0 then handle_exit sv c handle n1 else Some n1; Some (None, n2) }))"
    by (cases "h = 0") (auto simp: keeps_def)
qed

lemma cmd_launch_ok:
  assumes wb: "well_behaved sv" and ok: "node_ok G n" "0 < held G c" and l: "launch_ok sv (fst (launch_words p)) n"
  shows "keeps G n (map_option snd (cmd_launch sv c (Some p) n))"
proof -
  obtain md args where w: "launch_words p = (md, args)" by fastforce
  from context_new_ok [OF wb ok(1), of md args] l w obtain r n1 where n1: "skynet_context_new sv md args n = Some (r, n1)"
    "node_ok G n1" "node_le G n n1" "\<And>i. r = Some i \<Longrightarrow> ctxs n1 i \<noteq> None" by (auto simp: keeps_def)
  from keeps_trans [OF set_result_ok [OF n1(2) ok(2)] n1(3)] n1 w show ?thesis
    by (cases r) (auto simp: cmd_launch_def skynet_context_handle_def keeps_def)
qed

lemma cmd_endless_ok:
  assumes "node_ok G n" "0 < held G c"
  shows "keeps G n (map_option snd (cmd_endless sv c param n))"
proof -
  from assms obtain cx where cx: "ctxs n c = Some cx" "0 < cx_ref cx" by (rule held_live)
  let ?cx = "cx\<lparr>cx_result := ''1'', cx_endless := False\<rparr>"
  have le: "context_le cx ?cx" by (simp add: context_le_def)
  from set_ctx_inert [OF assms(1) cx(1) le _ _ cx(2)] set_ctx_le [OF cx(1) le] cx(1) assms(1) show ?thesis
    by (simp add: keeps_def cmd_endless_def)
qed

lemma cmd_monitor_ok:
  assumes "node_ok G n" "0 < held G c"
  shows "keeps G n (map_option snd (cmd_monitor sv c param n))"
proof -
  have "keeps G n (map_option snd (Option.bind (tohandle sv c p n) (\<lambda>(handle, n1). Some (None, n1\<lparr>monitor_exit := handle\<rparr>))))" for p
  proof (rule keeps_bind_pair [OF tohandle_ok [OF assms]])
    fix h n1 assume n1: "node_ok G n1"
    have "same_core n1 (n1\<lparr>monitor_exit := h\<rparr>)" by (simp add: same_core_def)
    from same_core_keeps [OF n1 this]
    show "keeps G n1 (map_option snd (case (h, n1) of (handle, n1) \<Rightarrow> Some (None, n1\<lparr>monitor_exit := handle\<rparr>)))" by simp
  qed
  with set_result_ok [OF assms] keeps_done [OF assms(1)] show ?thesis
    by (auto simp: cmd_monitor_def split: option.split list.split)
qed

lemma cmd_mqlen_ok:
  assumes "node_ok G n" "0 < held G c"
  shows "keeps G n (map_option snd (cmd_mqlen sv c param n))"
proof -
  from assms obtain cx where cx: "ctxs n c = Some cx" by (rule held_live)
  from links_queue [OF node_ok_parts(3) [OF assms(1)] cx] obtain q where "queue_at n (cx_queue cx) = Some q" by blast
  then obtain r where "mqs (mqst n) (cx_queue cx) = Some r" unfolding queue_at_def by (rule mq_view_raw)
  with set_result_ok [OF assms] cx show ?thesis by (simp add: cmd_mqlen_def)
qed

lemma cmd_setenv_ok:
  assumes "node_ok G n" "nd_env n (takeWhile (\<lambda>x. x \<noteq> CHR '' '') p) = None"
  shows "keeps G n (map_option snd (cmd_setenv sv c (Some p) n))"
proof -
  have "same_core n (n\<lparr>nd_env := E\<rparr>)" for E by (simp add: same_core_def)
  from same_core_keeps [OF assms(1) this] keeps_done [OF assms(1)] assms(2) show ?thesis
    by (auto simp: cmd_setenv_def skynet_setenv_def Let_def split: list.split)
qed

lemma grabbed_cmd_ok:
  assumes wb: "well_behaved sv" and ok: "node_ok G n" "0 < held G c"
  shows "keeps G n (map_option snd (cmd_logon sv c (Some p) n))" "keeps G n (map_option snd (cmd_logoff sv c (Some p) n))"
    "keeps G n (map_option snd (cmd_signal sv c (Some p) n))"
  unfolding cmd_logon_def cmd_logoff_def cmd_signal_def
  by (rule with_handle_ok [OF wb ok]; use logon_ok logoff_ok signal_ok [OF wb] ok(2) in auto)+

lemma cmd_rest_ok:
  assumes wb: "well_behaved sv" and ok: "node_ok G n" "0 < held G c"
  shows "exit_ok 0 n \<Longrightarrow> keeps G n (map_option snd (cmd_exit sv c param n))"
    "tidy sv \<Longrightarrow> keeps G n (map_option snd (cmd_abort sv c param n))"
    "keeps G n (map_option snd (cmd_getenv sv c (Some p) n))" "keeps G n (map_option snd (cmd_starttime sv c param n))"
proof -
  show "exit_ok 0 n \<Longrightarrow> keeps G n (map_option snd (cmd_exit sv c param n))"
    unfolding cmd_exit_def by (rule keeps_result [OF handle_exit_ok [OF wb ok]])
  show "tidy sv \<Longrightarrow> keeps G n (map_option snd (cmd_abort sv c param n))"
    unfolding cmd_abort_def by (rule keeps_result) (use retireall_ok [OF wb _ ok(1)] in \<open>auto simp: keeps_def\<close>)
  show "keeps G n (map_option snd (cmd_getenv sv c (Some p) n))" "keeps G n (map_option snd (cmd_starttime sv c param n))"
    using ok set_result_ok [OF ok] by (simp_all add: cmd_getenv_def cmd_starttime_def keeps_def)
qed

subsection \<open>Sessions\<close>

text \<open>Asking for \<open>k\<close> sessions in a row.\<close>

primrec newsessions :: "nat \<Rightarrow> ctx_ptr \<Rightarrow> node \<Rightarrow> (int list \<times> node) option" where
  "newsessions 0 c n = Some ([], n)"
| "newsessions (Suc k) c n = do {
     (s, n1) \<leftarrow> skynet_context_newsession c n;
     (ss, n2) \<leftarrow> newsessions k c n1;
     Some (s # ss, n2) }"

lemma next_session_mod:
  assumes "0 \<le> s" "s < 2 ^ 31"
  shows "next_session s = s mod (2 ^ 31 - 1) + 1"
proof (cases "s = 2 ^ 31 - 1")
  case True
  then show ?thesis by (simp only: next_session_wrap) simp
next
  case False
  with assms next_session_step [of s] show ?thesis by simp
qed

lemma newsessions_eq:
  "ctxs n c = Some cx \<Longrightarrow> 0 \<le> cx_session_id cx \<Longrightarrow> cx_session_id cx < 2 ^ 31 \<Longrightarrow>
     map_option fst (newsessions k c n) = Some (map (\<lambda>i. (cx_session_id cx + int i) mod (2 ^ 31 - 1) + 1) [0..<k])"
proof (induction k arbitrary: n cx)
  case 0
  then show ?case by simp
next
  case (Suc k)
  let ?s = "cx_session_id cx" and ?p = "2 ^ 31 - 1 :: int"
  let ?s1 = "next_session ?s"
  have s1: "?s1 = ?s mod ?p + 1" by (rule next_session_mod [OF Suc.prems(2,3)])
  have r: "0 \<le> ?s1" "?s1 < 2 ^ 31" using next_session_pos [of ?s] by simp_all
  have shift: "(?s1 + int i) mod ?p = (?s + int (Suc i)) mod ?p" for i
    unfolding s1 using mod_add_left_eq [of ?s ?p "1 + int i"] by (simp add: add.assoc)
  let ?n1 = "set_ctx c (cx\<lparr>cx_session_id := ?s1\<rparr>) n"
  have "map_option fst (newsessions k c ?n1) = Some (map (\<lambda>i. (?s1 + int i) mod ?p + 1) [0..<k])"
    using Suc.IH [of ?n1 "cx\<lparr>cx_session_id := ?s1\<rparr>"] r by simp
  then obtain ss n2 where
    ss: "newsessions k c ?n1 = Some (ss, n2)" "ss = map (\<lambda>i. (?s + int (Suc i)) mod ?p + 1) [0..<k]"
    unfolding shift by auto
  have "[0..<Suc k] = 0 # map Suc [0..<k]" by (simp add: map_Suc_upt upt_conv_Cons)
  then have "map (\<lambda>i. (?s + int i) mod ?p + 1) [0..<Suc k] = ?s1 # ss" unfolding ss(2) s1 by (simp add: comp_def)
  moreover have "newsessions (Suc k) c n = Some (?s1 # ss, n2)" using newsession_eq [OF Suc.prems(1)] ss(1) by simp
  ultimately show ?case by simp
qed

subsection \<open>Properties\<close>

text \<open>C27. Whatever command a service gives, the node stays in a good state: every reference
  is accounted for, no structure points to freed memory, every queue with messages is
  scheduled. The conditions are those that the C code leaves to its callers: a parameter
  where one is read, two words for \<open>NAME\<close>, room for another name, a key that is not set yet, a
  free handle for \<open>LAUNCH\<close>, a harbor for handles of other nodes.\<close>

theorem command_keeps:
  assumes "well_behaved sv" "node_ok G n" "0 < held G c" "command_ok sv c cmd param n"
  shows "\<exists>r n'. skynet_command sv c cmd param n = Some (r, n') \<and> node_ok G n' \<and> node_le G n n'"
proof -
  have "keeps G n (map_option snd (skynet_command sv c cmd param n))"
  proof (cases "map_of cmd_funcs cmd")
    case None
    with assms(2) show ?thesis by (simp add: skynet_command_def keeps_def)
  next
    case (Some f)
    note wb = assms(1) and ok = assms(2,3) and pre = assms(4) [unfolded command_ok_def needs_param_def]
    have "(cmd, f) \<in> set cmd_funcs" using Some by (rule map_of_SomeD)
    then have "keeps G n (map_option snd (f sv c param n))"
      unfolding cmd_funcs_def list.set insert_iff empty_iff simp_thms prod.inject
      by (elim disjE conjE; use pre cmd_timeout_ok [OF ok] cmd_reg_ok [OF ok] cmd_query_ok [OF ok] cmd_name_ok [OF ok]
          cmd_kill_ok [OF wb ok] cmd_launch_ok [OF wb ok] cmd_endless_ok [OF ok] cmd_monitor_ok [OF ok] cmd_mqlen_ok [OF ok]
          cmd_setenv_ok [OF ok(1)] grabbed_cmd_ok [OF wb ok] cmd_rest_ok [OF wb ok] in \<open>cases param, simp_all\<close>)
    with Some show ?thesis by (simp add: skynet_command_def)
  qed
  then show ?thesis by (auto simp: keeps_def)
qed

theorem command_keeps_witness:
  "\<exists>r n'. skynet_command quiet_services 3 ''REG'' (Some ''.db'') demo_node = Some (r, n') \<and> node_ok demo_ghost n'"
proof -
  have "command_ok quiet_services 3 ''REG'' (Some ''.db'') demo_node"
    by (simp add: command_ok_def skynet_handle_init_def MAX_SLOT_SIZE_def)
  then show ?thesis
    using command_keeps [OF quiet_well_behaved demo_ok, of 3 "''REG''" "Some ''.db''"] by (auto simp: demo_ghost_def)
qed

text \<open>C28. \<open>ABORT\<close> comes to an end and leaves no service registered, provided that the
  release functions of the modules do not register new services: afterwards no handle has a
  mailbox.\<close>

theorem abort_stops:
  assumes "well_behaved sv" "tidy sv" "node_ok G n"
  shows "\<exists>n'. skynet_command sv c ''ABORT'' param n = Some (None, n') \<and> node_ok G n' \<and> (\<forall>h. inbox n' h = None)"
proof -
  from retireall_ok [OF assms] obtain n' where n': "skynet_handle_retireall sv n = Some n'" "node_ok G n'" "registered (hs n') = {}"
    by blast
  have "inbox n' h = None" for h
    using inbox_iff [OF n'(2), of h] lookup_registered [OF n'(2), of h] n'(3) by (cases "handle_lookup (context_handle n') (hs n') h") auto
  with n' show ?thesis by (auto simp: skynet_command_def cmd_funcs_def cmd_abort_def)
qed

theorem abort_stops_witness:
  "\<exists>n'. skynet_command quiet_services 3 ''ABORT'' None demo_node = Some (None, n') \<and> (\<forall>h. inbox n' h = None)"
proof -
  have "tidy quiet_services" by (simp add: tidy_def quiet_services_def)
  from abort_stops [OF quiet_well_behaved this demo_ok] show ?thesis by blast
qed

text \<open>C29. An address that the node prints is read back as the same handle: the eight-digit
  form of \<open>LAUNCH\<close> and the short form of \<open>REG\<close> and \<open>QUERY\<close> both name the service, for
  the commands, for queries and for sending.\<close>

theorem address_roundtrip:
  assumes "addr = id_to_hex h \<or> addr = CHR '':'' # print_hex h"
  shows "tohandle sv c addr n = Some (h, n) \<and> skynet_queryname sv context addr n = Some (h, n)
    \<and> skynet_sendname sv (Some d) src addr type ses msg len n =
       Option.bind (if src = 0 then skynet_context_handle d n else Some src)
         (\<lambda>src1. skynet_send sv (Some d) src1 h type ses msg len n)"
proof -
  from assms obtain ds where "addr = CHR '':'' # ds" "ucast (strtoul 16 ds) = h"
    using strtoul_id_to_hex [of h] strtoul_print_hex [of h] by (auto simp: id_to_hex_def)
  then show ?thesis by (simp add: tohandle_def skynet_queryname_def skynet_sendname_def)
qed

theorem address_roundtrip_witness:
  "tohandle quiet_services 3 '':01000001'' demo_node = Some (0x01000001, demo_node)"
proof -
  have "id_to_hex 0x01000001 = '':01000001''" by code_simp
  with address_roundtrip [of "'':01000001''" "0x01000001"] show ?thesis by simp
qed

text \<open>C30. A local name works: after a service has registered a free name, every service that
  asks for the name gets the address of the first, and a message sent to the name is sent
  to it.\<close>

theorem name_service:
  assumes "node_ok G n" "ctxs n c = Some cx" "ctxs n d \<noteq> None" "name_map (hs n) nm = None" "name_count (hs n) < MAX_SLOT_SIZE"
  shows "\<exists>n1 n2. skynet_command sv c ''REG'' (Some (CHR ''.'' # nm)) n = Some (Some nm, n1)
    \<and> skynet_command sv d ''QUERY'' (Some (CHR ''.'' # nm)) n1 = Some (Some (CHR '':'' # print_hex (cx_handle cx)), n2)
    \<and> (src \<noteq> 0 \<longrightarrow> skynet_sendname sv context src (CHR ''.'' # nm) type ses msg len n1
        = skynet_send sv context src (cx_handle cx) type ses msg len n1)"
proof -
  let ?h = "cx_handle cx"
  have names: "names_ok (hs n)" using node_ok_parts(1) [OF assms(1)] by (simp add: table_ok_def)
  from namehandle_new [OF names assms(4,5), of ?h] obtain s where s: "skynet_handle_namehandle ?h nm (hs n) = Some (Some nm, s)"
    "names_ok s" "name_map s = (name_map (hs n))(nm \<mapsto> ?h)" by blast
  have find: "skynet_handle_findname s nm = ?h" using findname_map [OF s(2)] s(3) by simp
  have h: "?h \<noteq> 0"
    using links_queue [OF node_ok_parts(3) [OF assms(1)] assms(2)] links_owner [OF node_ok_parts(3) [OF assms(1)], of "cx_queue cx"]
    by auto
  let ?n1 = "n\<lparr>hs := s\<rparr>"
  have "skynet_command sv c ''REG'' (Some (CHR ''.'' # nm)) n = Some (Some nm, ?n1)"
    using assms(2) s(1) by (simp add: skynet_command_def cmd_funcs_def cmd_reg_def skynet_context_handle_def)
  moreover have "\<exists>n2. skynet_command sv d ''QUERY'' (Some (CHR ''.'' # nm)) ?n1 = Some (Some (CHR '':'' # print_hex ?h), n2)"
    using assms(3) find h by (auto simp: skynet_command_def cmd_funcs_def cmd_query_def set_result_def Let_def)
  ultimately show ?thesis using find h by (auto simp: skynet_sendname_def)
qed

theorem name_service_witness:
  "\<exists>n1 n2. skynet_command quiet_services 3 ''REG'' (Some ''.db'') demo_node = Some (Some ''db'', n1)
    \<and> skynet_command quiet_services 3 ''QUERY'' (Some ''.db'') n1 = Some (Some (CHR '':'' # print_hex 0x01000001), n2)"
proof -
  have "name_map (hs demo_node) ''db'' = None" "name_count (hs demo_node) < MAX_SLOT_SIZE"
    by (simp_all add: name_map_def handle_names_def skynet_handle_init_def MAX_SLOT_SIZE_def)
  from name_service [OF demo_ok _ _ this, of 3 demo_context 3 quiet_services 0 None 0 0 None 0] show ?thesis by auto
qed

text \<open>C31. A service can have many requests under way: the sessions it gets are positive
  32-bit numbers, and no session comes back before all of the 2^31 - 1 have been given out,
  also when the counter wraps around.\<close>

theorem sessions_distinct:
  assumes "ctxs n c = Some cx" "0 \<le> cx_session_id cx" "cx_session_id cx < 2 ^ 31" "k < 2 ^ 31"
  shows "\<exists>ss n'. newsessions k c n = Some (ss, n') \<and> length ss = k \<and> distinct ss \<and> (\<forall>s \<in> set ss. 0 < s \<and> s < 2 ^ 31)"
proof -
  let ?s = "cx_session_id cx" and ?p = "2 ^ 31 - 1 :: int"
  let ?ss = "map (\<lambda>i. (?s + int i) mod ?p + 1) [0..<k]"
  from newsessions_eq [OF assms(1-3), of k] obtain n' where "newsessions k c n = Some (?ss, n')" by auto
  moreover have "inj_on (\<lambda>i. (?s + int i) mod ?p + 1) {0..<k}"
  proof (rule inj_onI)
    fix i j assume i: "i \<in> {0..<k}" "j \<in> {0..<k}" "(?s + int i) mod ?p + 1 = (?s + int j) mod ?p + 1"
    then have "?p dvd (?s + int i) - (?s + int j)" by (simp add: mod_eq_dvd_iff)
    moreover have "\<bar>int i - int j\<bar> < ?p" using i(1,2) assms(4) by auto
    ultimately show "i = j" using dvd_imp_le_int [of "int i - int j" ?p] by (cases "i = j") auto
  qed
  moreover have "0 < s \<and> s < 2 ^ 31" if "s \<in> set ?ss" for s
  proof -
    from that obtain i where "s = (?s + int i) mod ?p + 1" by auto
    with pos_mod_bound [of ?p "?s + int i"] pos_mod_sign [of ?p "?s + int i"] show ?thesis by simp
  qed
  ultimately show ?thesis by (auto simp: distinct_map)
qed

theorem sessions_distinct_witness:
  "\<exists>ss n'. newsessions 5 3 demo_node = Some (ss, n') \<and> length ss = 5 \<and> distinct ss"
  using sessions_distinct [of demo_node 3 demo_context 5] by auto

end
