(* ===== verification/Hashid.thy ===== *)
theory Hashid
  imports Prelude
begin

section \<open>The table of socket ids\<close>

text \<open>
  \<open>hashid.h\<close>: the table in which the gate service finds the connection of a socket id. A
  fixed array of nodes holds the ids, a hash array the heads of the chains through them. A
  pointer to a node is its index in the array, which is also what the operations return.
  An access outside the arrays and a failed \<open>assert\<close> are \<open>None\<close>, and so is a chain that
  never ends. The result is that the table refines a finite map from ids to the indices.
\<close>

subsection \<open>The code\<close>

record hashid_node =
  hid_id :: int
  hid_next :: "nat option"

record hashid =
  hashmod :: int
  hid_cap :: int
  hid_count :: int
  hid_nodes :: "hashid_node list"
  hid_hash :: "nat option list"

definition free_node :: hashid_node where
  "free_node = \<lparr>hid_id = - 1, hid_next = None\<rparr>"

text \<open>The size of the hash array is the first power of two, from 16 on, that is not below
  the number of ids. Doubling past an \<open>int\<close> is undefined.\<close>

function hash_cap :: "int \<Rightarrow> int \<Rightarrow> int option" where
  "hash_cap hashcap m =
     (if 0 < hashcap \<and> hashcap < m
      then if hashcap * 2 < 2 ^ 31 then hash_cap (hashcap * 2) m else None
      else Some hashcap)"
  by pat_completeness auto
termination by (relation "measure (\<lambda>(hashcap, m). nat (m - hashcap))") auto

declare hash_cap.simps [simp del]

definition hashid_init :: "int \<Rightarrow> hashid option" where
  "hashid_init m = do {
     hashcap \<leftarrow> hash_cap 16 m;
     Some \<lparr>hashmod = hashcap - 1, hid_cap = m, hid_count = 0,
           hid_nodes = replicate (nat m) free_node,
           hid_hash = replicate (nat hashcap) None\<rparr> }"

definition hashid_clear :: "hashid \<Rightarrow> hashid" where
  "hashid_clear hi = hi\<lparr>hid_nodes := [], hid_hash := [], hashmod := 1, hid_cap := 0, hid_count := 0\<rparr>"

definition hash_slot :: "hashid \<Rightarrow> int \<Rightarrow> nat" where
  "hash_slot hi x = nat (x AND hashmod hi)"

definition hash_head :: "hashid \<Rightarrow> int \<Rightarrow> nat option option" where
  "hash_head hi x =
     (let h = hash_slot hi x in if h < length (hid_hash hi) then Some (hid_hash hi ! h) else None)"

partial_function (option) hid_find :: "hashid_node list \<Rightarrow> int \<Rightarrow> nat option \<Rightarrow> int option" where
  "hid_find ns x c =
     (case c of
        None \<Rightarrow> Some (- 1)
      | Some i \<Rightarrow>
          (if i < length ns
           then if hid_id (ns ! i) = x then Some (int i) else hid_find ns x (hid_next (ns ! i))
           else None))"

declare hid_find.simps [code]

definition hashid_lookup :: "hashid \<Rightarrow> int \<Rightarrow> int option" where
  "hashid_lookup hi x = do { c \<leftarrow> hash_head hi x; hid_find (hid_nodes hi) x c }"

text \<open>The loop of \<open>hashid_remove\<close> from the node \<open>c\<close>: it unlinks the node after the first one
  whose successor has the id, and gives that successor.\<close>

partial_function (option) hid_unlink ::
  "hashid_node list \<Rightarrow> int \<Rightarrow> nat \<Rightarrow> (nat option \<times> hashid_node list) option" where
  "hid_unlink ns x c =
     (if c < length ns then
        (case hid_next (ns ! c) of
           None \<Rightarrow> Some (None, ns)
         | Some temp \<Rightarrow>
             (if temp < length ns then
                (if hid_id (ns ! temp) = x
                 then Some (Some temp, ns[c := (ns ! c)\<lparr>hid_next := hid_next (ns ! temp)\<rparr>])
                 else hid_unlink ns x temp)
              else None))
      else None)"

declare hid_unlink.simps [code]

definition clear_node :: "nat \<Rightarrow> hashid \<Rightarrow> int \<times> hashid" where
  "clear_node c hi =
     (int c, hi\<lparr>hid_nodes := (hid_nodes hi)[c := free_node], hid_count := hid_count hi - 1\<rparr>)"

definition hashid_remove :: "hashid \<Rightarrow> int \<Rightarrow> (int \<times> hashid) option" where
  "hashid_remove hi x = do {
     hd \<leftarrow> hash_head hi x;
     case hd of
       None \<Rightarrow> Some (- 1, hi)
     | Some c \<Rightarrow>
         (if \<not> c < length (hid_nodes hi) then None
          else if hid_id (hid_nodes hi ! c) = x
          then Some (clear_node c
                 (hi\<lparr>hid_hash := (hid_hash hi)[hash_slot hi x := hid_next (hid_nodes hi ! c)]\<rparr>))
          else do {
            (t, ns) \<leftarrow> hid_unlink (hid_nodes hi) x c;
            case t of
              None \<Rightarrow> Some (- 1, hi)
            | Some temp \<Rightarrow> Some (clear_node temp (hi\<lparr>hid_nodes := ns\<rparr>)) }) }"

text \<open>The search of \<open>hashid_insert\<close> for a free node, from the id on, modulo the capacity.
  The sum of the id and the step is an \<open>int\<close>, undefined past \<open>INT_MAX\<close>; the remainder
  of a negative sum is not positive.\<close>

definition slot_index :: "hashid \<Rightarrow> int \<Rightarrow> nat \<Rightarrow> nat option" where
  "slot_index hi x i =
     (let s = int i + x;
          r = (if s < 0 then - (- s mod hid_cap hi) else s mod hid_cap hi)
      in if s < 2 ^ 31 \<and> 0 \<le> r then Some (nat r) else None)"

function free_slot :: "hashid \<Rightarrow> int \<Rightarrow> nat \<Rightarrow> nat option" where
  "free_slot hi x i =
     (if int i < hid_cap hi then do {
        index \<leftarrow> slot_index hi x i;
        if index < length (hid_nodes hi) then
          (if hid_id (hid_nodes hi ! index) = - 1 then Some index else free_slot hi x (i + 1))
        else None }
      else None)"
  by pat_completeness auto
termination by (relation "measure (\<lambda>(hi, x, i). nat (hid_cap hi) - i)") auto

declare free_slot.simps [simp del]

definition hashid_insert :: "hashid \<Rightarrow> int \<Rightarrow> (int \<times> hashid) option" where
  "hashid_insert hi x = do {
     c \<leftarrow> free_slot hi x 0;
     if hid_next (hid_nodes hi ! c) \<noteq> None then None else do {
       hd \<leftarrow> hash_head hi x;
       Some (int c, hi\<lparr>hid_count := hid_count hi + 1,
                       hid_nodes := (hid_nodes hi)[c := \<lparr>hid_id = x, hid_next = hd\<rparr>],
                       hid_hash := (hid_hash hi)[hash_slot hi x := Some c]\<rparr>) } }"

definition hashid_full :: "hashid \<Rightarrow> bool" where
  "hashid_full hi \<longleftrightarrow> hid_count hi = hid_cap hi"

subsection \<open>The chains\<close>

fun hid_path :: "hashid_node list \<Rightarrow> nat option \<Rightarrow> nat list \<Rightarrow> bool" where
  "hid_path ns c [] \<longleftrightarrow> c = None"
| "hid_path ns c (p # ps) \<longleftrightarrow> c = Some p \<and> p < length ns \<and> hid_path ns (hid_next (ns ! p)) ps"

definition hid_used :: "hashid \<Rightarrow> nat set" where
  "hid_used hi = {i. i < length (hid_nodes hi) \<and> hid_id (hid_nodes hi ! i) \<noteq> - 1}"

definition hid_chains :: "hashid \<Rightarrow> (nat \<Rightarrow> nat list) \<Rightarrow> bool" where
  "hid_chains hi cs \<longleftrightarrow>
     (\<forall>h < length (hid_hash hi). hid_path (hid_nodes hi) (hid_hash hi ! h) (cs h) \<and> distinct (cs h)
        \<and> set (cs h) = {i \<in> hid_used hi. hash_slot hi (hid_id (hid_nodes hi ! i)) = h})"

definition hid_inv :: "hashid \<Rightarrow> bool" where
  "hid_inv hi \<longleftrightarrow>
     (\<exists>k. hashmod hi = mask k \<and> length (hid_hash hi) = 2 ^ k)
   \<and> 0 < hid_cap hi \<and> hid_cap hi = int (length (hid_nodes hi)) \<and> hid_cap hi < 2 ^ 31
   \<and> hid_count hi = int (card (hid_used hi))
   \<and> inj_on (\<lambda>i. hid_id (hid_nodes hi ! i)) (hid_used hi)
   \<and> (\<forall>i < length (hid_nodes hi). i \<notin> hid_used hi \<longrightarrow> hid_nodes hi ! i = free_node)
   \<and> (\<exists>cs. hid_chains hi cs)"

text \<open>The map that the table stands for.\<close>

definition hid_map :: "hashid \<Rightarrow> int \<rightharpoonup> nat" where
  "hid_map hi = map_of (map (\<lambda>i. (hid_id (hid_nodes hi ! i), i))
     (filter (\<lambda>i. hid_id (hid_nodes hi ! i) \<noteq> - 1) [0..<length (hid_nodes hi)]))"

subsection \<open>Lookup\<close>

lemma hash_slot_lt: "hid_inv hi \<Longrightarrow> hash_slot hi x < length (hid_hash hi)"
  by (auto simp: hid_inv_def hash_slot_def simp flip: take_bit_eq_mask)

lemma hash_head_eq: "hid_inv hi \<Longrightarrow> hash_head hi x = Some (hid_hash hi ! hash_slot hi x)"
  by (simp add: hash_head_def Let_def hash_slot_lt)

lemma hid_map_iff:
  assumes "hid_inv hi"
  shows "hid_map hi x = Some i \<longleftrightarrow> i \<in> hid_used hi \<and> hid_id (hid_nodes hi ! i) = x"
proof -
  let ?is = "filter (\<lambda>i. hid_id (hid_nodes hi ! i) \<noteq> - 1) [0..<length (hid_nodes hi)]"
  have "set ?is = hid_used hi" by (auto simp: hid_used_def)
  moreover have "distinct (map (\<lambda>i. hid_id (hid_nodes hi ! i)) ?is)"
    using assms calculation by (simp add: distinct_map hid_inv_def)
  ultimately show ?thesis
    by (auto simp: hid_map_def comp_def map_of_eq_Some_iff)
qed

lemma hid_map_none:
  assumes "hid_inv hi"
  shows "hid_map hi x = None \<longleftrightarrow> (\<forall>i \<in> hid_used hi. hid_id (hid_nodes hi ! i) \<noteq> x)"
  using hid_map_iff [OF assms] by (metis not_None_eq)

lemma hid_find_path:
  "hid_path ns c ps \<Longrightarrow>
   hid_find ns x c = Some (case find (\<lambda>i. hid_id (ns ! i) = x) ps of None \<Rightarrow> - 1 | Some i \<Rightarrow> int i)"
  by (induction ps arbitrary: c) (auto simp: hid_find.simps)

lemma chain_of:
  assumes "hid_inv hi" and "hid_chains hi cs"
  shows "hid_path (hid_nodes hi) (hid_hash hi ! hash_slot hi x) (cs (hash_slot hi x))"
    and "distinct (cs (hash_slot hi x))"
    and "set (cs (hash_slot hi x)) = {i \<in> hid_used hi. hash_slot hi (hid_id (hid_nodes hi ! i)) = hash_slot hi x}"
  using assms hash_slot_lt [OF assms(1), of x] by (auto simp: hid_chains_def)

lemma hashid_lookup_spec:
  assumes inv: "hid_inv hi"
  shows "hashid_lookup hi x = Some (case hid_map hi x of None \<Rightarrow> - 1 | Some i \<Rightarrow> int i)"
proof -
  obtain cs where cs: "hid_chains hi cs" using inv by (auto simp: hid_inv_def)
  let ?ps = "cs (hash_slot hi x)"
  have "find (\<lambda>i. hid_id (hid_nodes hi ! i) = x) ?ps = hid_map hi x"
  proof (cases "find (\<lambda>i. hid_id (hid_nodes hi ! i) = x) ?ps")
    case None
    then show ?thesis
      using chain_of(3) [OF inv cs, of x] hid_map_none [OF inv, of x] by (auto simp: find_None_iff)
  next
    case (Some i)
    then have "i \<in> set ?ps" "hid_id (hid_nodes hi ! i) = x" by (auto simp: find_Some_iff)
    with Some chain_of(3) [OF inv cs, of x] hid_map_iff [OF inv, of x i] show ?thesis by auto
  qed
  with hid_find_path [OF chain_of(1) [OF inv cs, of x], of x] show ?thesis
    by (simp add: hashid_lookup_def hash_head_eq [OF inv])
qed

subsection \<open>Insertion\<close>

lemma hid_path_update: "i \<notin> set ps \<Longrightarrow> hid_path (ns[i := v]) c ps = hid_path ns c ps"
  by (induction ps arbitrary: c) auto

lemma hid_used_finite [simp]: "finite (hid_used hi)"
  by (simp add: hid_used_def)

lemma hid_usedD: "i \<in> hid_used hi \<Longrightarrow> i < length (hid_nodes hi)"
  by (simp add: hid_used_def)

lemma hid_unused_exists:
  assumes "hid_inv hi" and "\<not> hashid_full hi"
  obtains i where "i < length (hid_nodes hi)" and "hid_id (hid_nodes hi ! i) = - 1"
proof -
  have "card (hid_used hi) \<noteq> length (hid_nodes hi)"
    using assms by (simp add: hid_inv_def hashid_full_def)
  moreover have "hid_used hi \<subseteq> {..<length (hid_nodes hi)}" by (auto simp: hid_used_def)
  ultimately have "hid_used hi \<noteq> {..<length (hid_nodes hi)}" by auto
  with \<open>hid_used hi \<subseteq> _\<close> that show ?thesis by (auto simp: hid_used_def)
qed

lemma slot_index_eq:
  assumes "0 \<le> x" and "x + hid_cap hi \<le> 2 ^ 31" and "int i < hid_cap hi"
  shows "slot_index hi x i = Some (nat ((int i + x) mod hid_cap hi))"
  using assms by (simp add: slot_index_def Let_def)

lemma free_slot_from:
  assumes cap: "hid_cap hi = int (length (hid_nodes hi))" and x: "0 \<le> x" "x + hid_cap hi \<le> 2 ^ 31"
    and "i \<le> j" and "int j < hid_cap hi" and "hid_id (hid_nodes hi ! nat ((int j + x) mod hid_cap hi)) = - 1"
  shows "\<exists>c < length (hid_nodes hi). free_slot hi x i = Some c \<and> hid_id (hid_nodes hi ! c) = - 1"
  using assms(4)
proof (induction "j - i" arbitrary: i rule: less_induct)
  case less
  then have i: "int i < hid_cap hi" using assms(5) by simp
  let ?c = "nat ((int i + x) mod hid_cap hi)"
  have step: "slot_index hi x i = Some ?c" by (rule slot_index_eq [OF x i])
  have len: "?c < length (hid_nodes hi)" using i cap pos_mod_bound [of "hid_cap hi" "int i + x"] by linarith
  show ?case
  proof (cases "hid_id (hid_nodes hi ! ?c) = - 1")
    case True
    with step len i show ?thesis by (auto simp: free_slot.simps [of hi x i])
  next
    case False
    then have "i \<noteq> j" using assms(6) by auto
    with less.prems have "i < j" by simp
    with less.hyps [of "i + 1"] step len i False show ?thesis by (auto simp: free_slot.simps [of hi x i])
  qed
qed

lemma free_slot_found:
  assumes inv: "hid_inv hi" and room: "\<not> hashid_full hi" and x: "0 \<le> x" "x + hid_cap hi \<le> 2 ^ 31"
  obtains c where "c < length (hid_nodes hi)" and "free_slot hi x 0 = Some c" and "c \<notin> hid_used hi"
proof -
  obtain i where i: "i < length (hid_nodes hi)" "hid_id (hid_nodes hi ! i) = - 1"
    by (rule hid_unused_exists [OF inv room])
  have cap: "hid_cap hi = int (length (hid_nodes hi))" "0 < hid_cap hi" using inv by (auto simp: hid_inv_def)
  define j where "j = nat ((int i - x) mod hid_cap hi)"
  have "int j = (int i - x) mod hid_cap hi" using cap by (simp add: j_def)
  then have "(int j + x) mod hid_cap hi = int i" using i cap by (simp add: mod_add_left_eq)
  moreover have "int j < hid_cap hi" using \<open>int j = _\<close> cap by simp
  ultimately obtain c where "c < length (hid_nodes hi)" "free_slot hi x 0 = Some c" "hid_id (hid_nodes hi ! c) = - 1"
    using free_slot_from [OF cap(1) x, of 0 j] i by auto
  then show ?thesis by (intro that) (auto simp: hid_used_def)
qed

lemma insert_chains:
  assumes inv: "hid_inv hi" and cs: "hid_chains hi cs" and c: "c < length (hid_nodes hi)" "c \<notin> hid_used hi"
    and x: "x \<noteq> - 1"
    and hi': "hi' = hi\<lparr>hid_count := n, hid_nodes := (hid_nodes hi)[c := \<lparr>hid_id = x, hid_next = hid_hash hi ! hash_slot hi x\<rparr>],
                       hid_hash := (hid_hash hi)[hash_slot hi x := Some c]\<rparr>"
  shows "hid_chains hi' (cs(hash_slot hi x := c # cs (hash_slot hi x)))"
    and "hid_used hi' = insert c (hid_used hi)"
proof -
  have used: "hid_used hi' = insert c (hid_used hi)"
    using c x by (auto simp: hid_used_def hi' nth_list_update)
  then show "hid_used hi' = insert c (hid_used hi)" .
  have slot: "hash_slot hi' y = hash_slot hi y" for y by (simp add: hash_slot_def hi')
  have parts: "hid_nodes hi' = (hid_nodes hi)[c := \<lparr>hid_id = x, hid_next = hid_hash hi ! hash_slot hi x\<rparr>]"
    "hid_hash hi' = (hid_hash hi)[hash_slot hi x := Some c]" by (simp_all add: hi')
  have out: "c \<notin> set (cs h)" if "h < length (hid_hash hi)" for h
    using cs that c by (auto simp: hid_chains_def)
  show "hid_chains hi' (cs(hash_slot hi x := c # cs (hash_slot hi x)))"
    using cs c out chain_of [OF inv cs, of x] hash_slot_lt [OF inv, of x]
    by (auto simp: hid_chains_def hid_path_update used slot parts nth_list_update)
qed

lemma hashid_insert_spec:
  assumes inv: "hid_inv hi" and room: "\<not> hashid_full hi" and x: "0 \<le> x" "x + hid_cap hi \<le> 2 ^ 31"
    and new: "hid_map hi x = None"
  shows "\<exists>i hi'. hashid_insert hi x = Some (int i, hi') \<and> hid_inv hi' \<and> hid_map hi' = (hid_map hi)(x \<mapsto> i)
    \<and> i \<notin> ran (hid_map hi) \<and> int i < hid_cap hi \<and> hid_cap hi' = hid_cap hi"
proof -
  obtain c where c: "c < length (hid_nodes hi)" "free_slot hi x 0 = Some c" "c \<notin> hid_used hi"
    by (rule free_slot_found [OF inv room x])
  obtain cs where cs: "hid_chains hi cs" using inv by (auto simp: hid_inv_def)
  define hi' where "hi' = hi\<lparr>hid_count := hid_count hi + 1,
    hid_nodes := (hid_nodes hi)[c := \<lparr>hid_id = x, hid_next = hid_hash hi ! hash_slot hi x\<rparr>],
    hid_hash := (hid_hash hi)[hash_slot hi x := Some c]\<rparr>"
  have x1: "x \<noteq> - 1" using x by simp
  note ch = insert_chains [OF inv cs c(1,3) x1 hi'_def]
  have free: "hid_nodes hi ! c = free_node" using inv c by (simp add: hid_inv_def)
  have ins: "hashid_insert hi x = Some (int c, hi')"
    using c free by (simp add: hashid_insert_def hash_head_eq [OF inv] hi'_def free_node_def)
  have idc: "hid_id (hid_nodes hi' ! c) = x" using c by (simp add: hi'_def)
  have idu: "hid_id (hid_nodes hi' ! i) = hid_id (hid_nodes hi ! i)" if "i \<in> hid_used hi" for i
    using c that by (auto simp: hi'_def nth_list_update)
  have none: "hid_id (hid_nodes hi ! i) \<noteq> x" if "i \<in> hid_used hi" for i
    using hid_map_none [OF inv, of x] new that by simp
  have "inj_on (\<lambda>i. hid_id (hid_nodes hi' ! i)) (hid_used hi)"
    using inv idu by (simp add: hid_inv_def cong: inj_on_cong)
  then have inj: "inj_on (\<lambda>i. hid_id (hid_nodes hi' ! i)) (hid_used hi')"
    unfolding ch(2) using none by (auto simp: idc idu)
  have inv': "hid_inv hi'"
    using inv c inj ch unfolding hid_inv_def
    by (auto simp: hi'_def nth_list_update)
  have "hid_map hi' y = Some i \<longleftrightarrow> ((hid_map hi)(x \<mapsto> c)) y = Some i" for y i
    using idc idu none c
    by (auto simp: hid_map_iff [OF inv'] hid_map_iff [OF inv] ch(2))
  then have "hid_map hi' = (hid_map hi)(x \<mapsto> c)" by (intro ext option.expand) (metis not_None_eq)+
  moreover have "c \<notin> ran (hid_map hi)" using c by (auto simp: ran_def hid_map_iff [OF inv])
  moreover have "int c < hid_cap hi" using c inv by (simp add: hid_inv_def)
  ultimately show ?thesis using ins inv' by (auto simp: hi'_def)
qed

subsection \<open>Removal\<close>

lemma hid_unlink_absent:
  "hid_path ns (Some c) (c # qs) \<Longrightarrow> \<forall>i \<in> set qs. hid_id (ns ! i) \<noteq> x \<Longrightarrow>
   hid_unlink ns x c = Some (None, ns)"
  by (induction qs arbitrary: c) (auto simp: hid_unlink.simps)

lemma hid_unlink_path:
  assumes "hid_path ns (Some c) (c # qs)" and "distinct (c # qs)" and "t \<in> set qs" and "hid_id (ns ! t) = x"
    and "\<forall>i \<in> set qs. hid_id (ns ! i) = x \<longrightarrow> i = t"
  shows "\<exists>p ns'. hid_unlink ns x c = Some (Some t, ns') \<and> p \<in> set (c # qs) \<and> p \<noteq> t
    \<and> ns' = ns[p := (ns ! p)\<lparr>hid_next := hid_next (ns ! t)\<rparr>] \<and> hid_path ns' (Some c) (remove1 t (c # qs))"
  using assms
proof (induction qs arbitrary: c)
  case Nil
  then show ?case by simp
next
  case (Cons q qs)
  have c: "c < length ns" "hid_next (ns ! c) = Some q" "q < length ns" "hid_path ns (Some q) (q # qs)"
    using Cons.prems(1) by simp_all
  have dist: "c \<noteq> q" "c \<noteq> t" "c \<notin> set qs" using Cons.prems(2,3) by auto
  show ?case
  proof (cases "hid_id (ns ! q) = x")
    case True
    then have "q = t" using Cons.prems by simp
    let ?ns = "ns[c := (ns ! c)\<lparr>hid_next := hid_next (ns ! t)\<rparr>]"
    have "hid_unlink ns x c = Some (Some t, ?ns)"
      using True \<open>q = t\<close> c by (simp add: hid_unlink.simps [of ns x c])
    moreover have "hid_path ?ns (Some c) (remove1 t (c # q # qs))"
      using \<open>q = t\<close> c dist by (simp add: hid_path_update)
    ultimately show ?thesis using dist(2) by (metis list.set_intros(1))
  next
    case False
    then have t: "t \<in> set qs" "t \<noteq> q" using Cons.prems by auto
    have "distinct (q # qs)" "\<forall>i \<in> set qs. hid_id (ns ! i) = x \<longrightarrow> i = t" using Cons.prems(2,5) by simp_all
    from Cons.IH [OF c(4) this(1) t(1) Cons.prems(4) this(2)] obtain p ns' where
      IH: "hid_unlink ns x q = Some (Some t, ns')" "p \<in> set (q # qs)" "p \<noteq> t"
      "ns' = ns[p := (ns ! p)\<lparr>hid_next := hid_next (ns ! t)\<rparr>]" "hid_path ns' (Some q) (remove1 t (q # qs))"
      by blast
    have "hid_unlink ns x c = Some (Some t, ns')"
      using IH(1) False c by (simp add: hid_unlink.simps [of ns x c])
    moreover have "hid_path ns' (Some c) (remove1 t (c # q # qs))"
    proof -
      have "p \<noteq> c" using IH(2) dist by auto
      then have "ns' ! c = ns ! c" "length ns' = length ns" using IH(4) by simp_all
      with IH(5) c dist show ?thesis by simp
    qed
    ultimately show ?thesis using IH(2-4) by (metis list.set_intros(2))
  qed
qed

text \<open>What both branches of \<open>hashid_remove\<close> leave: the node is free, the ids of the others
  are kept, and the chain of the bucket leads through the rest of its nodes.\<close>

lemma removed_ok:
  assumes inv: "hid_inv hi" and cs: "hid_chains hi cs" and t: "t \<in> hid_used hi"
    and h: "h = hash_slot hi (hid_id (hid_nodes hi ! t))"
    and hi': "hi' = hi\<lparr>hid_nodes := ns', hid_hash := (hid_hash hi)[h := hd'], hid_count := hid_count hi - 1\<rparr>"
    and len: "length ns' = length (hid_nodes hi)" and gone: "ns' ! t = free_node"
    and ids: "\<And>i. i < length ns' \<Longrightarrow> i \<noteq> t \<Longrightarrow> hid_id (ns' ! i) = hid_id (hid_nodes hi ! i)"
    and rest: "\<And>i. i < length ns' \<Longrightarrow> i \<notin> set (cs h) \<Longrightarrow> ns' ! i = hid_nodes hi ! i"
    and others: "\<And>c ps. set ps \<inter> set (cs h) = {} \<Longrightarrow> hid_path ns' c ps = hid_path (hid_nodes hi) c ps"
    and path: "hid_path ns' hd' (remove1 t (cs h))"
  shows "hid_inv hi'" and "hid_used hi' = hid_used hi - {t}"
proof -
  have tl: "t < length ns'" using t len by (simp add: hid_used_def)
  have "hid_id (ns' ! t) = - 1" by (simp add: gone free_node_def)
  then have "hid_id (ns' ! i) = (if i = t then - 1 else hid_id (hid_nodes hi ! i))" if "i < length ns'" for i
    using ids [OF that] by simp
  then have used: "hid_used hi' = hid_used hi - {t}"
    using len by (auto simp: hid_used_def hi' split: if_splits)
  then show "hid_used hi' = hid_used hi - {t}" .
  have slot: "hash_slot hi' y = hash_slot hi y" for y by (simp add: hash_slot_def hi')
  have parts: "hid_nodes hi' = ns'" "hid_hash hi' = (hid_hash hi)[h := hd']" by (simp_all add: hi')
  note ch = chain_of [OF inv cs, of "hid_id (hid_nodes hi ! t)", folded h]
  have idu: "hid_id (ns' ! i) = hid_id (hid_nodes hi ! i)" if "i \<in> hid_used hi - {t}" for i
    using that ids len by (auto dest: hid_usedD)
  have apart: "set (cs h') \<inter> set (cs h) = {}" if "h' < length (hid_hash hi)" "h' \<noteq> h" for h'
    using cs that ch(3) by (auto simp: hid_chains_def)
  have "hid_chains hi' (cs(h := remove1 t (cs h)))"
    using cs apart others path ch idu hash_slot_lt [OF inv, of "hid_id (hid_nodes hi ! t)", folded h]
    by (auto simp: hid_chains_def used slot parts nth_list_update h [symmetric]) (metis h)+
  moreover have "inj_on (\<lambda>i. hid_id (ns' ! i)) (hid_used hi - {t})"
    using inv idu by (auto simp: hid_inv_def inj_on_def)
  moreover have "ns' ! i = free_node" if "i < length ns'" "i \<notin> hid_used hi - {t}" for i
  proof (cases "i = t")
    case False
    then have "i \<notin> set (cs h)" using that ch(3) by auto
    with rest [OF that(1)] inv that False len show ?thesis by (auto simp: hid_inv_def)
  qed (simp add: gone)
  moreover have "card (hid_used hi) = Suc (card (hid_used hi - {t}))"
    using t by (metis card_Suc_Diff1 hid_used_finite)
  ultimately show "hid_inv hi'"
    using inv len unfolding hid_inv_def by (auto simp: used parts) (simp_all add: hi')
qed

lemma hid_map_removed:
  assumes inv: "hid_inv hi" "hid_inv hi'" and t: "hid_map hi x = Some t" and used: "hid_used hi' = hid_used hi - {t}"
    and ids: "\<And>i. i \<in> hid_used hi' \<Longrightarrow> hid_id (hid_nodes hi' ! i) = hid_id (hid_nodes hi ! i)"
  shows "hid_map hi' = (hid_map hi)(x := None)"
proof -
  have "hid_map hi' y = Some i \<longleftrightarrow> ((hid_map hi)(x := None)) y = Some i" for y i
    using t used ids inv(1)
    by (auto simp: hid_map_iff [OF inv(1)] hid_map_iff [OF inv(2)] hid_inv_def inj_on_def)
  then show ?thesis by (intro ext option.expand) (metis not_None_eq)+
qed

lemma remove_absent:
  assumes inv: "hid_inv hi" and cs: "hid_chains hi cs" and none: "hid_map hi x = None"
  shows "hashid_remove hi x = Some (- 1, hi)"
proof -
  note ch = chain_of [OF inv cs, of x]
  have no: "\<forall>i \<in> set (cs (hash_slot hi x)). hid_id (hid_nodes hi ! i) \<noteq> x"
    using ch(3) hid_map_none [OF inv, of x] none by auto
  show ?thesis
  proof (cases "cs (hash_slot hi x)")
    case Nil
    with ch(1) show ?thesis by (simp add: hashid_remove_def hash_head_eq [OF inv])
  next
    case (Cons c qs)
    with ch(1) no hid_unlink_absent [of "hid_nodes hi" c qs x] show ?thesis
      by (auto simp: hashid_remove_def hash_head_eq [OF inv])
  qed
qed

lemma remove_present:
  assumes inv: "hid_inv hi" and cs: "hid_chains hi cs" and h: "h = hash_slot hi x" and t: "t \<in> set (cs h)"
    and x: "hid_id (hid_nodes hi ! t) = x" and only: "\<forall>i \<in> set (cs h). hid_id (hid_nodes hi ! i) = x \<longrightarrow> i = t"
  shows "\<exists>hd' p nx. hashid_remove hi x = Some (int t, hi\<lparr>hid_nodes := (hid_nodes hi)[p := (hid_nodes hi ! p)\<lparr>hid_next := nx\<rparr>, t := free_node],
      hid_hash := (hid_hash hi)[h := hd'], hid_count := hid_count hi - 1\<rparr>)
    \<and> p \<in> set (cs h)
    \<and> hid_path ((hid_nodes hi)[p := (hid_nodes hi ! p)\<lparr>hid_next := nx\<rparr>, t := free_node]) hd' (remove1 t (cs h))"
proof -
  note ch = chain_of [OF inv cs, of x, folded h]
  obtain c qs where cq: "cs h = c # qs" using t by (cases "cs h") auto
  have c: "hid_hash hi ! h = Some c" "c < length (hid_nodes hi)" using ch(1) cq by simp_all
  show ?thesis
  proof (cases "c = t")
    case True
    have "hid_path ((hid_nodes hi)[t := free_node]) (hid_next (hid_nodes hi ! t)) (remove1 t (cs h))"
      using ch(1,2) cq True by (simp add: hid_path_update)
    with True x c cq show ?thesis
      by (intro exI [of _ "hid_next (hid_nodes hi ! t)"] exI [of _ t] exI [of _ None])
        (simp add: hashid_remove_def hash_head_eq [OF inv] h clear_node_def)
  next
    case False
    have path: "hid_path (hid_nodes hi) (Some c) (c # qs)" and dist: "distinct (c # qs)" and t': "t \<in> set qs"
      and only': "\<forall>i \<in> set qs. hid_id (hid_nodes hi ! i) = x \<longrightarrow> i = t"
      using ch(1,2) c cq t only False by simp_all
    obtain p ns where u: "hid_unlink (hid_nodes hi) x c = Some (Some t, ns)" "p \<in> set (c # qs)" "p \<noteq> t"
      "ns = (hid_nodes hi)[p := (hid_nodes hi ! p)\<lparr>hid_next := hid_next (hid_nodes hi ! t)\<rparr>]"
      "hid_path ns (Some c) (remove1 t (c # qs))"
      using hid_unlink_path [OF path dist t' x only'] by blast
    have "hid_id (hid_nodes hi ! c) \<noteq> x" using only cq False by auto
    with u(1) c have "hashid_remove hi x = Some (clear_node t (hi\<lparr>hid_nodes := ns\<rparr>))"
      by (simp add: hashid_remove_def hash_head_eq [OF inv] h)
    moreover have "(hid_hash hi)[h := Some c] = hid_hash hi" using list_update_id [of "hid_hash hi" h] c(1) by simp
    moreover have "hid_path (ns[t := free_node]) (Some c) (remove1 t (c # qs))"
      using u(5) dist by (simp only: hid_path_update set_remove1_eq Diff_iff singletonI not_False_eq_True simp_thms)
    ultimately show ?thesis
      using u(2,4) unfolding cq
      by (intro exI [of _ "Some c"] exI [of _ p] exI [of _ "hid_next (hid_nodes hi ! t)"])
        (simp add: clear_node_def)
  qed
qed

lemma hashid_remove_spec:
  assumes inv: "hid_inv hi"
  shows "\<exists>hi'. hashid_remove hi x = Some (case hid_map hi x of None \<Rightarrow> - 1 | Some i \<Rightarrow> int i, hi')
    \<and> hid_inv hi' \<and> hid_map hi' = (hid_map hi)(x := None) \<and> hid_cap hi' = hid_cap hi"
proof -
  obtain cs where cs: "hid_chains hi cs" using inv by (auto simp: hid_inv_def)
  define ns where "ns = hid_nodes hi"
  define h where "h = hash_slot hi x"
  note ch = chain_of [OF inv cs, of x, folded h_def]
  show ?thesis
  proof (cases "hid_map hi x")
    case None
    with remove_absent [OF inv cs] inv show ?thesis by auto
  next
    case (Some t)
    then have t: "t \<in> hid_used hi" "hid_id (hid_nodes hi ! t) = x" by (simp_all add: hid_map_iff [OF inv])
    have th: "t \<in> set (cs h)" "h = hash_slot hi (hid_id (hid_nodes hi ! t))"
      unfolding ch(3) using t by (simp_all add: h_def)
    have "inj_on (\<lambda>i. hid_id (hid_nodes hi ! i)) (hid_used hi)" using inv by (simp add: hid_inv_def)
    then have only: "\<forall>i \<in> set (cs h). hid_id (hid_nodes hi ! i) = x \<longrightarrow> i = t"
      unfolding ch(3) using t by (blast dest: inj_onD)
    have tl: "t < length ns" using t by (simp add: hid_used_def ns_def)
    obtain hd' p nx ns' where ns': "ns' = ns[p := (ns ! p)\<lparr>hid_next := nx\<rparr>, t := free_node]"
      and p: "p \<in> set (cs h)" and path: "hid_path ns' hd' (remove1 t (cs h))"
      and rm: "hashid_remove hi x = Some (int t,
        hi\<lparr>hid_nodes := ns', hid_hash := (hid_hash hi)[h := hd'], hid_count := hid_count hi - 1\<rparr>)"
      using remove_present [OF inv cs h_def th(1) t(2) only, folded ns_def] by blast
    have pl: "p < length ns" using p unfolding ch(3) by (simp add: ns_def hid_used_def)
    have len: "length ns' = length (hid_nodes hi)" and gone: "ns' ! t = free_node"
      using tl by (simp_all add: ns' ns_def)
    have ids: "hid_id (ns' ! i) = hid_id (hid_nodes hi ! i)" if "i \<noteq> t" for i
      using that pl by (cases "i = p") (simp_all add: ns' ns_def)
    have rest: "ns' ! i = hid_nodes hi ! i" if "i \<notin> set (cs h)" for i
    proof -
      have "p \<noteq> i" "t \<noteq> i" using that p th(1) by auto
      then show ?thesis by (simp add: ns' ns_def)
    qed
    have others: "hid_path ns' d ps = hid_path (hid_nodes hi) d ps" if "set ps \<inter> set (cs h) = {}" for d ps
    proof -
      have "p \<notin> set ps" "t \<notin> set ps" using that p th(1) by auto
      then show ?thesis by (simp add: ns' ns_def hid_path_update)
    qed
    note ok = removed_ok [OF inv cs t(1) th(2) refl len gone ids rest others path]
    show ?thesis
      using rm ok Some hid_map_removed [OF inv ok(1) Some ok(2)] ids by auto
  qed
qed

subsection \<open>Initial state\<close>

lemma hash_cap_power:
  "k \<le> 30 \<Longrightarrow> m \<le> 2 ^ 30 \<Longrightarrow> \<exists>j. hash_cap (2 ^ k) m = Some (2 ^ j)"
proof (induction "30 - k" arbitrary: k)
  case 0
  then show ?case by (auto simp: hash_cap.simps intro: exI [of _ k])
next
  case (Suc d)
  then have k: "k < 30" by simp
  then have "(2 :: int) ^ (k + 1) < 2 ^ 31" by (intro power_strict_increasing) auto
  moreover have "d = 30 - (k + 1)" "k + 1 \<le> 30" using Suc.hyps(2) k by simp_all
  then obtain j where "hash_cap (2 ^ (k + 1)) m = Some (2 ^ j)" using Suc.hyps(1) Suc.prems(2) by blast
  ultimately show ?case by (auto simp: hash_cap.simps [of "2 ^ k"] mult.commute intro: exI [of _ k])
qed

lemma hashid_init_spec:
  assumes "0 < m" and "m \<le> 2 ^ 30"
  shows "\<exists>hi. hashid_init m = Some hi \<and> hid_inv hi \<and> hid_map hi = Map.empty \<and> hid_cap hi = m"
proof -
  obtain k where k: "hash_cap 16 m = Some (2 ^ k)" using hash_cap_power [of 4 m] assms by auto
  define hi where "hi = \<lparr>hashmod = 2 ^ k - 1, hid_cap = m, hid_count = 0,
           hid_nodes = replicate (nat m) free_node, hid_hash = replicate (nat (2 ^ k)) (None :: nat option)\<rparr>"
  have used: "hid_used hi = {}" by (auto simp: hid_used_def hi_def free_node_def)
  have "hid_chains hi (\<lambda>_. [])" by (auto simp: hid_chains_def used) (simp add: hi_def)
  then have inv: "hid_inv hi" unfolding hid_inv_def used using assms
    by (auto simp: hi_def mask_eq_exp_minus_1 nat_power_eq)
  moreover have "hid_map hi = Map.empty"
    by (rule ext) (simp add: hid_map_none [OF inv] used)
  moreover have "hashid_init m = Some hi" by (simp add: hashid_init_def k hi_def)
  ultimately show ?thesis by (auto simp: hi_def)
qed

subsection \<open>The contract of the table\<close>

text \<open>What the gate relies on: the table is a finite map, an index is given to one id at a
  time, and the array of records that goes with the indices (here the list of their ids)
  stays in step when the caller writes and clears the record at the index it is given.\<close>

definition ids_match :: "(int \<rightharpoonup> nat) \<Rightarrow> int list \<Rightarrow> bool" where
  "ids_match m xs \<longleftrightarrow>
     (\<forall>x i. m x = Some i \<longrightarrow> i < length xs \<and> xs ! i = x) \<and> (\<forall>i < length xs. 0 \<le> xs ! i \<longrightarrow> m (xs ! i) = Some i)"

locale id_table =
  fixes inv :: "'t \<Rightarrow> bool" and content :: "'t \<Rightarrow> int \<rightharpoonup> nat" and cap :: "'t \<Rightarrow> int" and full :: "'t \<Rightarrow> bool"
    and lookup :: "'t \<Rightarrow> int \<Rightarrow> int option"
    and ins rem :: "'t \<Rightarrow> int \<Rightarrow> (int \<times> 't) option"
  assumes lookup_law: "inv t \<Longrightarrow> lookup t x = Some (case content t x of None \<Rightarrow> - 1 | Some i \<Rightarrow> int i)"
    and ins_law: "inv t \<Longrightarrow> \<not> full t \<Longrightarrow> 0 \<le> x \<Longrightarrow> x + cap t \<le> 2 ^ 31 \<Longrightarrow> content t x = None \<Longrightarrow>
      \<exists>i t'. ins t x = Some (int i, t') \<and> inv t' \<and> content t' = (content t)(x \<mapsto> i) \<and> i \<notin> ran (content t)
        \<and> int i < cap t \<and> cap t' = cap t"
    and rem_law: "inv t \<Longrightarrow>
      \<exists>t'. rem t x = Some (case content t x of None \<Rightarrow> - 1 | Some i \<Rightarrow> int i, t') \<and> inv t'
        \<and> content t' = (content t)(x := None) \<and> cap t' = cap t"
begin

lemma found:
  assumes "inv t" and "ids_match (content t) xs"
  shows "\<exists>r. lookup t x = Some r \<and> (0 \<le> r \<longrightarrow> content t x = Some (nat r) \<and> nat r < length xs \<and> xs ! nat r = x)
    \<and> (r < 0 \<longrightarrow> content t x = None)"
  using lookup_law [OF assms(1), of x] assms(2) by (auto simp: ids_match_def split: option.splits)

lemma inserted:
  assumes "inv t" and "\<not> full t" and "0 \<le> x" and "x + cap t \<le> 2 ^ 31" and "content t x = None"
    and m: "ids_match (content t) xs" and len: "cap t = int (length xs)"
  shows "\<exists>i t'. ins t x = Some (int i, t') \<and> inv t' \<and> content t' = (content t)(x \<mapsto> i) \<and> i < length xs
    \<and> cap t' = cap t \<and> i \<notin> ran (content t) \<and> ids_match (content t') (xs[i := x])"
proof -
  obtain i t' where t': "ins t x = Some (int i, t')" "inv t'" "content t' = (content t)(x \<mapsto> i)"
    "i \<notin> ran (content t)" "int i < cap t" "cap t' = cap t"
    using ins_law [OF assms(1-5)] by blast
  have i: "i < length xs" using t'(5) len by simp
  have "ids_match (content t') (xs[i := x])"
    using m t'(4) i assms(5) by (auto simp: t'(3) ids_match_def ran_def nth_list_update)
  with t' i show ?thesis by blast
qed

lemma removed:
  assumes "inv t" and m: "ids_match (content t) xs"
  shows "\<exists>r t'. rem t x = Some (r, t') \<and> inv t' \<and> content t' = (content t)(x := None) \<and> cap t' = cap t
    \<and> (r < 0 \<longrightarrow> content t x = None \<and> ids_match (content t') xs)
    \<and> (0 \<le> r \<longrightarrow> content t x = Some (nat r) \<and> nat r < length xs \<and> ids_match (content t') (xs[nat r := - 1]))"
proof -
  obtain t' where t': "rem t x = Some (case content t x of None \<Rightarrow> - 1 | Some i \<Rightarrow> int i, t')" "inv t'"
    "content t' = (content t)(x := None)" "cap t' = cap t"
    using rem_law [OF assms(1)] by blast
  have "ids_match (content t') xs" if "content t x = None"
    using m that by (auto simp: t'(3) ids_match_def)
  moreover have "ids_match (content t') (xs[i := - 1])" "i < length xs" if "content t x = Some i" for i
    using m that by (auto simp: t'(3) ids_match_def nth_list_update) metis
  ultimately show ?thesis using t' by (cases "content t x") auto
qed

end

interpretation ids: id_table hid_inv hid_map hid_cap hashid_full hashid_lookup hashid_insert hashid_remove
  by unfold_locales (simp_all add: hashid_lookup_spec hashid_insert_spec hashid_remove_spec)

subsection \<open>Properties\<close>

text \<open>C35. The table of socket ids refines a finite map from ids to indices. In a well-formed
  table the lookup of an id terminates with the index of the id, or with -1 when it has none.
  Removal returns that same answer, leaves a well-formed table and takes exactly that id out.
  Insertion of a new non-negative id, when the table is not full and the id is not within the
  capacity of \<open>INT_MAX\<close>, passes its asserts and adds exactly that id, at an index below the
  capacity that no other id has.\<close>

theorem hashid_refines_map:
  assumes "hid_inv hi"
  shows "hashid_lookup hi x = Some (case hid_map hi x of None \<Rightarrow> - 1 | Some i \<Rightarrow> int i)
    \<and> (\<exists>hi'. hashid_remove hi x = Some (case hid_map hi x of None \<Rightarrow> - 1 | Some i \<Rightarrow> int i, hi')
         \<and> hid_inv hi' \<and> hid_map hi' = (hid_map hi)(x := None))
    \<and> (\<not> hashid_full hi \<and> 0 \<le> x \<and> x + hid_cap hi \<le> 2 ^ 31 \<and> hid_map hi x = None \<longrightarrow>
         (\<exists>i hi'. hashid_insert hi x = Some (int i, hi') \<and> hid_inv hi' \<and> hid_map hi' = (hid_map hi)(x \<mapsto> i)
            \<and> i \<notin> ran (hid_map hi) \<and> int i < hid_cap hi))"
  using ids.lookup_law [OF assms] ids.rem_law [OF assms, of x] ids.ins_law [OF assms] by blast

definition example_ids :: hashid where
  "example_ids = the (hashid_init 4)"

lemma example_ids_ok: "hid_inv example_ids" "hid_map example_ids = Map.empty" "hid_cap example_ids = 4"
    "\<not> hashid_full example_ids"
proof -
  show "hid_inv example_ids" "hid_map example_ids = Map.empty" "hid_cap example_ids = 4"
    using hashid_init_spec [of 4] by (auto simp: example_ids_def)
  show "\<not> hashid_full example_ids" by code_simp
qed

theorem hashid_refines_map_witness:
  "hashid_lookup example_ids 7 = Some (- 1)
   \<and> (\<exists>i hi'. hashid_insert example_ids 7 = Some (int i, hi') \<and> hid_map hi' = [7 \<mapsto> i])"
  using hashid_refines_map [OF example_ids_ok(1), of 7] by (auto simp: example_ids_ok)

lemma free_slot_overflow:
  assumes cap: "hid_cap hi = int (length (hid_nodes hi))" and x: "0 \<le> x" "x + int n = 2 ^ 31" "int n < hid_cap hi"
    and taken: "\<forall>j < n. nat ((int j + x) mod hid_cap hi) \<in> hid_used hi" and "i \<le> n"
  shows "free_slot hi x i = None"
  using assms(6)
proof (induction "n - i" arbitrary: i)
  case 0
  then have "i = n" by simp
  with x have "slot_index hi x i = None" by (simp add: slot_index_def Let_def add.commute)
  then show ?case by (simp add: free_slot.simps [of hi x i])
next
  case (Suc d)
  then have i: "i < n" by simp
  let ?c = "nat ((int i + x) mod hid_cap hi)"
  have "slot_index hi x i = Some ?c" using i x by (simp add: slot_index_def Let_def)
  moreover have "?c < length (hid_nodes hi)" "hid_id (hid_nodes hi ! ?c) \<noteq> - 1"
    using taken i by (auto simp: hid_used_def)
  moreover have "free_slot hi x (i + 1) = None" using Suc.hyps(1) [of "i + 1"] Suc.hyps(2) i by simp
  ultimately show ?case by (simp add: free_slot.simps [of hi x i])
qed

text \<open>C36. The search for a free node adds its step to the socket id in an \<open>int\<close>. When the id is
  closer to \<open>INT_MAX\<close> than the capacity and the nodes that its first steps lead to are taken,
  insertion reaches the step at which the sum overflows and the index is undefined, however
  many other nodes are free. The ids of sockets reach up to \<open>INT_MAX\<close>.\<close>

theorem hashid_insert_overflow:
  assumes "hid_inv hi" and "0 \<le> x" "x + int n = 2 ^ 31" "int n < hid_cap hi"
    and "\<forall>j < n. nat ((int j + x) mod hid_cap hi) \<in> hid_used hi"
  shows "hashid_insert hi x = None"
proof -
  have "hid_cap hi = int (length (hid_nodes hi))" using assms(1) by (simp add: hid_inv_def)
  from free_slot_overflow [OF this assms(2-5), of 0] show ?thesis by (simp add: hashid_insert_def)
qed

theorem hashid_insert_overflow_witness:
  "\<exists>hi. hashid_insert example_ids 3 = Some (3, hi) \<and> \<not> hashid_full hi
    \<and> hashid_lookup hi 2147483647 = Some (- 1) \<and> hashid_insert hi 2147483647 = None"
proof -
  let ?hi = "snd (the (hashid_insert example_ids 3))"
  have ins: "hashid_insert example_ids 3 = Some (3, ?hi)" by code_simp
  obtain i hi' where "hashid_insert example_ids 3 = Some (int i, hi')" "hid_inv hi'" "hid_cap hi' = 4"
    using hashid_insert_spec [OF example_ids_ok(1,4), of 3] by (auto simp: example_ids_ok)
  with ins have inv: "hid_inv ?hi" "hid_cap ?hi = 4" by simp_all
  have "hid_id (hid_nodes ?hi ! 3) = 3" "3 < length (hid_nodes ?hi)" by code_simp+
  then have "\<forall>j < 1. nat ((int j + 2147483647) mod hid_cap ?hi) \<in> hid_used ?hi"
    by (simp add: inv(2) hid_used_def)
  then have "hashid_insert ?hi 2147483647 = None"
    using inv by (intro hashid_insert_overflow [of _ _ 1]) simp_all
  moreover have "\<not> hashid_full ?hi" "hashid_lookup ?hi 2147483647 = Some (- 1)" by code_simp+
  ultimately show ?thesis using ins by blast
qed

end
