(* ===== verification/Databuffer.thy ===== *)
theory Databuffer
  imports Prelude
begin

section \<open>The data buffer of a connection\<close>

text \<open>
  \<open>databuffer.h\<close>: the bytes that a gate has received on a connection and not yet handed on,
  as a queue of the buffers they came in, with an offset into the first. A node of the queue
  comes from a pool that all connections of a gate share. The linked list from \<open>head\<close> to
  \<open>tail\<close> is the list of its nodes, and the pool is the number of its blocks and the number of
  nodes on its free list. A read through a \<open>NULL\<close> head, past the end of a buffer, and a failed
  \<open>assert\<close> are \<open>None\<close>. The result is that a buffer is a byte stream: a push appends to it and a
  read takes from its front, whatever the sizes of the pieces.
\<close>

subsection \<open>The code\<close>

definition MESSAGEPOOL :: nat where
  "MESSAGEPOOL = 1023"

record db_message =
  dm_buffer :: "byte list"
  dm_size :: int

record databuffer =
  db_header :: int
  db_offset :: int
  db_size :: int
  db_msgs :: "db_message list"

record messagepool =
  mp_pool :: nat
  mp_freelist :: nat

definition db_empty :: databuffer where
  "db_empty = \<lparr>db_header = 0, db_offset = 0, db_size = 0, db_msgs = []\<rparr>"

definition messagepool_free :: "messagepool \<Rightarrow> messagepool" where
  "messagepool_free mp = \<lparr>mp_pool = 0, mp_freelist = 0\<rparr>"

definition return_message :: "databuffer \<Rightarrow> messagepool \<Rightarrow> (databuffer \<times> messagepool) option" where
  "return_message db mp =
     (case db_msgs db of
        [] \<Rightarrow> None
      | m # ms \<Rightarrow> Some (db\<lparr>db_msgs := ms\<rparr>, mp\<lparr>mp_freelist := mp_freelist mp + 1\<rparr>))"

text \<open>\<open>memcpy(buffer, current->buffer + offset, sz)\<close>.\<close>

definition db_copy :: "db_message \<Rightarrow> int \<Rightarrow> int \<Rightarrow> byte list option" where
  "db_copy m off sz =
     (if 0 \<le> off \<and> 0 \<le> sz \<and> off + sz \<le> int (length (dm_buffer m))
      then Some (take (nat sz) (drop (nat off) (dm_buffer m))) else None)"

function db_read_loop ::
  "databuffer \<Rightarrow> messagepool \<Rightarrow> int \<Rightarrow> (byte list \<times> databuffer \<times> messagepool) option" where
  "db_read_loop db mp sz =
     (case db_msgs db of
        [] \<Rightarrow> None
      | current # ms \<Rightarrow>
          (let bsz = dm_size current - db_offset db
           in if bsz > sz then do {
                bs \<leftarrow> db_copy current (db_offset db) sz;
                Some (bs, db\<lparr>db_offset := db_offset db + sz\<rparr>, mp) }
              else if bsz = sz then do {
                bs \<leftarrow> db_copy current (db_offset db) sz;
                (db1, mp1) \<leftarrow> return_message (db\<lparr>db_offset := 0\<rparr>) mp;
                Some (bs, db1, mp1) }
              else do {
                bs \<leftarrow> db_copy current (db_offset db) bsz;
                (rest, db2, mp2) \<leftarrow> db_read_loop (db\<lparr>db_msgs := ms, db_offset := 0\<rparr>)
                   (mp\<lparr>mp_freelist := mp_freelist mp + 1\<rparr>) (sz - bsz);
                Some (bs @ rest, db2, mp2) }))"
  by pat_completeness auto
termination by (relation "measure (\<lambda>(db, mp, sz). length (db_msgs db))") auto

declare db_read_loop.simps [simp del]

definition databuffer_read ::
  "databuffer \<Rightarrow> messagepool \<Rightarrow> int \<Rightarrow> (byte list \<times> databuffer \<times> messagepool) option" where
  "databuffer_read db mp sz =
     (if db_size db \<ge> sz then db_read_loop (db\<lparr>db_size := db_size db - sz\<rparr>) mp sz else None)"

text \<open>A fresh block of the pool gives its first node at once and links the others.\<close>

definition databuffer_push ::
  "databuffer \<Rightarrow> messagepool \<Rightarrow> byte list \<Rightarrow> int \<Rightarrow> databuffer \<times> messagepool" where
  "databuffer_push db mp buf sz =
     (let mp1 = (if mp_freelist mp \<noteq> 0 then mp\<lparr>mp_freelist := mp_freelist mp - 1\<rparr>
                 else mp\<lparr>mp_pool := mp_pool mp + 1, mp_freelist := MESSAGEPOOL - 1\<rparr>)
      in (db\<lparr>db_msgs := db_msgs db @ [\<lparr>dm_buffer = buf, dm_size = sz\<rparr>], db_size := db_size db + sz\<rparr>, mp1))"

text \<open>The header of a message, in two or in four bytes. Four bytes make an \<open>int\<close>, which is
  negative from \<open>0x80000000\<close> on.\<close>

definition header_value :: "int \<Rightarrow> byte list \<Rightarrow> int" where
  "header_value header_size plen =
     (if header_size = 2 then uint (plen ! 0) * 256 + uint (plen ! 1)
      else signed_take_bit 31
        (uint (plen ! 0) * 2 ^ 24 + uint (plen ! 1) * 2 ^ 16 + uint (plen ! 2) * 2 ^ 8 + uint (plen ! 3)))"

definition databuffer_readheader ::
  "databuffer \<Rightarrow> messagepool \<Rightarrow> int \<Rightarrow> (int \<times> databuffer \<times> messagepool) option" where
  "databuffer_readheader db mp header_size =
     (let answer = (\<lambda>db mp. (if db_size db < db_header db then - 1 else db_header db, db, mp))
      in if db_header db = 0 then
           (if db_size db < header_size then Some (- 1, db, mp)
            else do {
              (plen, db1, mp1) \<leftarrow> databuffer_read db mp header_size;
              Some (answer (db1\<lparr>db_header := header_value header_size plen\<rparr>) mp1) })
         else Some (answer db mp))"

definition databuffer_reset :: "databuffer \<Rightarrow> databuffer" where
  "databuffer_reset db = db\<lparr>db_header := 0\<rparr>"

fun return_all :: "db_message list \<Rightarrow> messagepool \<Rightarrow> messagepool" where
  "return_all [] mp = mp"
| "return_all (m # ms) mp = return_all ms (mp\<lparr>mp_freelist := mp_freelist mp + 1\<rparr>)"

definition databuffer_clear :: "databuffer \<Rightarrow> messagepool \<Rightarrow> databuffer \<times> messagepool" where
  "databuffer_clear db mp = (db_empty, return_all (db_msgs db) mp)"

subsection \<open>The byte stream\<close>

definition db_stream :: "databuffer \<Rightarrow> byte list" where
  "db_stream db = drop (nat (db_offset db)) (concat (map dm_buffer (db_msgs db)))"

text \<open>Every node has the size of its buffer, the offset lies within the first buffer, and the
  size is that of the stream.\<close>

definition db_inv :: "databuffer \<Rightarrow> bool" where
  "db_inv db \<longleftrightarrow>
     (\<forall>m \<in> set (db_msgs db). dm_size m = int (length (dm_buffer m)))
   \<and> 0 \<le> db_offset db
   \<and> (case db_msgs db of [] \<Rightarrow> db_offset db = 0 | m # _ \<Rightarrow> db_offset db \<le> dm_size m)
   \<and> db_size db = int (length (db_stream db))"

text \<open>The same without the size, which a read updates before it starts.\<close>

definition db_shape :: "databuffer \<Rightarrow> bool" where
  "db_shape db \<longleftrightarrow>
     (\<forall>m \<in> set (db_msgs db). dm_size m = int (length (dm_buffer m)))
   \<and> 0 \<le> db_offset db
   \<and> (case db_msgs db of [] \<Rightarrow> db_offset db = 0 | m # _ \<Rightarrow> db_offset db \<le> dm_size m)"

lemma db_inv_iff: "db_inv db \<longleftrightarrow> db_shape db \<and> db_size db = int (length (db_stream db))"
  by (auto simp: db_inv_def db_shape_def)

text \<open>No node is lost: the nodes on the free list and those in use are those of the blocks.\<close>

definition pool_nodes :: "messagepool \<Rightarrow> nat \<Rightarrow> bool" where
  "pool_nodes mp used \<longleftrightarrow> mp_freelist mp + used = mp_pool mp * MESSAGEPOOL"

lemma db_read_loop_spec:
  assumes "db_shape db" and "0 < sz" and "sz \<le> int (length (db_stream db))"
  shows "\<exists>db' mp'. db_read_loop db mp sz = Some (take (nat sz) (db_stream db), db', mp')
    \<and> db_shape db' \<and> db_stream db' = drop (nat sz) (db_stream db) \<and> db_size db' = db_size db
    \<and> db_header db' = db_header db \<and> mp_pool mp' = mp_pool mp
    \<and> mp_freelist mp' + length (db_msgs db') = mp_freelist mp + length (db_msgs db)"
  using assms
proof (induction db mp sz rule: db_read_loop.induct)
  case (1 db mp sz)
  obtain m ms where ms: "db_msgs db = m # ms"
    using "1.prems" by (cases "db_msgs db") (auto simp: db_stream_def db_shape_def)
  define off where "off = nat (db_offset db)"
  have off: "db_offset db = int off" using "1.prems" by (simp add: db_shape_def off_def)
  have m: "dm_size m = int (length (dm_buffer m))" "off \<le> length (dm_buffer m)"
    using "1.prems"(1) ms off by (auto simp: db_shape_def)
  obtain n where n: "sz = int n" "0 < n" using "1.prems"(2) by (metis zero_less_imp_eq_int)
  have st: "db_stream db = drop off (dm_buffer m) @ concat (map dm_buffer ms)"
    using m by (simp add: db_stream_def ms off_def)
  have bsz: "dm_size m - db_offset db = int (length (drop off (dm_buffer m)))" using m off by simp
  consider (less) "n < length (drop off (dm_buffer m))" | (eq) "n = length (drop off (dm_buffer m))"
    | (more) "length (drop off (dm_buffer m)) < n" by linarith
  then show ?case
  proof cases
    case less
    then show ?thesis
      using "1.prems"(1) m unfolding db_read_loop.simps [of db mp sz]
      by (auto simp: Let_def nat_add_distrib add.commute [of n] ms off n(1) db_copy_def st db_shape_def db_stream_def)
  next
    case eq
    then show ?thesis
      using "1.prems"(1) m unfolding db_read_loop.simps [of db mp sz]
      by (auto simp: Let_def nat_add_distrib ms off n(1) db_copy_def st db_shape_def db_stream_def return_message_def split: list.splits)
  next
    case more
    let ?bsz = "dm_size m - db_offset db"
    let ?db = "db\<lparr>db_msgs := ms, db_offset := 0\<rparr>" and ?mp = "mp\<lparr>mp_freelist := mp_freelist mp + 1\<rparr>"
    have rest: "db_stream ?db = concat (map dm_buffer ms)" by (simp add: db_stream_def)
    have "db_shape ?db" using "1.prems"(1) ms by (auto simp: db_shape_def split: list.splits)
    moreover have "0 < sz - ?bsz" "sz - ?bsz \<le> int (length (db_stream ?db))"
      using more bsz n "1.prems"(3) by (simp_all add: st rest)
    moreover have "\<not> sz < ?bsz" "?bsz \<noteq> sz" using more bsz n by auto
    moreover have copy: "db_copy m (db_offset db) ?bsz = Some (drop off (dm_buffer m))"
      using m off by (simp add: db_copy_def)
    ultimately obtain db' mp' where IH: "db_read_loop ?db ?mp (sz - ?bsz)
        = Some (take (nat (sz - ?bsz)) (db_stream ?db), db', mp')"
      "db_shape db'" "db_stream db' = drop (nat (sz - ?bsz)) (db_stream ?db)" "db_size db' = db_size ?db"
      "db_header db' = db_header ?db" "mp_pool mp' = mp_pool ?mp"
      "mp_freelist mp' + length (db_msgs db') = mp_freelist ?mp + length (db_msgs ?db)"
      using "1.IH" [OF ms refl] by blast
    have "db_read_loop db mp sz = Some (drop off (dm_buffer m) @ take (nat (sz - ?bsz)) (db_stream ?db), db', mp')"
      using copy IH(1) \<open>\<not> sz < ?bsz\<close> \<open>?bsz \<noteq> sz\<close> by (simp add: db_read_loop.simps [of db mp sz] ms)
    moreover have "nat (sz - ?bsz) = n - length (drop off (dm_buffer m))" "nat sz = n"
      using more n(1) unfolding bsz by simp_all
    ultimately show ?thesis
      using more IH(2-) unfolding st rest by (simp add: ms)
  qed
qed

lemma databuffer_read_spec:
  assumes "db_inv db" and "0 < sz" and "sz \<le> int (length (db_stream db))"
  shows "\<exists>db' mp'. databuffer_read db mp sz = Some (take (nat sz) (db_stream db), db', mp')
    \<and> db_inv db' \<and> db_stream db' = drop (nat sz) (db_stream db) \<and> db_header db' = db_header db
    \<and> mp_pool mp' = mp_pool mp \<and> mp_freelist mp' + length (db_msgs db') = mp_freelist mp + length (db_msgs db)"
proof -
  let ?db = "db\<lparr>db_size := db_size db - sz\<rparr>"
  have same: "db_stream ?db = db_stream db" "db_shape ?db" "db_size db = int (length (db_stream db))"
    using assms(1) by (auto simp: db_stream_def db_inv_iff db_shape_def split: list.splits)
  obtain db' mp' where "db_read_loop ?db mp sz = Some (take (nat sz) (db_stream db), db', mp')"
    "db_shape db'" "db_stream db' = drop (nat sz) (db_stream db)" "db_size db' = db_size db - sz"
    "db_header db' = db_header db" "mp_pool mp' = mp_pool mp"
    "mp_freelist mp' + length (db_msgs db') = mp_freelist mp + length (db_msgs db)"
    using db_read_loop_spec [of ?db sz mp] same assms(2,3) by auto
  with same assms(2,3) show ?thesis by (auto simp: databuffer_read_def db_inv_iff)
qed

lemma databuffer_push_spec:
  assumes "db_inv db" and "sz = int (length bs)"
  shows "\<exists>db' mp'. databuffer_push db mp bs sz = (db', mp') \<and> db_inv db' \<and> db_stream db' = db_stream db @ bs
    \<and> db_header db' = db_header db
    \<and> (\<forall>used. pool_nodes mp (used + length (db_msgs db)) \<longrightarrow> pool_nodes mp' (used + length (db_msgs db')))"
proof -
  have "nat (db_offset db) \<le> length (concat (map dm_buffer (db_msgs db)))"
    using assms(1) by (auto simp: db_inv_def split: list.splits)
  then have "db_stream (fst (databuffer_push db mp bs sz)) = db_stream db @ bs"
    by (simp add: databuffer_push_def Let_def db_stream_def)
  moreover have "db_inv (fst (databuffer_push db mp bs sz))"
    using assms calculation by (auto simp: db_inv_def databuffer_push_def Let_def split: list.splits)
  moreover have "pool_nodes (snd (databuffer_push db mp bs sz)) (used + Suc (length (db_msgs db)))"
    if "pool_nodes mp (used + length (db_msgs db))" for used
    using that by (auto simp: pool_nodes_def databuffer_push_def Let_def MESSAGEPOOL_def)
  ultimately show ?thesis by (auto simp: databuffer_push_def Let_def)
qed

lemma db_empty_inv [simp]: "db_inv db_empty" "db_stream db_empty = []" "db_header db_empty = 0" "db_msgs db_empty = []"
  by (simp_all add: db_empty_def db_inv_def db_stream_def)

lemma return_all_eq: "return_all ms mp = mp\<lparr>mp_freelist := mp_freelist mp + length ms\<rparr>"
  by (induction ms arbitrary: mp) simp_all

lemma clear_nodes:
  "pool_nodes mp (used + length (db_msgs db)) \<Longrightarrow> pool_nodes (snd (databuffer_clear db mp)) used"
  by (simp add: pool_nodes_def databuffer_clear_def return_all_eq)

lemma reset_inv [simp]:
  "db_inv (databuffer_reset db) = db_inv db" "db_stream (databuffer_reset db) = db_stream db"
  "db_header (databuffer_reset db) = 0" "db_msgs (databuffer_reset db) = db_msgs db"
  by (auto simp: databuffer_reset_def db_inv_def db_stream_def split: list.splits)

lemma header_inv [simp]:
  "db_inv (db\<lparr>db_header := k\<rparr>) = db_inv db" "db_stream (db\<lparr>db_header := k\<rparr>) = db_stream db"
  by (auto simp: db_inv_def db_stream_def split: list.splits)

lemma db_inv_size: "db_inv db \<Longrightarrow> db_size db = int (length (db_stream db))"
  by (simp add: db_inv_def)

text \<open>\<open>databuffer_readheader\<close> on the stream: with no header pending and too few bytes it answers
  -1 and changes nothing; otherwise the header is the pending one or the next bytes of the
  stream, it becomes pending, and the answer is the header when the stream has that many
  more bytes.\<close>

lemma readheader_short:
  "db_inv db \<Longrightarrow> db_header db = 0 \<Longrightarrow> int (length (db_stream db)) < hs \<Longrightarrow>
   databuffer_readheader db mp hs = Some (- 1, db, mp)"
  by (simp add: databuffer_readheader_def Let_def db_inv_size)

lemma readheader_pending:
  "db_inv db \<Longrightarrow> db_header db \<noteq> 0 \<Longrightarrow>
   databuffer_readheader db mp hs =
     Some (if int (length (db_stream db)) < db_header db then - 1 else db_header db, db, mp)"
  by (simp add: databuffer_readheader_def Let_def db_inv_size)

lemma readheader_next:
  assumes "db_inv db" and "db_header db = 0" and "0 < hs" and "hs \<le> int (length (db_stream db))"
    and "k = header_value hs (take (nat hs) (db_stream db))"
  shows "\<exists>db' mp'. databuffer_readheader db mp hs =
      Some (if int (length (db_stream db)) - hs < k then - 1 else k, db', mp')
    \<and> db_inv db' \<and> db_header db' = k \<and> db_stream db' = drop (nat hs) (db_stream db)
    \<and> mp_pool mp' = mp_pool mp \<and> mp_freelist mp' + length (db_msgs db') = mp_freelist mp + length (db_msgs db)"
proof -
  obtain db' mp' where r: "databuffer_read db mp hs = Some (take (nat hs) (db_stream db), db', mp')"
    "db_inv db'" "db_stream db' = drop (nat hs) (db_stream db)" "mp_pool mp' = mp_pool mp"
    "mp_freelist mp' + length (db_msgs db') = mp_freelist mp + length (db_msgs db)"
    using databuffer_read_spec [OF assms(1,3,4)] by blast
  have "db_size db' = int (length (db_stream db)) - hs"
    using r(2,3) assms(3,4) by (simp add: db_inv_size)
  with r assms show ?thesis
    by (intro exI [of _ "db'\<lparr>db_header := k\<rparr>"] exI [of _ mp'])
      (simp add: databuffer_readheader_def Let_def db_inv_size)
qed

end
