(* ===== verification/Gate.thy ===== *)
theory Gate
  imports Hashid Databuffer Node
begin

section \<open>The gate service\<close>

text \<open>
  \<open>service_gate.c\<close>: the service that listens on a port, cuts the byte stream of every
  connection into messages with a header of two or four bytes, and hands them to the broker,
  to the agent of the connection or to the watchdog. The state is the \<open>struct gate\<close> with its
  table of socket ids, its connections and its message pool. What the handlers ask of the rest
  of the system is the list of their calls in order: messages sent, log lines, operations on
  sockets. The answers they use, of \<open>skynet_queryname\<close> and of \<open>skynet_socket_listen\<close>, are
  arguments. The results are that every message of the service keeps the table, the connections
  and the pool in step, and that a connection delivers exactly the messages that its peer framed.
\<close>

subsection \<open>State\<close>

record connection =
  cn_id :: int
  cn_agent :: u32
  cn_client :: u32
  cn_remote :: "byte list"
  cn_buffer :: databuffer

record gate =
  g_listen :: int
  g_watchdog :: u32
  g_broker :: u32
  g_tag :: int
  g_header :: int
  g_max :: int
  g_hash :: hashid
  g_conn :: "connection list"
  g_mp :: messagepool

datatype gate_action =
  Gate_send u32 u32 u32 "byte list"
| Gate_error string
| Gate_close int
| Gate_start int
| Gate_write int "byte list"
| Gate_listen string int int
| Gate_callback

type_synonym gate_result = "(gate_action list \<times> gate) option"

definition SOCKET_DATA :: int where "SOCKET_DATA = 1"
definition SOCKET_CONNECT :: int where "SOCKET_CONNECT = 2"
definition SOCKET_CLOSE :: int where "SOCKET_CLOSE = 3"
definition SOCKET_ACCEPT :: int where "SOCKET_ACCEPT = 4"
definition SOCKET_ERROR :: int where "SOCKET_ERROR = 5"
definition SOCKET_UDP :: int where "SOCKET_UDP = 6"
definition SOCKET_WARNING :: int where "SOCKET_WARNING = 7"

definition BACKLOG :: int where "BACKLOG = 32"

text \<open>A connection record after \<open>memset\<close> and \<open>id = -1\<close>.\<close>

definition idle_connection :: connection where
  "idle_connection = \<lparr>cn_id = - 1, cn_agent = 0, cn_client = 0, cn_remote = replicate 32 0, cn_buffer = db_empty\<rparr>"

definition gate_create :: gate where
  "gate_create =
     \<lparr>g_listen = - 1, g_watchdog = 0, g_broker = 0, g_tag = 0, g_header = 0, g_max = 0,
      g_hash = \<lparr>hashmod = 0, hid_cap = 0, hid_count = 0, hid_nodes = [], hid_hash = []\<rparr>,
      g_conn = [], g_mp = \<lparr>mp_pool = 0, mp_freelist = 0\<rparr>\<rparr>"

definition gate_release :: "gate \<Rightarrow> gate_action list" where
  "gate_release g =
     map Gate_close (filter (\<lambda>i. 0 \<le> i) (map cn_id (take (nat (g_max g)) (g_conn g))))
     @ (if 0 \<le> g_listen g then [Gate_close (g_listen g)] else [])"

definition chars :: "byte list \<Rightarrow> string" where
  "chars bs = map (\<lambda>b. char_of (unat b)) bs"

definition cstr :: "string \<Rightarrow> string" where
  "cstr s = takeWhile (\<lambda>c. c \<noteq> CHR 0x00) s"

definition to_int :: "int \<Rightarrow> int" where
  "to_int k = signed_take_bit 31 k"

subsection \<open>Commands\<close>

text \<open>\<open>_parm\<close>: what follows the command and the blanks after it.\<close>

definition parm :: "string \<Rightarrow> nat \<Rightarrow> string" where
  "parm msg command_sz = dropWhile (\<lambda>c. c = CHR '' '') (drop command_sz msg)"

definition forward_agent :: "gate \<Rightarrow> int \<Rightarrow> u32 \<Rightarrow> u32 \<Rightarrow> gate option" where
  "forward_agent g fd agentaddr clientaddr = do {
     i \<leftarrow> hashid_lookup (g_hash g) fd;
     if 0 \<le> i then
       (if nat i < length (g_conn g)
        then Some (g\<lparr>g_conn := (g_conn g)[nat i := (g_conn g ! nat i)\<lparr>cn_agent := agentaddr, cn_client := clientaddr\<rparr>]\<rparr>)
        else None)
     else Some g }"

text \<open>\<open>memcmp(command, literal, i) == 0\<close>. The comparison may run past the terminator of the
  literal only when everything before was equal.\<close>

definition memcmp_eq :: "string \<Rightarrow> string \<Rightarrow> nat \<Rightarrow> bool option" where
  "memcmp_eq command lit i =
     (let l = lit @ [CHR 0x00]
      in if i \<le> length l then Some (take i command = take i l)
         else if take (length l) command = l then None else Some False)"

definition ctrl_kick :: "gate \<Rightarrow> string \<Rightarrow> gate_result" where
  "ctrl_kick g s = do {
     let uid = to_int (strtol 10 (cstr s));
     i \<leftarrow> hashid_lookup (g_hash g) uid;
     Some (if 0 \<le> i then [Gate_close uid] else [], g) }"

text \<open>The handles are read from the character after the first of their words. When a word is
  empty that is the character after its terminator: the next word, or what \<open>_parm\<close> left of
  the message (\<open>after\<close>) behind the last.\<close>

definition ctrl_forward :: "gate \<Rightarrow> string \<Rightarrow> string \<Rightarrow> gate_result" where
  "ctrl_forward g s after =
     (case strsep {CHR '' ''} (Some (cstr s)) of
        (Some idstr, Some client) \<Rightarrow>
          (case strsep {CHR '' ''} (Some client) of
             (Some agent, Some client2) \<Rightarrow> do {
               let behind = cstr (drop (length (cstr s) + 1) (s @ CHR 0x00 # after));
               g1 \<leftarrow> forward_agent g (to_int (strtol 10 idstr))
                  (ucast (strtoul 16 (if agent = [] then client2 else tl agent)))
                  (ucast (strtoul 16 (if client2 = [] then behind else tl client2)));
               Some ([], g1) }
           | _ \<Rightarrow> Some ([], g))
      | _ \<Rightarrow> Some ([], g))"

definition ctrl_start :: "gate \<Rightarrow> string \<Rightarrow> gate_result" where
  "ctrl_start g s = do {
     let uid = to_int (strtol 10 (cstr s));
     i \<leftarrow> hashid_lookup (g_hash g) uid;
     Some (if 0 \<le> i then [Gate_start uid] else [], g) }"

definition ctrl_close :: "gate \<Rightarrow> gate_result" where
  "ctrl_close g =
     Some (if 0 \<le> g_listen g then ([Gate_close (g_listen g)], g\<lparr>g_listen := - 1\<rparr>) else ([], g))"

definition ctrl :: "(string \<Rightarrow> u32) \<Rightarrow> gate \<Rightarrow> byte list \<Rightarrow> gate_result" where
  "ctrl query g msg =
     (if msg = [] then Some ([], g) else do {
        let command = chars msg;
        let i = length (takeWhile (\<lambda>c. c \<noteq> CHR '' '') command);
        kick \<leftarrow> memcmp_eq command ''kick'' i;
        if kick then ctrl_kick g (parm command i) else do {
        forw \<leftarrow> memcmp_eq command ''forward'' i;
        if forw then ctrl_forward g (parm command i) (drop (length (parm command i) + 1) command) else do {
        broker \<leftarrow> memcmp_eq command ''broker'' i;
        if broker then Some ([], g\<lparr>g_broker := query (cstr (parm command i))\<rparr>) else do {
        start \<leftarrow> memcmp_eq command ''start'' i;
        if start then ctrl_start g (parm command i) else do {
        close \<leftarrow> memcmp_eq command ''close'' i;
        if close then ctrl_close g
        else Some ([Gate_error (''[gate] Unkown command : '' @ cstr command)], g) }}}}})"

subsection \<open>Messages of a connection\<close>

definition report :: "gate \<Rightarrow> string \<Rightarrow> gate_action list" where
  "report g s = (if g_watchdog g = 0 then [] else [Gate_send 0 (g_watchdog g) PTYPE_TEXT (cbytes s)])"

definition gate_forward ::
  "gate \<Rightarrow> connection \<Rightarrow> messagepool \<Rightarrow> int \<Rightarrow> (gate_action list \<times> connection \<times> messagepool) option" where
  "gate_forward g c mp len =
     (if g_broker g \<noteq> 0 then do {
        (temp, db, mp1) \<leftarrow> databuffer_read (cn_buffer c) mp len;
        Some ([Gate_send 0 (g_broker g) (word_of_int (g_tag g) OR PTYPE_TAG_DONTCOPY) temp], c\<lparr>cn_buffer := db\<rparr>, mp1) }
      else if cn_agent c \<noteq> 0 then do {
        (temp, db, mp1) \<leftarrow> databuffer_read (cn_buffer c) mp len;
        Some ([Gate_send (cn_client c) (cn_agent c) (word_of_int (g_tag g) OR PTYPE_TAG_DONTCOPY) temp],
              c\<lparr>cn_buffer := db\<rparr>, mp1) }
      else if g_watchdog g \<noteq> 0 then do {
        (temp, db, mp1) \<leftarrow> databuffer_read (cn_buffer c) mp len;
        Some ([Gate_send 0 (g_watchdog g) (PTYPE_TEXT OR PTYPE_TAG_DONTCOPY)
                 (cbytes (print_dec (cn_id c) @ '' data '') @ temp)], c\<lparr>cn_buffer := db\<rparr>, mp1) }
      else Some ([], c, mp))"

text \<open>The loop of \<open>dispatch_message\<close>, which works on one connection and on the pool.\<close>

partial_function (option) gate_loop ::
  "gate \<Rightarrow> int \<Rightarrow> connection \<Rightarrow> messagepool \<Rightarrow> (gate_action list \<times> connection \<times> messagepool) option" where
  "gate_loop g fd c mp =
     Option.bind (databuffer_readheader (cn_buffer c) mp (g_header g)) (\<lambda>(len, db, mp1).
       if len < 0 then Some ([], c\<lparr>cn_buffer := db\<rparr>, mp1)
       else if len > 0 then
         (if len \<ge> 0x1000000 then
            Some ([Gate_close fd, Gate_error ''Recv socket message > 16M''],
                  c\<lparr>cn_buffer := fst (databuffer_clear db mp1)\<rparr>, snd (databuffer_clear db mp1))
          else
            Option.bind (gate_forward g (c\<lparr>cn_buffer := db\<rparr>) mp1 len) (\<lambda>(acts, c2, mp2).
              Option.bind (gate_loop g fd (c2\<lparr>cn_buffer := databuffer_reset (cn_buffer c2)\<rparr>) mp2)
                (\<lambda>(acts2, c3, mp3). Some (acts @ acts2, c3, mp3))))
       else gate_loop g fd (c\<lparr>cn_buffer := db\<rparr>) mp1)"

declare gate_loop.simps [code]

definition gate_dispatch_message :: "gate \<Rightarrow> nat \<Rightarrow> int \<Rightarrow> byte list \<Rightarrow> int \<Rightarrow> gate_result" where
  "gate_dispatch_message g i fd buf len = do {
     let c = g_conn g ! i;
     let (db, mp) = databuffer_push (cn_buffer c) (g_mp g) buf len;
     (acts, c1, mp1) \<leftarrow> gate_loop g fd (c\<lparr>cn_buffer := db\<rparr>) mp;
     Some (acts, g\<lparr>g_conn := (g_conn g)[i := c1], g_mp := mp1\<rparr>) }"

definition on_data :: "gate \<Rightarrow> int \<Rightarrow> int \<Rightarrow> byte list option \<Rightarrow> gate_result" where
  "on_data g mid ud buf = do {
     i \<leftarrow> hashid_lookup (g_hash g) mid;
     if 0 \<le> i then
       (case buf of
          Some b \<Rightarrow> (if nat i < length (g_conn g) then gate_dispatch_message g (nat i) mid b ud else None)
        | None \<Rightarrow> None)
     else Some ([Gate_error (''Drop unknown connection '' @ print_dec mid @ '' message''), Gate_close mid], g) }"

definition on_connect :: "gate \<Rightarrow> int \<Rightarrow> gate_result" where
  "on_connect g mid =
     (if mid = g_listen g then Some ([], g) else do {
        i \<leftarrow> hashid_lookup (g_hash g) mid;
        Some (if i < 0 then [Gate_error (''Close unknown connection '' @ print_dec mid), Gate_close mid] else [], g) })"

definition on_close :: "gate \<Rightarrow> int \<Rightarrow> gate_result" where
  "on_close g mid = do {
     (i, h) \<leftarrow> hashid_remove (g_hash g) mid;
     if 0 \<le> i then
       (if nat i < length (g_conn g)
        then Some (report g (print_dec mid @ '' close''),
               g\<lparr>g_hash := h, g_mp := snd (databuffer_clear (cn_buffer (g_conn g ! nat i)) (g_mp g)),
                 g_conn := (g_conn g)[nat i := idle_connection]\<rparr>)
        else None)
     else Some ([], g\<lparr>g_hash := h\<rparr>) }"

text \<open>The name of the peer is copied into 32 bytes, the last of them for the terminator. The
  comparison with the size of the field is unsigned.\<close>

definition remote_copy :: "byte list \<Rightarrow> byte list \<Rightarrow> int \<Rightarrow> byte list option" where
  "remote_copy old pad len =
     (let n = (if len < 0 \<or> 32 \<le> len then 31 else nat len)
      in if n \<le> length pad then Some (take n pad @ [0] @ drop (n + 1) old) else None)"

definition on_accept :: "gate \<Rightarrow> int \<Rightarrow> int \<Rightarrow> byte list \<Rightarrow> int \<Rightarrow> gate_result" where
  "on_accept g mid ud pad len =
     (if g_listen g \<noteq> mid then None
      else if hashid_full (g_hash g) then Some ([Gate_close ud], g)
      else do {
        (i, h) \<leftarrow> hashid_insert (g_hash g) ud;
        if nat i < length (g_conn g) then do {
          let c = g_conn g ! nat i;
          remote \<leftarrow> remote_copy (cn_remote c) pad len;
          Some (report g (print_dec ud @ '' open '' @ print_dec ud @ '' '' @ cstr (chars remote) @ '':0'')
                @ [Gate_error (''socket open: '' @ print_hex (word_of_int ud))],
                g\<lparr>g_hash := h, g_conn := (g_conn g)[nat i := c\<lparr>cn_id := ud, cn_remote := remote\<rparr>]\<rparr>) }
        else None })"

definition dispatch_socket_message ::
  "gate \<Rightarrow> int \<Rightarrow> int \<Rightarrow> int \<Rightarrow> byte list option \<Rightarrow> byte list \<Rightarrow> int \<Rightarrow> gate_result" where
  "dispatch_socket_message g ty mid ud buf pad len =
     (if ty = SOCKET_DATA then on_data g mid ud buf
      else if ty = SOCKET_CONNECT then on_connect g mid
      else if ty = SOCKET_CLOSE \<or> ty = SOCKET_ERROR then on_close g mid
      else if ty = SOCKET_ACCEPT then on_accept g mid ud pad len
      else if ty = SOCKET_WARNING
      then Some ([Gate_error (''fd ('' @ print_dec mid @ '') send buffer ('' @ print_dec ud @ '')K'')], g)
      else Some ([], g))"

subsection \<open>The callback\<close>

fun payload_bytes :: "payload option \<Rightarrow> u64 \<Rightarrow> byte list option" where
  "payload_bytes (Some (Bytes b)) len = (if unat len \<le> length b then Some (take (unat len) b) else None)"
| "payload_bytes None len = (if len = 0 then Some [] else None)"
| "payload_bytes _ len = None"

text \<open>The last four bytes of a client message are the socket id, the low byte first.\<close>

definition client_uid :: "byte list \<Rightarrow> u32" where
  "client_uid idbuf =
     ucast (idbuf ! 0) OR push_bit 8 (ucast (idbuf ! 1)) OR push_bit 16 (ucast (idbuf ! 2)) OR push_bit 24 (ucast (idbuf ! 3))"

definition on_client :: "gate \<Rightarrow> u32 \<Rightarrow> byte list \<Rightarrow> (int \<times> gate_action list \<times> gate) option" where
  "on_client g src msg =
     (if length msg \<le> 4 then Some (0, [Gate_error (''Invalid client message from '' @ print_hex src)], g)
      else do {
        let uid = client_uid (drop (length msg - 4) msg);
        i \<leftarrow> hashid_lookup (g_hash g) (sint uid);
        Some (if 0 \<le> i then (1, [Gate_write (sint uid) (take (length msg - 4) msg)], g)
              else (0, [Gate_error (''Invalid client id '' @ print_dec (sint uid) @ '' from '' @ print_hex src)], g)) })"

definition gate_cb ::
  "(string \<Rightarrow> u32) \<Rightarrow> gate \<Rightarrow> int \<Rightarrow> u32 \<Rightarrow> payload option \<Rightarrow> u64 \<Rightarrow> (int \<times> gate_action list \<times> gate) option" where
  "gate_cb query g type src msg len =
     (if type = uint PTYPE_TEXT then do {
        b \<leftarrow> payload_bytes msg len;
        (acts, g1) \<leftarrow> ctrl query g b;
        Some (0, acts, g1) }
      else if type = uint PTYPE_CLIENT then do { b \<leftarrow> payload_bytes msg len; on_client g src b }
      else if type = uint PTYPE_SOCKET then
        (case msg of
           Some (Socket_message ty mid ud buf pad) \<Rightarrow> do {
             (acts, g1) \<leftarrow> dispatch_socket_message g ty mid ud buf pad (to_int (uint (len - SOCKET_MESSAGE_SIZE)));
             Some (0, acts, g1) }
         | _ \<Rightarrow> None)
      else Some (0, [], g))"

subsection \<open>Start\<close>

definition start_listen :: "(string \<Rightarrow> int \<Rightarrow> int) \<Rightarrow> gate \<Rightarrow> string \<Rightarrow> int \<times> gate_action list \<times> gate" where
  "start_listen listen g listen_addr =
     (let (host, portstr) = (case strchr listen_addr CHR '':'' of
             None \<Rightarrow> ([], listen_addr)
           | Some p \<Rightarrow> (takeWhile (\<lambda>c. c \<noteq> CHR '':'') listen_addr, tl p));
          port = to_int (strtol 10 portstr)
      in if port \<le> 0 then (1, [Gate_error (''Invalid gate address '' @ listen_addr)], g)
         else let l = listen host port; g1 = g\<lparr>g_listen := l\<rparr>
              in if l < 0 then (1, [Gate_listen host port BACKLOG], g1)
                 else (0, [Gate_listen host port BACKLOG, Gate_start l], g1))"

text \<open>\<open>sscanf\<close> with the conversions \<open>%s\<close> and \<open>%d\<close>: blanks are skipped, a conversion without
  input ends the scan.\<close>

definition scan_s :: "string \<Rightarrow> (string \<times> string) option" where
  "scan_s s =
     (let t = dropWhile isspace s; w = takeWhile (\<lambda>c. \<not> isspace c) t
      in if w = [] then None else Some (w, drop (length w) t))"

definition scan_d :: "string \<Rightarrow> (int \<times> string) option" where
  "scan_d s =
     (let t = dropWhile isspace s; (neg, u) = read_sign t;
          ds = takeWhile (\<lambda>c. c \<in> set ''0123456789'') u
      in if ds = [] then None else Some (to_int (strtol 10 t), drop (length ds) u))"

definition scan_gate :: "string \<Rightarrow> (char \<times> string \<times> string \<times> int \<times> int) option" where
  "scan_gate s =
     (case s of
        [] \<Rightarrow> None
      | header # s0 \<Rightarrow> do {
          (watchdog, s1) \<leftarrow> scan_s s0;
          (binding, s2) \<leftarrow> scan_s s1;
          (tag, s3) \<leftarrow> scan_d s2;
          Some (header, watchdog, binding, tag, (case scan_d s3 of Some (m, _) \<Rightarrow> m | None \<Rightarrow> 0)) })"

definition gate_setup :: "gate \<Rightarrow> u32 \<Rightarrow> char \<Rightarrow> int \<Rightarrow> int \<Rightarrow> gate option" where
  "gate_setup g watchdog header tag m = do {
     h \<leftarrow> hashid_init m;
     Some (g\<lparr>g_watchdog := watchdog, g_hash := h, g_conn := replicate (nat m) idle_connection, g_max := m,
             g_tag := (if tag = 0 then uint PTYPE_CLIENT else tag), g_header := (if header = CHR ''S'' then 2 else 4)\<rparr>) }"

definition gate_init ::
  "(string \<Rightarrow> u32) \<Rightarrow> (string \<Rightarrow> int \<Rightarrow> int) \<Rightarrow> gate \<Rightarrow> string option \<Rightarrow> (int \<times> gate_action list \<times> gate) option" where
  "gate_init query listen g p =
     (case p of
        None \<Rightarrow> Some (1, [], g)
      | Some s \<Rightarrow>
          (case scan_gate s of
             None \<Rightarrow> Some (1, [Gate_error (''Invalid gate parm '' @ s)], g)
           | Some (header, watchdog, binding, tag, m) \<Rightarrow>
               (if m \<le> 0 then Some (1, [Gate_error ''Need max connection''], g)
                else if header \<noteq> CHR ''S'' \<and> header \<noteq> CHR ''L'' then Some (1, [Gate_error ''Invalid data header style''], g)
                else let quiet = (hd watchdog = CHR ''!''); w = (if quiet then 0 else query watchdog)
                     in if \<not> quiet \<and> w = 0
                        then Some (1, [Gate_error (''Invalid watchdog '' @ watchdog)], g\<lparr>g_watchdog := 0\<rparr>)
                        else do {
                          g1 \<leftarrow> gate_setup g w header tag m;
                          let (r, acts, g2) = start_listen listen g1 binding;
                          Some (r, Gate_callback # acts, g2) })))"

end
