(* ===== verification/Gate_Inv.thy ===== *)
theory Gate_Inv
  imports Gate
begin

section \<open>The gate keeps its connections in step\<close>

text \<open>
  The invariant of the gate service and the properties of its handlers: the table of socket
  ids, the connection records and the pool of buffer nodes agree, a record that is not in use
  is blank, and every handler returns and keeps it so.
\<close>

definition conn_ok :: "connection \<Rightarrow> bool" where
  "conn_ok c \<longleftrightarrow> db_inv (cn_buffer c) \<and> length (cn_remote c) = 32 \<and> (cn_id c < 0 \<longrightarrow> c = idle_connection)"

definition conn_nodes :: "connection list \<Rightarrow> nat" where
  "conn_nodes cs = sum_list (map (\<lambda>c. length (db_msgs (cn_buffer c))) cs)"

definition gate_inv :: "gate \<Rightarrow> bool" where
  "gate_inv g \<longleftrightarrow>
     hid_inv (g_hash g) \<and> hid_cap (g_hash g) = int (length (g_conn g)) \<and> g_max g = int (length (g_conn g))
   \<and> ids_match (hid_map (g_hash g)) (map cn_id (g_conn g))
   \<and> (\<forall>x. hid_map (g_hash g) x \<noteq> None \<longrightarrow> 0 \<le> x)
   \<and> (\<forall>c \<in> set (g_conn g). conn_ok c)
   \<and> (g_header g = 2 \<or> g_header g = 4)
   \<and> pool_nodes (g_mp g) (conn_nodes (g_conn g))"

subsection \<open>The loop over the messages of a connection\<close>

text \<open>Nodes move between a buffer and the free list and are not lost.\<close>

definition pool_step :: "messagepool \<Rightarrow> databuffer \<Rightarrow> messagepool \<Rightarrow> databuffer \<Rightarrow> bool" where
  "pool_step mp db mp' db' \<longleftrightarrow>
     mp_pool mp' = mp_pool mp \<and> mp_freelist mp' + length (db_msgs db') = mp_freelist mp + length (db_msgs db)"

lemma pool_step_refl [simp]: "pool_step mp db mp db"
  by (simp add: pool_step_def)

lemma pool_step_trans: "pool_step mp db mp1 db1 \<Longrightarrow> pool_step mp1 db1 mp2 db2 \<Longrightarrow> pool_step mp db mp2 db2"
  by (simp add: pool_step_def)

lemma pool_step_reset [simp]: "pool_step mp db mp' (databuffer_reset db') = pool_step mp db mp' db'"
  by (simp add: pool_step_def)

lemma pool_step_clear: "pool_step mp db (snd (databuffer_clear db mp)) (fst (databuffer_clear db mp))"
  by (simp add: pool_step_def databuffer_clear_def return_all_eq)

lemma readheader_ok:
  assumes inv: "db_inv db" and two: "hsz = 2 \<or> hsz = 4"
  shows "\<exists>r db' mp'. databuffer_readheader db mp hsz = Some (r, db', mp') \<and> db_inv db' \<and> pool_step mp db mp' db'
    \<and> r \<le> int (length (db_stream db')) \<and> (0 \<le> r \<longrightarrow> db_header db' = r)
    \<and> (r < 0 \<or> db_header db \<noteq> 0 \<and> db_stream db' = db_stream db \<or> length (db_stream db') < length (db_stream db))"
proof -
  consider (pending) "db_header db \<noteq> 0" | (short) "db_header db = 0" "int (length (db_stream db)) < hsz"
    | (long) "db_header db = 0" "hsz \<le> int (length (db_stream db))" by linarith
  then show ?thesis
  proof cases
    case pending
    then show ?thesis using readheader_pending [OF inv] inv by auto
  next
    case short
    then show ?thesis using readheader_short [OF inv] inv by auto
  next
    case long
    then obtain db' mp' where r: "databuffer_readheader db mp hsz = Some (if int (length (db_stream db)) - hsz < db_header db' then - 1 else db_header db', db', mp')"
      "db_inv db'" "db_stream db' = drop (nat hsz) (db_stream db)" "pool_step mp db mp' db'"
      using readheader_next [OF inv long(1) _ long(2) refl, of mp] two unfolding pool_step_def by fastforce
    have "length (db_stream db') = length (db_stream db) - nat hsz" "length (db_stream db') < length (db_stream db)"
      using r(3) long two by auto
    with r long two show ?thesis by auto
  qed
qed

lemma gate_forward_ok:
  assumes inv: "db_inv (cn_buffer c)" and len: "0 < len" "len \<le> int (length (db_stream (cn_buffer c)))"
  shows "\<exists>acts db mp'. gate_forward g c mp len = Some (acts, c\<lparr>cn_buffer := db\<rparr>, mp')
    \<and> db_inv db \<and> length (db_stream db) \<le> length (db_stream (cn_buffer c)) \<and> pool_step mp (cn_buffer c) mp' db"
proof -
  obtain db mp' bs where rd: "databuffer_read (cn_buffer c) mp len = Some (bs, db, mp')" and db: "db_inv db"
    "length (db_stream db) \<le> length (db_stream (cn_buffer c))" "pool_step mp (cn_buffer c) mp' db"
    using databuffer_read_spec [OF inv len, of mp] by (auto simp: pool_step_def)
  show ?thesis
  proof (cases "g_broker g = 0 \<and> cn_agent c = 0 \<and> g_watchdog g = 0")
    case True
    then have "gate_forward g c mp len = Some ([], c\<lparr>cn_buffer := cn_buffer c\<rparr>, mp)" by (simp add: gate_forward_def)
    with inv show ?thesis by (metis order_refl pool_step_refl)
  next
    case False
    then have "\<exists>acts. gate_forward g c mp len = Some (acts, c\<lparr>cn_buffer := db\<rparr>, mp')"
      using rd by (auto simp: gate_forward_def)
    with db show ?thesis by blast
  qed
qed

lemma gate_loop_ok:
  assumes two: "g_header g = 2 \<or> g_header g = 4" and "db_inv (cn_buffer c)"
  shows "\<exists>acts db mp'. gate_loop g fd c mp = Some (acts, c\<lparr>cn_buffer := db\<rparr>, mp') \<and> db_inv db
    \<and> pool_step mp (cn_buffer c) mp' db"
  using assms(2)
proof (induction "2 * length (db_stream (cn_buffer c)) + (if db_header (cn_buffer c) \<noteq> 0 then 1 else 0)"
    arbitrary: c mp rule: less_induct)
  case less
  let ?db = "cn_buffer c"
  obtain r db1 mp1 where rd: "databuffer_readheader ?db mp (g_header g) = Some (r, db1, mp1)" "db_inv db1"
    "pool_step mp ?db mp1 db1" "r \<le> int (length (db_stream db1))" "0 \<le> r \<longrightarrow> db_header db1 = r"
    "r < 0 \<or> db_header ?db \<noteq> 0 \<and> db_stream db1 = db_stream ?db \<or> length (db_stream db1) < length (db_stream ?db)"
    using readheader_ok [OF less.prems two] by blast
  consider (stop) "r < 0" | (zero) "r = 0" | (big) "0x1000000 \<le> r" | (message) "0 < r" "r < 0x1000000" by linarith
  then show ?case
  proof cases
    case stop
    then show ?thesis using rd by (auto simp: gate_loop.simps [of g fd c mp])
  next
    case zero
    let ?c = "c\<lparr>cn_buffer := db1\<rparr>"
    have "length (db_stream db1) < length (db_stream ?db) \<or> db_header ?db \<noteq> 0 \<and> db_stream db1 = db_stream ?db"
      using rd(6) zero by auto
    then obtain acts db mp' where "gate_loop g fd ?c mp1 = Some (acts, ?c\<lparr>cn_buffer := db\<rparr>, mp')" "db_inv db"
      "pool_step mp1 db1 mp' db"
      using less.hyps [of ?c mp1] rd(2,5) zero by auto
    then show ?thesis using rd(1,3) zero pool_step_trans by (auto simp: gate_loop.simps [of g fd c mp])
  next
    case big
    then show ?thesis using rd(1-3) pool_step_trans [OF _ pool_step_clear]
      by (auto simp: gate_loop.simps [of g fd c mp] databuffer_clear_def)
  next
    case message
    let ?c = "c\<lparr>cn_buffer := db1\<rparr>"
    obtain acts2 db2 mp2 where f: "gate_forward g ?c mp1 r = Some (acts2, ?c\<lparr>cn_buffer := db2\<rparr>, mp2)" "db_inv db2"
      "length (db_stream db2) \<le> length (db_stream db1)" "pool_step mp1 db1 mp2 db2"
      using gate_forward_ok [of ?c r g mp1] rd(2,4) message(1) by auto
    let ?c2 = "c\<lparr>cn_buffer := databuffer_reset db2\<rparr>"
    have less2: "2 * length (db_stream db2) < 2 * length (db_stream ?db) + (if db_header ?db \<noteq> 0 then 1 else 0)"
      using f(3) rd(6) message(1) by auto
    have "db_inv (databuffer_reset db2)" using f(2) by simp
    then have "\<exists>acts db mp'. gate_loop g fd ?c2 mp2 = Some (acts, ?c2\<lparr>cn_buffer := db\<rparr>, mp') \<and> db_inv db
        \<and> pool_step mp2 (databuffer_reset db2) mp' db"
      using less.hyps [of ?c2 mp2] less2 by simp
    then obtain acts db mp' where g: "gate_loop g fd ?c2 mp2 = Some (acts, c\<lparr>cn_buffer := db\<rparr>, mp')" "db_inv db"
      "pool_step mp2 db2 mp' db" by (auto simp: pool_step_def)
    have "gate_loop g fd c mp = Some (acts2 @ acts, c\<lparr>cn_buffer := db\<rparr>, mp')"
      using rd(1) f(1) g(1) message by (simp add: gate_loop.simps [of g fd c mp])
    moreover have "pool_step mp ?db mp' db"
      by (rule pool_step_trans [OF rd(3) pool_step_trans [OF f(4) g(3)]])
    ultimately show ?thesis using g(2) by blast
  qed
qed

subsection \<open>Single connections\<close>

lemma gate_invD:
  assumes "gate_inv g"
  shows "hid_inv (g_hash g)" and "hid_cap (g_hash g) = int (length (g_conn g))"
    and "ids_match (hid_map (g_hash g)) (map cn_id (g_conn g))"
    and "hid_map (g_hash g) x \<noteq> None \<Longrightarrow> 0 \<le> x"
    and "i < length (g_conn g) \<Longrightarrow> conn_ok (g_conn g ! i)"
    and "g_header g = 2 \<or> g_header g = 4" and "pool_nodes (g_mp g) (conn_nodes (g_conn g))"
  using assms by (auto simp: gate_inv_def)

lemma conn_nodes_update:
  "i < length cs \<Longrightarrow>
   conn_nodes (cs[i := c]) + length (db_msgs (cn_buffer (cs ! i))) = conn_nodes cs + length (db_msgs (cn_buffer c))"
  by (induction cs arbitrary: i) (auto simp: conn_nodes_def nth_Cons split: nat.splits)

lemma conn_update_ok:
  assumes inv: "gate_inv g" and i: "i < length (g_conn g)" and c: "conn_ok c" "cn_id c = cn_id (g_conn g ! i)"
    and pool: "pool_nodes mp (conn_nodes ((g_conn g)[i := c]))"
  shows "gate_inv (g\<lparr>g_conn := (g_conn g)[i := c], g_mp := mp\<rparr>)"
proof -
  have "map cn_id ((g_conn g)[i := c]) = map cn_id (g_conn g)"
    using i c(2) by (simp add: map_update list_update_same_conv)
  moreover have "\<forall>d \<in> set ((g_conn g)[i := c]). conn_ok d"
    using inv c(1) by (auto simp: gate_inv_def dest!: set_update_subset_insert [THEN subsetD])
  ultimately show ?thesis using inv pool by (simp add: gate_inv_def)
qed

lemma lookup_ok:
  assumes inv: "gate_inv g"
  shows "\<exists>r. hashid_lookup (g_hash g) x = Some r
    \<and> (0 \<le> r \<longrightarrow> nat r < length (g_conn g) \<and> cn_id (g_conn g ! nat r) = x \<and> 0 \<le> x)"
proof -
  obtain r where "hashid_lookup (g_hash g) x = Some r"
    "0 \<le> r \<longrightarrow> hid_map (g_hash g) x = Some (nat r) \<and> nat r < length (g_conn g) \<and> map cn_id (g_conn g) ! nat r = x"
    using ids.found [OF gate_invD(1,3) [OF inv], of x] by auto
  with gate_invD(4) [OF inv, of x] show ?thesis by auto
qed

lemma gate_dispatch_ok:
  assumes inv: "gate_inv g" and i: "i < length (g_conn g)" "0 \<le> cn_id (g_conn g ! i)" and len: "len = int (length b)"
  shows "\<exists>acts g'. gate_dispatch_message g i fd b len = Some (acts, g') \<and> gate_inv g'"
proof -
  let ?c = "g_conn g ! i"
  have c: "conn_ok ?c" by (rule gate_invD(5) [OF inv i(1)])
  then have "db_inv (cn_buffer ?c)" by (simp add: conn_ok_def)
  then obtain db mp where p: "databuffer_push (cn_buffer ?c) (g_mp g) b len = (db, mp)" "db_inv db"
    "\<And>used. pool_nodes (g_mp g) (used + length (db_msgs (cn_buffer ?c))) \<Longrightarrow> pool_nodes mp (used + length (db_msgs db))"
    using databuffer_push_spec [OF _ len, of "cn_buffer ?c" "g_mp g"] by auto
  obtain acts db' mp' where l: "gate_loop g fd (?c\<lparr>cn_buffer := db\<rparr>) mp = Some (acts, ?c\<lparr>cn_buffer := db'\<rparr>, mp')"
    "db_inv db'" "pool_step mp db mp' db'"
    using gate_loop_ok [OF gate_invD(6) [OF inv], of "?c\<lparr>cn_buffer := db\<rparr>" fd mp] p(2) by auto
  let ?c' = "?c\<lparr>cn_buffer := db'\<rparr>"
  define used where "used = conn_nodes (g_conn g) - length (db_msgs (cn_buffer ?c))"
  have nodes: "conn_nodes ((g_conn g)[i := ?c']) = used + length (db_msgs db')"
    "conn_nodes (g_conn g) = used + length (db_msgs (cn_buffer ?c))"
    using conn_nodes_update [OF i(1), of ?c'] conn_nodes_update [OF i(1), of idle_connection]
    by (auto simp: used_def idle_connection_def)
  have "pool_nodes mp' (conn_nodes ((g_conn g)[i := ?c']))"
    using p(3) [of used] gate_invD(7) [OF inv] l(3) by (simp add: nodes pool_nodes_def pool_step_def)
  moreover have "conn_ok ?c'" using c l(2) i(2) by (simp add: conn_ok_def)
  ultimately show ?thesis
    using conn_update_ok [OF inv i(1), of ?c' mp'] p(1) l(1) by (simp add: gate_dispatch_message_def)
qed

lemma forward_agent_ok:
  assumes inv: "gate_inv g"
  shows "\<exists>g'. forward_agent g fd a k = Some g' \<and> gate_inv g'"
proof -
  obtain r where r: "hashid_lookup (g_hash g) fd = Some r"
    "0 \<le> r \<longrightarrow> nat r < length (g_conn g) \<and> cn_id (g_conn g ! nat r) = fd \<and> 0 \<le> fd"
    using lookup_ok [OF inv] by blast
  show ?thesis
  proof (cases "0 \<le> r")
    case True
    let ?c = "(g_conn g ! nat r)\<lparr>cn_agent := a, cn_client := k\<rparr>"
    have i: "nat r < length (g_conn g)" "0 \<le> cn_id (g_conn g ! nat r)" using r(2) True by auto
    have "conn_ok ?c" using gate_invD(5) [OF inv i(1)] i(2) by (simp add: conn_ok_def)
    moreover have "conn_nodes ((g_conn g)[nat r := ?c]) = conn_nodes (g_conn g)"
      using conn_nodes_update [OF i(1), of ?c] by simp
    ultimately have "gate_inv (g\<lparr>g_conn := (g_conn g)[nat r := ?c], g_mp := g_mp g\<rparr>)"
      using conn_update_ok [OF inv i(1), of ?c "g_mp g"] gate_invD(7) [OF inv] by simp
    with r(1) True i(1) show ?thesis by (simp add: forward_agent_def)
  next
    case False
    with r(1) inv show ?thesis by (simp add: forward_agent_def)
  qed
qed

subsection \<open>Handlers\<close>

lemma idle_ok [simp]: "conn_ok idle_connection" "cn_id idle_connection = - 1" "cn_buffer idle_connection = db_empty"
  by (simp_all add: conn_ok_def idle_connection_def)

lemma on_close_ok:
  assumes inv: "gate_inv g"
  shows "\<exists>acts g'. on_close g mid = Some (acts, g') \<and> gate_inv g'"
proof -
  obtain r h where r: "hashid_remove (g_hash g) mid = Some (r, h)" "hid_inv h" "hid_map h = (hid_map (g_hash g))(mid := None)"
    "hid_cap h = hid_cap (g_hash g)" "r < 0 \<longrightarrow> ids_match (hid_map h) (map cn_id (g_conn g))"
    "0 \<le> r \<longrightarrow> nat r < length (map cn_id (g_conn g)) \<and> ids_match (hid_map h) ((map cn_id (g_conn g))[nat r := - 1])"
    using ids.removed [OF gate_invD(1,3) [OF inv], of mid] by blast
  show ?thesis
  proof (cases "0 \<le> r")
    case True
    let ?i = "nat r" and ?mp = "snd (databuffer_clear (cn_buffer (g_conn g ! nat r)) (g_mp g))"
    have i: "?i < length (g_conn g)" using r(6) True by simp
    have "conn_nodes (g_conn g) = conn_nodes ((g_conn g)[?i := idle_connection]) + length (db_msgs (cn_buffer (g_conn g ! ?i)))"
      using conn_nodes_update [OF i, of idle_connection] by simp
    then have "pool_nodes ?mp (conn_nodes ((g_conn g)[?i := idle_connection]))"
      using gate_invD(7) [OF inv] by (auto intro: clear_nodes)
    then have "gate_inv (g\<lparr>g_hash := h, g_mp := ?mp, g_conn := (g_conn g)[?i := idle_connection]\<rparr>)"
      using inv r(2-4,6) True
      by (auto simp: gate_inv_def map_update dest!: set_update_subset_insert [THEN subsetD])
    with r(1) True i show ?thesis by (simp add: on_close_def)
  next
    case False
    with inv r have "gate_inv (g\<lparr>g_hash := h\<rparr>)" by (auto simp: gate_inv_def)
    with r(1) False show ?thesis by (simp add: on_close_def)
  qed
qed

lemma remote_copy_ok:
  "0 \<le> len \<Longrightarrow> len \<le> int (length pad) \<Longrightarrow> length old = 32 \<Longrightarrow>
   \<exists>remote. remote_copy old pad len = Some remote \<and> length remote = 32"
  by (auto simp: remote_copy_def Let_def)

lemma on_accept_ok:
  assumes inv: "gate_inv g" and l: "mid = g_listen g" and ud: "0 \<le> ud" "ud + hid_cap (g_hash g) \<le> 2 ^ 31"
    "hid_map (g_hash g) ud = None" and len: "0 \<le> len" "len \<le> int (length pad)"
  shows "\<exists>acts g'. on_accept g mid ud pad len = Some (acts, g') \<and> gate_inv g'"
proof (cases "hashid_full (g_hash g)")
  case True
  with inv l show ?thesis by (simp add: on_accept_def)
next
  case False
  have cap: "hid_cap (g_hash g) = int (length (map cn_id (g_conn g)))" using gate_invD(2) [OF inv] by simp
  obtain i h where r: "hashid_insert (g_hash g) ud = Some (int i, h)" "hid_inv h"
    "hid_map h = (hid_map (g_hash g))(ud \<mapsto> i)" "i < length (g_conn g)" "hid_cap h = hid_cap (g_hash g)"
    "i \<notin> ran (hid_map (g_hash g))" "ids_match (hid_map h) ((map cn_id (g_conn g))[i := ud])"
    using ids.inserted [OF gate_invD(1) [OF inv] False ud gate_invD(3) [OF inv] cap] by auto
  have "\<not> 0 \<le> cn_id (g_conn g ! i)"
    using gate_invD(3) [OF inv] r(4,6) by (auto simp: ids_match_def ran_def)
  then have idle: "g_conn g ! i = idle_connection" "length (cn_remote (g_conn g ! i)) = 32"
    using gate_invD(5) [OF inv r(4)] by (auto simp: conn_ok_def)
  then obtain remote where rem: "remote_copy (cn_remote (g_conn g ! i)) pad len = Some remote" "length remote = 32"
    using remote_copy_ok [OF len] by blast
  let ?c = "(g_conn g ! i)\<lparr>cn_id := ud, cn_remote := remote\<rparr>"
  have c: "conn_ok ?c" using idle rem(2) ud(1) by (simp add: conn_ok_def)
  have "conn_nodes ((g_conn g)[i := ?c]) = conn_nodes (g_conn g)"
    using conn_nodes_update [OF r(4), of ?c] by simp
  then have "gate_inv (g\<lparr>g_hash := h, g_conn := (g_conn g)[i := ?c]\<rparr>)"
    using inv r(2-5,7) c ud(1)
    by (auto simp: gate_inv_def map_update dest!: set_update_subset_insert [THEN subsetD])
  with r(1,4) rem(1) l False show ?thesis by (simp add: on_accept_def Let_def)
qed

lemma memcmp_eq_defined:
  assumes "CHR 0x00 \<notin> set command"
  shows "\<exists>b. memcmp_eq command lit i = Some b"
proof -
  have "take n command \<noteq> lit @ [CHR 0x00]" for n
    using assms set_take_subset [of n command] by (metis in_set_conv_decomp subsetD)
  then show ?thesis by (cases "i \<le> Suc (length lit)") (auto simp: memcmp_eq_def Let_def)
qed

lemma char_nonzero:
  assumes "b \<noteq> (0 :: byte)"
  shows "char_of (unat b) \<noteq> CHR 0x00"
proof
  assume "char_of (unat b) = CHR 0x00"
  then have "of_char (char_of (unat b) :: char) = (of_char (CHR 0x00) :: nat)" by (simp only:)
  then have "unat b mod 256 = 0" by (simp only: of_char_of) simp
  moreover have "unat b < 256" using unsigned_less [of b] by simp
  ultimately show False using assms by (simp add: unat_eq_0)
qed

lemma ctrl_forward_ok:
  assumes inv: "gate_inv g"
  shows "\<exists>acts g'. ctrl_forward g s after = Some (acts, g') \<and> gate_inv g'"
proof -
  have set: "\<exists>acts g'. Option.bind (forward_agent g fd a k) (\<lambda>g1. Some ([], g1)) = Some (acts, g') \<and> gate_inv g'" for fd a k
    using forward_agent_ok [OF inv, of fd a k] by auto
  obtain p q where s1: "strsep {CHR '' ''} (Some (cstr s)) = (p, q)" by fastforce
  obtain p2 q2 where s2: "strsep {CHR '' ''} q = (p2, q2)" by fastforce
  show ?thesis
    unfolding ctrl_forward_def s1 Let_def
    by (cases p; cases q; cases p2; cases q2) (use s2 in \<open>simp_all add: inv set\<close>)
qed

lemma ctrl_ok:
  assumes inv: "gate_inv g" and nul: "0 \<notin> set msg"
  shows "\<exists>acts g'. ctrl query g msg = Some (acts, g') \<and> gate_inv g'"
proof -
  have "char_of (unat b) \<noteq> CHR 0x00" if "b \<in> set msg" for b
    using that nul by (intro char_nonzero) auto
  then have "CHR 0x00 \<notin> set (chars msg)" unfolding chars_def by auto metis
  note def = memcmp_eq_defined [OF this]
  note simps = ctrl_def Let_def ctrl_kick_def ctrl_start_def ctrl_close_def
  have br: "gate_inv (g\<lparr>g_broker := x\<rparr>)" "gate_inv (g\<lparr>g_listen := y\<rparr>)" for x y
    using inv by (simp_all add: gate_inv_def)
  obtain b1 b2 b3 b4 b5 where "memcmp_eq (chars msg) ''kick'' (length (takeWhile (\<lambda>c. c \<noteq> CHR '' '') (chars msg))) = Some b1"
    "memcmp_eq (chars msg) ''forward'' (length (takeWhile (\<lambda>c. c \<noteq> CHR '' '') (chars msg))) = Some b2"
    "memcmp_eq (chars msg) ''broker'' (length (takeWhile (\<lambda>c. c \<noteq> CHR '' '') (chars msg))) = Some b3"
    "memcmp_eq (chars msg) ''start'' (length (takeWhile (\<lambda>c. c \<noteq> CHR '' '') (chars msg))) = Some b4"
    "memcmp_eq (chars msg) ''close'' (length (takeWhile (\<lambda>c. c \<noteq> CHR '' '') (chars msg))) = Some b5"
    using def by metis
  then show ?thesis
    using inv br ctrl_forward_ok [OF inv] hashid_lookup_spec [OF gate_invD(1) [OF inv]]
    by (auto simp: simps)
qed

subsection \<open>The callback and the start\<close>

text \<open>The messages that the socket layer and other services send to a gate: a text without zero
  bytes, a block of bytes for a client, data whose size is that of its buffer, and the report
  of a new connection, with an id that the gate does not have.\<close>

definition gate_msg :: "gate \<Rightarrow> int \<Rightarrow> payload option \<Rightarrow> u64 \<Rightarrow> bool" where
  "gate_msg g type msg len \<longleftrightarrow>
     (if type = uint PTYPE_TEXT then (case payload_bytes msg len of Some b \<Rightarrow> 0 \<notin> set b | None \<Rightarrow> False)
      else if type = uint PTYPE_CLIENT then payload_bytes msg len \<noteq> None
      else if type = uint PTYPE_SOCKET then
        (case msg of
           Some (Socket_message ty mid ud buf pad) \<Rightarrow>
             (if ty = SOCKET_DATA then (case buf of Some b \<Rightarrow> ud = int (length b) | None \<Rightarrow> False)
              else if ty = SOCKET_ACCEPT then
                mid = g_listen g \<and> 0 \<le> ud \<and> ud + hid_cap (g_hash g) \<le> 2 ^ 31 \<and> hid_map (g_hash g) ud = None
                \<and> len = SOCKET_MESSAGE_SIZE + word_of_int (int (length pad)) \<and> int (length pad) < 2 ^ 31
              else True)
         | _ \<Rightarrow> False)
      else True)"

lemma on_data_ok:
  assumes inv: "gate_inv g" and "ud = int (length b)"
  shows "\<exists>acts g'. on_data g mid ud (Some b) = Some (acts, g') \<and> gate_inv g'"
proof -
  obtain r where r: "hashid_lookup (g_hash g) mid = Some r"
    "0 \<le> r \<longrightarrow> nat r < length (g_conn g) \<and> cn_id (g_conn g ! nat r) = mid \<and> 0 \<le> mid"
    using lookup_ok [OF inv] by blast
  show ?thesis
  proof (cases "0 \<le> r")
    case True
    with r gate_dispatch_ok [OF inv _ _ assms(2), of "nat r" mid] show ?thesis by (simp add: on_data_def)
  next
    case False
    with r inv show ?thesis by (simp add: on_data_def)
  qed
qed

lemma on_connect_ok: "gate_inv g \<Longrightarrow> \<exists>acts g'. on_connect g mid = Some (acts, g') \<and> gate_inv g'"
  using hashid_lookup_spec [OF gate_invD(1), of g mid] by (auto simp: on_connect_def)

lemma to_int_small: "0 \<le> k \<Longrightarrow> k < 2 ^ 31 \<Longrightarrow> to_int k = k"
  by (simp add: to_int_def signed_take_bit_int_eq_self)

lemma on_socket_ok:
  assumes inv: "gate_inv g" and ok: "gate_msg g (uint PTYPE_SOCKET) (Some (Socket_message ty mid ud buf pad)) len"
  shows "\<exists>acts g'. dispatch_socket_message g ty mid ud buf pad (to_int (uint (len - SOCKET_MESSAGE_SIZE))) = Some (acts, g')
    \<and> gate_inv g'"
proof -
  have *: "(uint PTYPE_SOCKET = uint PTYPE_TEXT) = False" "(uint PTYPE_SOCKET = uint PTYPE_CLIENT) = False"
    by (simp_all add: PTYPE_SOCKET_def PTYPE_TEXT_def PTYPE_CLIENT_def)
  note ok = ok [unfolded gate_msg_def * if_False simp_thms if_True]
  consider (data) b where "ty = SOCKET_DATA" "buf = Some b" "ud = int (length b)"
    | (accept) "ty = SOCKET_ACCEPT" | (other) "ty \<noteq> SOCKET_DATA" "ty \<noteq> SOCKET_ACCEPT"
    using ok by (auto split: if_splits option.splits)
  then show ?thesis
  proof cases
    case data
    with on_data_ok [OF inv data(3)] show ?thesis by (simp add: dispatch_socket_message_def)
  next
    case accept
    then have a: "mid = g_listen g" "0 \<le> ud" "ud + hid_cap (g_hash g) \<le> 2 ^ 31" "hid_map (g_hash g) ud = None"
      "len - SOCKET_MESSAGE_SIZE = word_of_int (int (length pad))" "int (length pad) < 2 ^ 31"
      using ok by (simp_all add: SOCKET_ACCEPT_def SOCKET_DATA_def)
    have "to_int (uint (len - SOCKET_MESSAGE_SIZE)) = int (length pad)"
    proof -
      have "uint (word_of_int (int (length pad)) :: u64) = int (length pad)"
        unfolding uint_word_of_int using a(6) by simp
      then show ?thesis unfolding a(5) using a(6) by (simp only: to_int_small of_nat_0_le_iff)
    qed
    with on_accept_ok [OF inv a(1-4), of "int (length pad)" pad] accept show ?thesis
      by (simp add: dispatch_socket_message_def SOCKET_ACCEPT_def SOCKET_DATA_def SOCKET_CONNECT_def SOCKET_CLOSE_def SOCKET_ERROR_def)
  next
    case other
    with inv on_connect_ok [OF inv] on_close_ok [OF inv] show ?thesis by (auto simp: dispatch_socket_message_def)
  qed
qed

lemma gate_cb_ok:
  assumes inv: "gate_inv g" and ok: "gate_msg g type msg len"
  shows "\<exists>r acts g'. gate_cb query g type src msg len = Some (r, acts, g') \<and> gate_inv g'"
proof -
  consider (tx) "type = uint PTYPE_TEXT" | (client) "type \<noteq> uint PTYPE_TEXT" "type = uint PTYPE_CLIENT"
    | (socket) "type \<noteq> uint PTYPE_TEXT" "type \<noteq> uint PTYPE_CLIENT" "type = uint PTYPE_SOCKET"
    | (other) "type \<noteq> uint PTYPE_TEXT" "type \<noteq> uint PTYPE_CLIENT" "type \<noteq> uint PTYPE_SOCKET" by blast
  then show ?thesis
  proof cases
    case tx
    then obtain b where b: "payload_bytes msg len = Some b" "0 \<notin> set b"
      using ok by (auto simp: gate_msg_def split: option.splits)
    with tx ctrl_ok [OF inv b(2), of query] show ?thesis by (auto simp: gate_cb_def)
  next
    case client
    then obtain b where "payload_bytes msg len = Some b" using ok by (auto simp: gate_msg_def)
    with client inv hashid_lookup_spec [OF gate_invD(1) [OF inv]] show ?thesis
      by (auto simp: gate_cb_def on_client_def Let_def)
  next
    case socket
    then obtain ty mid ud buf pad where m: "msg = Some (Socket_message ty mid ud buf pad)"
      using ok by (auto simp: gate_msg_def split: option.splits payload.splits)
    with socket on_socket_ok [OF inv, of ty mid ud buf pad len] ok show ?thesis by (auto simp: gate_cb_def)
  next
    case other
    with inv show ?thesis by (simp add: gate_cb_def)
  qed
qed

lemma gate_setup_ok:
  assumes "0 < m" and "m \<le> 2 ^ 30"
  shows "\<exists>g. gate_setup gate_create w header tag m = Some g \<and> gate_inv g"
proof -
  obtain h where h: "hashid_init m = Some h" "hid_inv h" "hid_map h = Map.empty" "hid_cap h = m"
    using hashid_init_spec [OF assms] by blast
  have "conn_nodes (replicate n idle_connection) = 0" for n
    by (induction n) (simp_all add: conn_nodes_def)
  then show ?thesis
    using h assms by (auto simp: gate_setup_def gate_inv_def gate_create_def ids_match_def pool_nodes_def)
qed

end
