(* ===== verification/Gate_Stream.thy ===== *)
theory Gate_Stream
  imports Gate_Inv
begin

section \<open>The messages of a connection\<close>

text \<open>
  What a gate makes of the byte stream of a connection. A peer frames a message with its length
  in two or four bytes. Whatever pieces the stream arrives in, the gate hands on exactly the
  framed messages, in order, as soon as their bytes are there; empty messages are dropped. The
  properties of the gate service are collected at the end.
\<close>

definition be_header :: "int \<Rightarrow> nat \<Rightarrow> byte list" where
  "be_header hsz n =
     (if hsz = 2 then [of_nat (n div 256), of_nat n]
      else [of_nat (n div 2 ^ 24), of_nat (n div 2 ^ 16), of_nat (n div 2 ^ 8), of_nat n])"

definition frame :: "int \<Rightarrow> byte list \<Rightarrow> byte list" where
  "frame hsz m = be_header hsz (length m) @ m"

definition fits :: "int \<Rightarrow> byte list \<Rightarrow> bool" where
  "fits hsz m \<longleftrightarrow> length m < (if hsz = 2 then 2 ^ 16 else 2 ^ 24)"

text \<open>What the gate sends for a message of a connection.\<close>

definition handed :: "gate \<Rightarrow> connection \<Rightarrow> byte list \<Rightarrow> gate_action" where
  "handed g c m =
     (if g_broker g \<noteq> 0 then Gate_send 0 (g_broker g) (word_of_int (g_tag g) OR PTYPE_TAG_DONTCOPY) m
      else if cn_agent c \<noteq> 0
      then Gate_send (cn_client c) (cn_agent c) (word_of_int (g_tag g) OR PTYPE_TAG_DONTCOPY) m
      else Gate_send 0 (g_watchdog g) (PTYPE_TEXT OR PTYPE_TAG_DONTCOPY) (cbytes (print_dec (cn_id c) @ '' data '') @ m))"

definition has_receiver :: "gate \<Rightarrow> connection \<Rightarrow> bool" where
  "has_receiver g c \<longleftrightarrow> g_broker g \<noteq> 0 \<or> cn_agent c \<noteq> 0 \<or> g_watchdog g \<noteq> 0"



lemma be_header_length [simp]: "hsz = 2 \<or> hsz = 4 \<Longrightarrow> int (length (be_header hsz n)) = hsz"
  by (auto simp: be_header_def)

lemma uint_byte: "uint (of_nat n :: byte) = int (n mod 256)"
  by (simp add: unsigned_of_nat take_bit_eq_mod zmod_int)

lemma header_value_be:
  assumes "hsz = 2 \<or> hsz = 4" and "n < (if hsz = 2 then 2 ^ 16 else 2 ^ 24)"
  shows "header_value hsz (be_header hsz n) = int n"
proof (cases "hsz = 2")
  case True
  with assms(2) have "n div 256 mod 256 * 256 + n mod 256 = n" by simp
  then have "uint (of_nat (n div 256) :: byte) * 256 + uint (of_nat n :: byte) = int n"
    unfolding uint_byte by linarith
  with True show ?thesis by (simp add: header_value_def be_header_def)
next
  case False
  then have n: "n < 2 ^ 24" using assms(2) by simp
  have "n div 2 ^ 24 mod 256 * 2 ^ 24 + n div 2 ^ 16 mod 256 * 2 ^ 16 + n div 2 ^ 8 mod 256 * 2 ^ 8 + n mod 256 = n"
  proof -
    define a where "a = n div 256"
    have "n div 2 ^ 16 = a div 256" "n div 2 ^ 24 = 0" "n div 2 ^ 8 = a"
      using n by (simp_all add: a_def div_mult2_eq [symmetric])
    moreover have "a div 256 mod 256 = a div 256" using n by (simp add: a_def div_mult2_eq [symmetric])
    moreover have "256 * (256 * (a div 256) + a mod 256) + n mod 256 = n" unfolding mult_div_mod_eq a_def by simp
    moreover have "x * 2 ^ 16 + y * 2 ^ 8 + z = 256 * (256 * x + y) + z" for x y z :: nat by simp
    ultimately show ?thesis by (simp only: mult_0 mod_0 add_0)
  qed
  from arg_cong [OF this, of int] have "uint (of_nat (n div 2 ^ 24) :: byte) * 2 ^ 24 + uint (of_nat (n div 2 ^ 16) :: byte) * 2 ^ 16
      + uint (of_nat (n div 2 ^ 8) :: byte) * 2 ^ 8 + uint (of_nat n :: byte) = int n"
    unfolding uint_byte by (simp only: of_nat_add of_nat_mult of_nat_power of_nat_numeral)
  with False n show ?thesis
    by (simp add: header_value_def be_header_def signed_take_bit_int_eq_self)
qed

lemma gate_forward_receiver:
  assumes "has_receiver g c" and "db_inv (cn_buffer c)" and "0 < len" and "len \<le> int (length (db_stream (cn_buffer c)))"
  shows "\<exists>db mp'. gate_forward g c mp len = Some ([handed g c (take (nat len) (db_stream (cn_buffer c)))], c\<lparr>cn_buffer := db\<rparr>, mp')
    \<and> db_inv db \<and> db_stream db = drop (nat len) (db_stream (cn_buffer c))"
  using databuffer_read_spec [OF assms(2-4), of mp] assms(1)
  by (auto simp: gate_forward_def handed_def has_receiver_def)

lemma handed_buffer [simp]: "handed g (c\<lparr>cn_buffer := db\<rparr>) = handed g c" "has_receiver g (c\<lparr>cn_buffer := db\<rparr>) = has_receiver g c"
  by (auto simp: handed_def has_receiver_def)


text \<open>One turn of the loop when a message is complete, from the header on.\<close>

lemma loop_message:
  assumes rd: "databuffer_readheader (cn_buffer c) mp (g_header g) = Some (int (length m), db1, mp1)" "db_inv db1"
    and m: "m \<noteq> []" "length m < 2 ^ 24" "db_stream db1 = m @ rest"
    and rec: "has_receiver g c"
  shows "\<exists>db mp'. db_inv db \<and> db_header db = 0 \<and> db_stream db = rest
    \<and> gate_loop g fd c mp = Option.bind (gate_loop g fd (c\<lparr>cn_buffer := db\<rparr>) mp')
        (\<lambda>(acts, c3, mp3). Some (handed g c m # acts, c3, mp3))"
proof -
  obtain db2 mp2 where f: "gate_forward g (c\<lparr>cn_buffer := db1\<rparr>) mp1 (int (length m)) =
      Some ([handed g c m], c\<lparr>cn_buffer := db2\<rparr>, mp2)" "db_inv db2" "db_stream db2 = rest"
    using gate_forward_receiver [of g "c\<lparr>cn_buffer := db1\<rparr>" "int (length m)" mp1] rec rd(2) m by auto
  have "gate_loop g fd c mp = Option.bind (gate_loop g fd (c\<lparr>cn_buffer := databuffer_reset db2\<rparr>) mp2)
        (\<lambda>(acts, c3, mp3). Some (handed g c m # acts, c3, mp3))"
    using rd(1) f(1) m(1,2) by (simp add: gate_loop.simps [of g fd c mp])
  with f(2,3) show ?thesis by (intro exI [of _ "databuffer_reset db2"] exI [of _ mp2]) simp
qed






subsection \<open>Feeding a connection\<close>

text \<open>The gate receives a sequence of data messages for one socket.\<close>

fun gate_receive :: "(string \<Rightarrow> u32) \<Rightarrow> gate \<Rightarrow> int \<Rightarrow> byte list list \<Rightarrow> gate_result" where
  "gate_receive query g fd [] = Some ([], g)"
| "gate_receive query g fd (b # bs) = do {
     (r, acts, g1) \<leftarrow> gate_cb query g (uint PTYPE_SOCKET) 0
        (Some (Socket_message SOCKET_DATA fd (int (length b)) (Some b) [])) SOCKET_MESSAGE_SIZE;
     (acts2, g2) \<leftarrow> gate_receive query g1 fd bs;
     Some (acts @ acts2, g2) }"

lemma data_message:
  assumes inv: "gate_inv g" and i: "hid_map (g_hash g) fd = Some i"
  shows "gate_cb query g (uint PTYPE_SOCKET) src (Some (Socket_message SOCKET_DATA fd ud (Some b) pad)) len =
    (case gate_dispatch_message g i fd b ud of Some (acts, g1) \<Rightarrow> Some (0, acts, g1) | None \<Rightarrow> None)"
proof -
  have "i < length (g_conn g)" using gate_invD(3) [OF inv] i by (auto simp: ids_match_def)
  moreover have "hashid_lookup (g_hash g) fd = Some (int i)" using hashid_lookup_spec [OF gate_invD(1) [OF inv], of fd] i by simp
  ultimately show ?thesis
    by (auto simp: gate_cb_def PTYPE_SOCKET_def PTYPE_TEXT_def PTYPE_CLIENT_def dispatch_socket_message_def on_data_def
        split: option.splits)
qed




subsection \<open>A message without a receiver\<close>

lemma unread_turn:
  assumes no: "\<not> has_receiver g c" and db: "db_inv db" "db_header db = 0" "db_stream db = frame (g_header g) m"
    and two: "g_header g = 2 \<or> g_header g = 4" and m: "m \<noteq> []" "fits (g_header g) m"
  shows "\<exists>db' mp'. db_inv db' \<and> db_header db' = 0 \<and> db_stream db' = m
    \<and> gate_loop g fd (c\<lparr>cn_buffer := db\<rparr>) mp = gate_loop g fd (c\<lparr>cn_buffer := db'\<rparr>) mp'"
proof -
  let ?h = "g_header g"
  have len: "length (be_header ?h (length m)) = nat ?h" using two by (auto simp: be_header_def)
  have st: "take (nat ?h) (db_stream db) = be_header ?h (length m)" "drop (nat ?h) (db_stream db) = m"
    "int (length (db_stream db)) = ?h + int (length m)" "0 < ?h"
    using db(3) len two by (auto simp: frame_def)
  have "header_value ?h (be_header ?h (length m)) = int (length m)"
    using header_value_be [OF two] m(2) by (simp add: fits_def)
  then obtain db1 mp1 where rd: "databuffer_readheader db mp ?h = Some (int (length m), db1, mp1)" "db_inv db1"
    "db_stream db1 = m"
    using readheader_next [OF db(1,2) st(4) _ refl, of mp] st by auto
  have "length m < 2 ^ 24" using m(2) by (auto simp: fits_def split: if_splits)
  moreover have "gate_forward g (c\<lparr>cn_buffer := db1\<rparr>) mp1 (int (length m)) = Some ([], c\<lparr>cn_buffer := db1\<rparr>, mp1)"
    using no by (simp add: gate_forward_def has_receiver_def)
  ultimately have "gate_loop g fd (c\<lparr>cn_buffer := db\<rparr>) mp =
      Option.bind (gate_loop g fd (c\<lparr>cn_buffer := databuffer_reset db1\<rparr>) mp1) (\<lambda>(acts, c3, mp3). Some (acts, c3, mp3))"
    using rd(1) m(1) by (simp add: gate_loop.simps [of g fd "c\<lparr>cn_buffer := db\<rparr>" mp])
  also have "\<dots> = gate_loop g fd (c\<lparr>cn_buffer := databuffer_reset db1\<rparr>) mp1"
    by (cases "gate_loop g fd (c\<lparr>cn_buffer := databuffer_reset db1\<rparr>) mp1") auto
  finally show ?thesis using rd(2,3) by (intro exI [of _ "databuffer_reset db1"] exI [of _ mp1]) simp
qed

lemma header_waits:
  assumes db: "db_inv db" "db_header db = 0" "db_stream db = be_header (g_header g) k @ part"
    and two: "g_header g = 2 \<or> g_header g = 4" and k: "length part < k" "k < (if g_header g = 2 then 2 ^ 16 else 2 ^ 24)"
  shows "\<exists>db' mp'. db_inv db' \<and> db_header db' = int k \<and> db_stream db' = part
    \<and> gate_loop g fd (c\<lparr>cn_buffer := db\<rparr>) mp = Some ([], c\<lparr>cn_buffer := db'\<rparr>, mp')"
proof -
  let ?h = "g_header g"
  have len: "length (be_header ?h k) = nat ?h" using two by (auto simp: be_header_def)
  have st: "take (nat ?h) (db_stream db) = be_header ?h k" "drop (nat ?h) (db_stream db) = part"
    "int (length (db_stream db)) = ?h + int (length part)" "0 < ?h"
    using db(3) len two by auto
  obtain db1 mp1 where "databuffer_readheader db mp ?h = Some (- 1, db1, mp1)" "db_inv db1" "db_header db1 = int k" "db_stream db1 = part"
    using readheader_next [OF db(1,2) st(4) _ refl, of mp] st k(1) header_value_be [OF two k(2)] by auto
  then show ?thesis by (auto simp: gate_loop.simps [of g fd "c\<lparr>cn_buffer := db\<rparr>" mp])
qed

lemma data_loop:
  assumes inv: "gate_inv g" and i: "hid_map (g_hash g) fd = Some i"
  shows "\<exists>db mp. db_inv db \<and> db_stream db = db_stream (cn_buffer (g_conn g ! i)) @ b \<and> db_header db = db_header (cn_buffer (g_conn g ! i))
    \<and> gate_receive query g fd [b] = Option.bind (gate_loop g fd ((g_conn g ! i)\<lparr>cn_buffer := db\<rparr>) mp)
        (\<lambda>(acts, c1, mp1). Some (acts, g\<lparr>g_conn := (g_conn g)[i := c1], g_mp := mp1\<rparr>))"
proof -
  let ?c = "g_conn g ! i"
  have "i < length (g_conn g)" using gate_invD(3) [OF inv] i by (auto simp: ids_match_def)
  then have "db_inv (cn_buffer ?c)" using gate_invD(5) [OF inv] by (simp add: conn_ok_def)
  then obtain db mp where p: "databuffer_push (cn_buffer ?c) (g_mp g) b (int (length b)) = (db, mp)" "db_inv db"
    "db_stream db = db_stream (cn_buffer ?c) @ b" "db_header db = db_header (cn_buffer ?c)"
    using databuffer_push_spec [OF _ refl, of "cn_buffer ?c" "g_mp g" b] by blast
  then show ?thesis
    by (intro exI [of _ db] exI [of _ mp])
      (auto simp: data_message [OF inv i] gate_dispatch_message_def split: option.splits prod.splits)
qed

lemma receive_inv:
  assumes "gate_inv g"
  shows "\<exists>acts g'. gate_receive query g fd bs = Some (acts, g') \<and> gate_inv g'"
  using assms
proof (induction bs arbitrary: g)
  case (Cons b bs)
  have "gate_msg g (uint PTYPE_SOCKET) (Some (Socket_message SOCKET_DATA fd (int (length b)) (Some b) [])) SOCKET_MESSAGE_SIZE"
    by (simp add: gate_msg_def PTYPE_SOCKET_def PTYPE_TEXT_def PTYPE_CLIENT_def)
  from gate_cb_ok [OF Cons.prems this, of query 0] Cons.IH show ?case by fastforce
qed simp

lemma pending_handed:
  assumes inv: "gate_inv g" and i: "hid_map (g_hash g) fd = Some i" and rec: "has_receiver g (g_conn g ! i)"
    and db: "db_header (cn_buffer (g_conn g ! i)) = int k" "db_stream (cn_buffer (g_conn g ! i)) = part"
    and k: "0 < k" "k < 2 ^ 24" "k \<le> length (part @ b)"
  shows "\<exists>acts g'. gate_receive query g fd [b] = Some (handed g (g_conn g ! i) (take k (part @ b)) # acts, g')"
proof -
  let ?c = "g_conn g ! i"
  obtain db1 mp where l: "db_inv db1" "db_stream db1 = part @ b" "db_header db1 = int k"
    "gate_receive query g fd [b] = Option.bind (gate_loop g fd (?c\<lparr>cn_buffer := db1\<rparr>) mp)
        (\<lambda>(acts, c1, mp1). Some (acts, g\<lparr>g_conn := (g_conn g)[i := c1], g_mp := mp1\<rparr>))"
    using data_loop [OF inv i, of b query] db by auto
  define m where "m = take k (part @ b)"
  have m: "m \<noteq> []" "length m = k" "db_stream db1 = m @ drop k (part @ b)"
    using k l(2) unfolding m_def by (auto simp del: take_append drop_append)
  have rd: "databuffer_readheader (cn_buffer (?c\<lparr>cn_buffer := db1\<rparr>)) mp (g_header g) = Some (int (length m), db1, mp)"
    using readheader_pending [OF l(1), of mp "g_header g"] l(2,3) k m(2) by simp
  have small: "length m < 2 ^ 24" and rec': "has_receiver g (?c\<lparr>cn_buffer := db1\<rparr>)" using k(2) m(2) rec by simp_all
  obtain db2 mp2 where s: "db_inv db2" "gate_loop g fd (?c\<lparr>cn_buffer := db1\<rparr>) mp =
      Option.bind (gate_loop g fd (?c\<lparr>cn_buffer := db2\<rparr>) mp2) (\<lambda>(acts, c3, mp3). Some (handed g ?c m # acts, c3, mp3))"
    using loop_message [OF rd l(1) m(1) small m(3) rec', of fd] by auto
  obtain acts c3 mp3 where "gate_loop g fd (?c\<lparr>cn_buffer := db2\<rparr>) mp2 = Some (acts, c3, mp3)"
    using gate_loop_ok [OF gate_invD(6) [OF inv], of "?c\<lparr>cn_buffer := db2\<rparr>" fd mp2] s(1) by auto
  with s(2) l(4) show ?thesis by (simp add: m_def)
qed

text \<open>The gate reads the payload of an unread message as headers: after the frame of a message that
  begins like a header of its own, that header is pending.\<close>

lemma unread_pending:
  assumes inv: "gate_inv g" and i: "hid_map (g_hash g) fd = Some i" and no: "\<not> has_receiver g (g_conn g ! i)"
    and db: "cn_buffer (g_conn g ! i) = db_empty" and m: "m = be_header (g_header g) k @ part" "fits (g_header g) m"
    and k: "length part < k" "k < (if g_header g = 2 then 2 ^ 16 else 2 ^ 24)"
  shows "\<exists>g1 db mp. gate_receive query g fd [frame (g_header g) m] = Some ([], g1)
    \<and> g1 = g\<lparr>g_conn := (g_conn g)[i := (g_conn g ! i)\<lparr>cn_buffer := db\<rparr>], g_mp := mp\<rparr>
    \<and> db_header db = int k \<and> db_stream db = part"
proof -
  note two = gate_invD(6) [OF inv]
  obtain db1 mp1 where l: "db_inv db1" "db_stream db1 = frame (g_header g) m" "db_header db1 = 0"
    "gate_receive query g fd [frame (g_header g) m] = Option.bind (gate_loop g fd ((g_conn g ! i)\<lparr>cn_buffer := db1\<rparr>) mp1)
        (\<lambda>(acts, c1, mp1). Some (acts, g\<lparr>g_conn := (g_conn g)[i := c1], g_mp := mp1\<rparr>))"
    using data_loop [OF inv i, of "frame (g_header g) m" query] db by auto
  have "m \<noteq> []" using m(1) two by (auto simp: be_header_def)
  then obtain db2 mp2 where u: "db_inv db2" "db_header db2 = 0" "db_stream db2 = m"
    "gate_loop g fd ((g_conn g ! i)\<lparr>cn_buffer := db1\<rparr>) mp1 = gate_loop g fd ((g_conn g ! i)\<lparr>cn_buffer := db2\<rparr>) mp2"
    using unread_turn [OF no l(1,3,2) two _ m(2), of fd mp1] by blast
  obtain db3 mp3 where w: "db_header db3 = int k" "db_stream db3 = part"
    "gate_loop g fd ((g_conn g ! i)\<lparr>cn_buffer := db2\<rparr>) mp2 = Some ([], (g_conn g ! i)\<lparr>cn_buffer := db3\<rparr>, mp3)"
    using header_waits [OF u(1,2) u(3) [unfolded m(1)] two k, of fd "g_conn g ! i" mp2] by blast
  show ?thesis unfolding l(4) u(4) w(3) using w(1,2) by auto
qed

subsection \<open>Properties of the gate service\<close>

text \<open>A gate with the watchdog 7, four connections and two-byte headers that listens on the
  socket 5, before and after it has accepted the socket 9.\<close>

definition example_gate :: gate where
  "example_gate = (the (gate_setup gate_create 7 CHR ''S'' 0 4))\<lparr>g_listen := 5\<rparr>"

definition example_accept :: "payload option" where
  "example_accept = Some (Socket_message SOCKET_ACCEPT 5 9 None (cbytes ''10.0.0.1''))"

definition example_open :: gate where
  "example_open = snd (snd (the (gate_cb (\<lambda>_. 0) example_gate 6 0 example_accept (SOCKET_MESSAGE_SIZE + 8))))"

lemma example_gate_inv: "gate_inv example_gate"
proof -
  obtain g where "gate_setup gate_create 7 CHR ''S'' 0 4 = Some g" "gate_inv g"
    using gate_setup_ok [of 4 7 "CHR ''S''" 0] by auto
  then show ?thesis by (simp add: example_gate_def gate_inv_def)
qed

lemma example_accept_ok: "gate_msg example_gate 6 example_accept (SOCKET_MESSAGE_SIZE + 8)"
  by code_simp

lemma example_open_ok: "gate_inv example_open" "hid_map (g_hash example_open) 9 = Some 1"
    "has_receiver example_open (g_conn example_open ! 1)" "cn_buffer (g_conn example_open ! 1) = db_empty"
    "g_header example_open = 2"
proof -
  show "gate_inv example_open"
    using gate_cb_ok [OF example_gate_inv example_accept_ok, of "\<lambda>_. 0" 0] by (auto simp: example_open_def)
  show "hid_map (g_hash example_open) 9 = Some 1" "has_receiver example_open (g_conn example_open ! 1)"
    "cn_buffer (g_conn example_open ! 1) = db_empty" "g_header example_open = 2" by code_simp+
qed





text \<open>C37. A gate loses the framing of a connection that has no receiver yet. While the gate has
  no broker and no watchdog and the connection no agent, the header of a complete message is
  consumed but its bytes stay in the buffer, where they are read as headers. Let the peer frame
  a message that starts with the header of a length \<open>k\<close> followed by fewer than \<open>k\<close> bytes
  (\<open>part\<close>). Nothing is sent. When the command that sets the agent arrives and then further bytes
  \<open>b\<close> of the peer, the first message that the agent gets is made of the end of the unread
  message and of the bytes of the next frame, header included: the first \<open>k\<close> bytes of
  \<open>part\<close> and \<open>b\<close>.\<close>

theorem gate_unread_message:
  assumes inv: "gate_inv g" and i: "hid_map (g_hash g) fd = Some i" and no: "\<not> has_receiver g (g_conn g ! i)"
    and db: "cn_buffer (g_conn g ! i) = db_empty" and m: "m = be_header (g_header g) k @ part" "fits (g_header g) m"
    and k: "length part < k" "k < (if g_header g = 2 then 2 ^ 16 else 2 ^ 24)" "k \<le> length (part @ b)" and agent: "agent \<noteq> 0"
  shows "\<exists>g1 g2 acts g3. gate_receive query g fd [frame (g_header g) m] = Some ([], g1)
    \<and> forward_agent g1 fd agent client = Some g2
    \<and> gate_receive query g2 fd [b] =
        Some (Gate_send client agent (word_of_int (g_tag g) OR PTYPE_TAG_DONTCOPY) (take k (part @ b)) # acts, g3)"
proof -
  let ?c = "g_conn g ! i"
  obtain g1 db1 mp1 where r: "gate_receive query g fd [frame (g_header g) m] = Some ([], g1)"
    "g1 = g\<lparr>g_conn := (g_conn g)[i := ?c\<lparr>cn_buffer := db1\<rparr>], g_mp := mp1\<rparr>" "db_header db1 = int k" "db_stream db1 = part"
    using unread_pending [OF inv i no db m k(1,2), of query] by blast
  have inv1: "gate_inv g1" using receive_inv [OF inv, of query fd "[frame (g_header g) m]"] r(1) by simp
  have il: "i < length (g_conn g)" using gate_invD(3) [OF inv] i by (auto simp: ids_match_def)
  have i1: "hid_map (g_hash g1) fd = Some i" using i by (simp add: r(2))
  obtain g2 where g2: "forward_agent g1 fd agent client = Some g2" "gate_inv g2"
    using forward_agent_ok [OF inv1, of fd agent client] by blast
  have g2_eq: "g2 = g1\<lparr>g_conn := (g_conn g1)[i := ?c\<lparr>cn_buffer := db1, cn_agent := agent, cn_client := client\<rparr>]\<rparr>"
    using g2(1) il hashid_lookup_spec [OF gate_invD(1) [OF inv1], of fd] i1 by (simp add: forward_agent_def r(2))
  have c2: "g_conn g2 ! i = ?c\<lparr>cn_buffer := db1, cn_agent := agent, cn_client := client\<rparr>" using il by (simp add: g2_eq r(2))
  have "has_receiver g2 (g_conn g2 ! i)" using agent by (simp add: c2 has_receiver_def)
  moreover have "k < 2 ^ 24" using k(2) by (simp split: if_splits)
  moreover have "g_broker g2 = 0" "g_tag g2 = g_tag g" using no by (simp_all add: g2_eq r(2) has_receiver_def)
  then have "handed g2 (g_conn g2 ! i) = Gate_send client agent (word_of_int (g_tag g) OR PTYPE_TAG_DONTCOPY)"
    unfolding c2 using agent by (simp add: handed_def fun_eq_iff)
  moreover have "hid_map (g_hash g2) fd = Some i" using i1 by (simp add: g2_eq)
  ultimately show ?thesis
    using pending_handed [OF g2(2), of fd i k part b query] r c2 g2(1) k(1,3) by auto
qed

theorem gate_unread_message_witness:
  "\<exists>g1 g2 acts g3. gate_receive (\<lambda>_. 0) (example_open\<lparr>g_watchdog := 0\<rparr>) 9 [frame 2 [0, 2, 77]] = Some ([], g1)
    \<and> forward_agent g1 9 10 11 = Some g2
    \<and> gate_receive (\<lambda>_. 0) g2 9 [frame 2 [65]] = Some (Gate_send 11 10 (word_of_int (g_tag example_open) OR PTYPE_TAG_DONTCOPY) [77, 0] # acts, g3)"
proof -
  let ?g = "example_open\<lparr>g_watchdog := 0\<rparr>"
  have inv: "gate_inv ?g" using example_open_ok(1) by (simp add: gate_inv_def)
  have no: "\<not> has_receiver ?g (g_conn ?g ! 1)" by code_simp
  have h: "g_header ?g = 2" "g_tag ?g = g_tag example_open" by (simp_all add: example_open_ok(5))
  have i: "hid_map (g_hash ?g) 9 = Some 1" "cn_buffer (g_conn ?g ! 1) = db_empty" using example_open_ok(2,4) by simp_all
  have m: "[0, 2, 77] = be_header (g_header ?g) 2 @ [77]" "fits (g_header ?g) [0, 2, 77]"
    unfolding h by (simp_all add: be_header_def fits_def)
  have k: "length [77 :: byte] < 2" "(2 :: nat) < (if g_header ?g = 2 then 2 ^ 16 else 2 ^ 24)"
    "2 \<le> length ([77] @ frame 2 [65])" "(10 :: u32) \<noteq> 0" by (simp_all add: h frame_def)
  have t: "take 2 ([77] @ frame 2 [65]) = [77, 0]" by (simp add: frame_def be_header_def)
  show ?thesis
    using gate_unread_message [OF inv i(1) no i(2) m k, of "\<lambda>_. 0" 11] by (simp only: h t)
qed

text \<open>C38. The command that closes the listening socket races with connections that are already
  reported. A gate that listens on a socket accepts the command \<open>close\<close>, closes the socket and
  forgets it; a report of a connection on that socket that was queued behind the command then
  fails the assertion of the accept branch and stops the process.\<close>

theorem gate_close_race:
  assumes "0 \<le> g_listen g"
  shows "\<exists>g'. gate_cb query g (uint PTYPE_TEXT) src (Some (Bytes (cbytes ''close''))) 5 = Some (0, [Gate_close (g_listen g)], g')
    \<and> gate_cb query g' (uint PTYPE_SOCKET) src2 (Some (Socket_message SOCKET_ACCEPT (g_listen g) ud buf pad)) len = None"
proof -
  have "chars (cbytes ''close'') = ''close''" by code_simp
  then have "ctrl query g (cbytes ''close'') = ctrl_close g"
    by (simp add: ctrl_def memcmp_eq_def Let_def) (simp add: cbytes_def)
  then have "gate_cb query g (uint PTYPE_TEXT) src (Some (Bytes (cbytes ''close''))) 5 =
      Some (0, [Gate_close (g_listen g)], g\<lparr>g_listen := - 1\<rparr>)"
    using assms by (simp add: gate_cb_def ctrl_close_def cbytes_def)
  moreover have "gate_cb query (g\<lparr>g_listen := - 1\<rparr>) (uint PTYPE_SOCKET) src2
      (Some (Socket_message SOCKET_ACCEPT (g_listen g) ud buf pad)) len = None"
    using assms by (simp add: gate_cb_def PTYPE_SOCKET_def PTYPE_TEXT_def PTYPE_CLIENT_def dispatch_socket_message_def on_accept_def
        SOCKET_ACCEPT_def SOCKET_DATA_def SOCKET_CONNECT_def SOCKET_CLOSE_def SOCKET_ERROR_def)
  ultimately show ?thesis by blast
qed

theorem gate_close_race_witness:
  "\<exists>g'. gate_cb (\<lambda>_. 0) example_gate (uint PTYPE_TEXT) 0 (Some (Bytes (cbytes ''close''))) 5 = Some (0, [Gate_close 5], g')
    \<and> gate_cb (\<lambda>_. 0) g' (uint PTYPE_SOCKET) 0 example_accept (SOCKET_MESSAGE_SIZE + 8) = None"
proof -
  have "g_listen example_gate = 5" by (simp add: example_gate_def)
  with gate_close_race [of example_gate "\<lambda>_. 0" 0 0 9 None "cbytes ''10.0.0.1''" "SOCKET_MESSAGE_SIZE + 8"]
  show ?thesis by (simp add: example_accept_def)
qed

end
