(* ===== verification/Spec2Isabelle.thy ===== *)
theory Spec2Isabelle
  imports Netpack Seri_Trip Command_Inv Gate_Stream
begin

end
